(* ===== verification/Prelude.thy ===== *)
theory Prelude
  imports Main "HOL-Library.Word" "HOL-Library.Multiset" "HOL-Library.Sublist"
    "HOL-Library.Char_ord" "HOL-Library.List_Lexorder"
begin

text \<open>
  Shared vocabulary of the development: Go's integer arithmetic, panics and errors as
  values, the comparison-based \<^verbatim>\<open>sort.Slice\<close> of the Go standard library, and the generic
  list lemmas the component theories use.

  Timestamps (\<^verbatim>\<open>int64\<close> milliseconds) are modelled as \<^typ>\<open>int\<close>, with the wrap-around of their
  arithmetic written out as \<open>i64\<close> where a result can leave the range; unsigned values that rely on
  wrap-around or are exposed to it (hash rings, byte offsets, ULID ages) keep their width as
  \<^typ>\<open>64 word\<close>. Conversions to \<^verbatim>\<open>float64\<close> round to 53 bits.
\<close>

named_theorems thanos_simps

named_theorems thanos_intros

type_synonym uint64 = "64 word"

type_synonym ulid = "128 word"

type_synonym label = "string \<times> string"

type_synonym labels = "label list"

section \<open>Go integers\<close>

definition MinInt64 :: int where
  "MinInt64 = - (2 ^ 63)"

definition MaxInt64 :: int where
  "MaxInt64 = 2 ^ 63 - 1"

text \<open>Go's \<^verbatim>\<open>/\<close> and \<^verbatim>\<open>%\<close> on signed integers truncate towards zero.\<close>

definition go_div :: "int \<Rightarrow> int \<Rightarrow> int" where
  "go_div a b = sgn a * sgn b * (\<bar>a\<bar> div \<bar>b\<bar>)"

definition go_mod :: "int \<Rightarrow> int \<Rightarrow> int" where
  "go_mod a b = a - b * go_div a b"

lemma go_div_nonneg: "0 \<le> a \<Longrightarrow> 0 < b \<Longrightarrow> go_div a b = a div b"
  by (cases "a = 0") (auto simp: go_div_def)

lemma go_div_neg: "a \<le> 0 \<Longrightarrow> 0 < b \<Longrightarrow> go_div a b = - ((- a) div b)"
  by (cases "a = 0") (auto simp: go_div_def)

lemma go_mod_nonneg: "0 \<le> a \<Longrightarrow> 0 < b \<Longrightarrow> go_mod a b = a mod b"
  by (simp add: go_mod_def go_div_nonneg minus_mult_div_eq_mod)

text \<open>
  Arithmetic on \<^verbatim>\<open>int64\<close> wraps around: \<open>i64\<close> is the value a result that does not fit is stored as.
\<close>

definition i64 :: "int \<Rightarrow> int" where
  "i64 x = (x + 2 ^ 63) mod 2 ^ 64 - 2 ^ 63"

lemma i64_id [simp]: "MinInt64 \<le> x \<Longrightarrow> x \<le> MaxInt64 \<Longrightarrow> i64 x = x"
  by (simp add: i64_def MinInt64_def MaxInt64_def)

lemma i64_range: "MinInt64 \<le> i64 x \<and> i64 x \<le> MaxInt64"
  using pos_mod_bound [of "2 ^ 64 :: int" "x + 2 ^ 63"] pos_mod_sign [of "2 ^ 64 :: int" "x + 2 ^ 63"]
  by (simp add: i64_def MinInt64_def MaxInt64_def)

text \<open>
  The conversion of an integer to \<^verbatim>\<open>float64\<close> keeps 53 bits and rounds to nearest, ties to even.
\<close>

function bitLen :: "int \<Rightarrow> nat" where
  "bitLen n = (if n \<le> 0 then 0 else Suc (bitLen (n div 2)))"
  by pat_completeness auto
termination
  by (relation "measure nat") auto

declare bitLen.simps [simp del]

definition round53 :: "int \<Rightarrow> int" where
  "round53 n =
     (let k = bitLen n - 53; q = n div 2 ^ k; r = n mod 2 ^ k
      in if k = 0 then n
         else if 2 * r < 2 ^ k \<or> 2 * r = 2 ^ k \<and> even q then q * 2 ^ k
         else (q + 1) * 2 ^ k)"

lemma bitLen_le: "n < 2 ^ k \<Longrightarrow> bitLen n \<le> k"
proof (induction n arbitrary: k rule: bitLen.induct)
  case (1 n)
  show ?case
  proof (cases "n \<le> 0")
    case True
    then show ?thesis by (simp add: bitLen.simps)
  next
    case False
    then obtain j where k: "k = Suc j" using "1.prems" by (cases k) auto
    then have "n div 2 < 2 ^ j" using "1.prems" by auto
    then show ?thesis using "1.IH" [OF False] False k by (simp add: bitLen.simps [of n])
  qed
qed

lemma round53_id [simp]: "n < 2 ^ 53 \<Longrightarrow> round53 n = n"
  using bitLen_le [of n 53] by (simp add: round53_def)

text \<open>The age of a ULID: its 48 most significant bits are a millisecond timestamp.\<close>

definition ulid_time :: "ulid \<Rightarrow> uint64" where
  "ulid_time u = ucast (drop_bit 80 u)"

section \<open>sort.Slice\<close>

text \<open>
  \<^verbatim>\<open>sort.Slice\<close> takes the comparison \<open>lt\<close>. For short slices Go runs exactly this
  insertion sort; the order of entries that compare equal is not specified, and no
  property of the development depends on it.
\<close>

fun insert_by :: "('a \<Rightarrow> 'a \<Rightarrow> bool) \<Rightarrow> 'a \<Rightarrow> 'a list \<Rightarrow> 'a list" where
  "insert_by lt x [] = [x]"
| "insert_by lt x (y # ys) = (if lt y x then y # insert_by lt x ys else x # y # ys)"

definition sort_slice :: "('a \<Rightarrow> 'a \<Rightarrow> bool) \<Rightarrow> 'a list \<Rightarrow> 'a list" where
  "sort_slice lt xs = foldr (insert_by lt) xs []"

lemma mset_insert_by [simp]: "mset (insert_by lt x xs) = add_mset x (mset xs)"
  by (induction xs) auto

lemma set_insert_by [simp]: "set (insert_by lt x xs) = insert x (set xs)"
  by (induction xs) auto

lemma sort_slice_Nil [simp]: "sort_slice lt [] = []"
  by (simp add: sort_slice_def)

lemma sort_slice_Cons: "sort_slice lt (x # xs) = insert_by lt x (sort_slice lt xs)"
  by (simp add: sort_slice_def)

lemma mset_sort_slice [simp]: "mset (sort_slice lt xs) = mset xs"
  by (induction xs) (auto simp: sort_slice_Cons)

lemma set_sort_slice [simp]: "set (sort_slice lt xs) = set xs"
  using mset_sort_slice by (rule mset_eq_setD)

lemma length_sort_slice [simp]: "length (sort_slice lt xs) = length xs"
  using mset_sort_slice by (rule mset_eq_length)

lemma distinct_sort_slice [simp]: "distinct (sort_slice lt xs) = distinct xs"
  using mset_sort_slice by (rule mset_eq_imp_distinct_iff)

text \<open>
  The contract of a comparison passed to \<^verbatim>\<open>sort.Slice\<close>: a strict weak order. Every
  comparison of the sources is an interpretation of this locale.
\<close>

locale slice_order =
  fixes lt :: "'a \<Rightarrow> 'a \<Rightarrow> bool"
  assumes less_asym: "lt x y \<Longrightarrow> \<not> lt y x"
    and less_trans: "lt x y \<Longrightarrow> lt y z \<Longrightarrow> lt x z"
    and less_total: "\<not> lt x y \<Longrightarrow> \<not> lt y z \<Longrightarrow> \<not> lt x z"
begin

lemma sorted_insert_by:
  "sorted_wrt (\<lambda>x y. \<not> lt y x) xs \<Longrightarrow> sorted_wrt (\<lambda>x y. \<not> lt y x) (insert_by lt a xs)"
proof (induction xs)
  case Nil
  then show ?case by simp
next
  case (Cons y ys)
  then show ?case
    using less_total by (auto dest: less_asym)
qed

lemma sorted_sort_slice: "sorted_wrt (\<lambda>x y. \<not> lt y x) (sort_slice lt xs)"
  by (induction xs) (auto simp: sort_slice_Cons intro: sorted_insert_by)

lemma insert_by_front:
  "\<forall>y \<in> set ys. \<not> lt y x \<Longrightarrow> insert_by lt x ys = x # ys"
  by (cases ys) auto

lemma sort_slice_id: "sorted_wrt (\<lambda>x y. \<not> lt y x) xs \<Longrightarrow> sort_slice lt xs = xs"
  by (induction xs) (auto simp: sort_slice_Cons insert_by_front)

lemma sort_slice_idem: "sort_slice lt (sort_slice lt xs) = sort_slice lt xs"
  by (rule sort_slice_id) (rule sorted_sort_slice)

end

text \<open>Comparisons through a key into a linear order, the most common shape in the sources.\<close>

lemma slice_order_key:
  fixes k :: "'a \<Rightarrow> 'b::linorder"
  shows "slice_order (\<lambda>x y. k x < k y)"
  by unfold_locales auto

section \<open>Lists\<close>

lemma sorted_wrt_imp_filter: "sorted_wrt P xs \<Longrightarrow> sorted_wrt P (filter Q xs)"
  by (rule sorted_wrt_filter)

lemma sorted_wrt_take_drop:
  assumes "sorted_wrt P xs"
  shows "sorted_wrt P (take n xs)" and "sorted_wrt P (drop n xs)"
proof -
  have "sorted_wrt P (take n xs @ drop n xs)" using assms by simp
  then show "sorted_wrt P (take n xs)" and "sorted_wrt P (drop n xs)"
    unfolding sorted_wrt_append by simp_all
qed

lemma subseq_take: "subseq (take n xs) xs"
  by (metis append_take_drop_id prefixI prefix_imp_subseq)

lemma subseq_drop: "subseq (drop n xs) xs"
  by (metis append_take_drop_id suffixI suffix_imp_subseq)

lemma set_subseq: "subseq xs ys \<Longrightarrow> set xs \<subseteq> set ys"
  by (induction rule: list_emb.induct) auto

lemma sublist_concat: "p \<in> set ps \<Longrightarrow> sublist p (concat ps)"
  by (metis concat.simps(2) concat_append split_list sublist_appendI)

end
