(* ===== verification/Block_Meta.thy ===== *)
theory Block_Meta
  imports Prelude
begin

text \<open>
  The metadata of a TSDB block as Thanos keeps it (\<^verbatim>\<open>pkg/block/metadata\<close>): the TSDB fields
  the code reads, the Thanos section, and the two kinds of marker files.

  Go's \<^verbatim>\<open>map[string]string\<close> of external labels is an association list; \<open>labels_from_map\<close>
  is \<^verbatim>\<open>labels.FromMap\<close>, which sorts by label name.
\<close>

datatype source_type =
    UnknownSource | SidecarSource | ReceiveSource | CompactorSource | CompactorRepairSource
  | RulerSource | BucketRepairSource | BucketRewriteSource | TestSource

record block_file =
  relPath :: string
  sizeBytes :: int

record thanos_meta =
  extLabels :: labels
  resolution :: int
  source :: source_type
  segmentFiles :: "string list"
  files :: "block_file list"

record meta =
  metaULID :: ulid
  metaVersion :: int
  minTime :: int
  maxTime :: int
  numSamples :: nat
  numSeries :: nat
  numTombstones :: nat
  level :: nat
  sources :: "ulid list"
  failed :: bool
  thanos :: thanos_meta

record no_compact_mark =
  ncID :: ulid
  ncVersion :: int

record deletion_mark =
  dmID :: ulid
  dmVersion :: int
  deletionTime :: int

definition IndexFilename :: string where
  "IndexFilename = ''index''"

definition MetaFilename :: string where
  "MetaFilename = ''meta.json''"

definition ChunksDirname :: string where
  "ChunksDirname = ''chunks''"

definition DeletionMarkFilename :: string where
  "DeletionMarkFilename = ''deletion-mark.json''"

definition NoCompactMarkFilename :: string where
  "NoCompactMarkFilename = ''no-compact-mark.json''"

definition labels_from_map :: "labels \<Rightarrow> labels" where
  "labels_from_map m = sort_slice (\<lambda>a b. fst a < fst b) m"

definition ResLevel0 :: int where
  "ResLevel0 = 0"

definition ResLevel1 :: int where
  "ResLevel1 = 5 * 60 * 1000"

definition ResLevel2 :: int where
  "ResLevel2 = 60 * 60 * 1000"

text \<open>Blocks ordered by start time, as every consumer of a compaction group expects them.\<close>

definition sorted_by_min_time :: "meta list \<Rightarrow> bool" where
  "sorted_by_min_time ms = sorted_wrt (\<lambda>a b. minTime a \<le> minTime b) ms"

definition wf_block_times :: "meta list \<Rightarrow> bool" where
  "wf_block_times ms = (\<forall>m \<in> set ms. minTime m \<le> maxTime m)"

text \<open>A raw block of level 1, the shape a sidecar uploads; the concrete blocks of the examples.\<close>

definition rawBlock :: "ulid \<Rightarrow> int \<Rightarrow> int \<Rightarrow> meta" where
  "rawBlock i mint maxt =
     \<lparr>metaULID = i, metaVersion = 1, minTime = mint, maxTime = maxt, numSamples = 1, numSeries = 1, numTombstones = 0,
      level = 1, sources = [i], failed = False,
      thanos = \<lparr>extLabels = [(''cluster'', ''a'')], resolution = 0, source = SidecarSource,
                segmentFiles = [], files = []\<rparr>\<rparr>"

lemmas resolution_defs = ResLevel0_def ResLevel1_def ResLevel2_def

interpretation by_label_name: slice_order "\<lambda>(a :: label) b. fst a < fst b"
  by (rule slice_order_key)

interpretation by_min_time: slice_order "\<lambda>(a :: meta) b. minTime a < minTime b"
  by (rule slice_order_key)

lemma sorted_by_min_time_Cons:
  "sorted_by_min_time (m # ms) \<longleftrightarrow>
     (\<forall>x \<in> set ms. minTime m \<le> minTime x) \<and> sorted_by_min_time ms"
  by (simp add: sorted_by_min_time_def)

lemma sorted_by_min_time_filter:
  "sorted_by_min_time ms \<Longrightarrow> sorted_by_min_time (filter P ms)"
  by (simp add: sorted_by_min_time_def sorted_wrt_filter)

lemma sorted_by_min_time_sort:
  "sorted_by_min_time (sort_slice (\<lambda>a b. minTime a < minTime b) ms)"
  using by_min_time.sorted_sort_slice [of ms]
  by (simp add: sorted_by_min_time_def not_less)

end
