(* ===== verification/Dedup_Filter.thy ===== *)
theory Dedup_Filter
  imports Block_Meta
begin

text \<open>
  The filter that drops blocks whose data is contained in another block (\<^verbatim>\<open>DeduplicateFilter\<close> of
  \<^verbatim>\<open>pkg/block/fetcher.go\<close> and the trees of \<^verbatim>\<open>pkg/block/node.go\<close>): per resolution, blocks are put into
  a tree in which a child's sources are among its parent's, and only the top level survives.
\<close>

type_synonym meta_map = "(ulid \<times> meta) list"

text \<open>
  A Go map from ULIDs to metadata is the list of its entries; the order of the list stands for an
  iteration order, which the language leaves open.
\<close>

definition delete_meta :: "ulid \<Rightarrow> meta_map \<Rightarrow> meta_map" where
  "delete_meta i ms = filter (\<lambda>(j, _). j \<noteq> i) ms"

section \<open>Trees of blocks\<close>

datatype node = Node (nodeMeta: meta) (Children: "node list")

definition NewNode :: "meta \<Rightarrow> node" where
  "NewNode m = Node m []"

fun childrenToULIDs :: "node \<Rightarrow> ulid list" where
  "childrenToULIDs (Node m cs) = metaULID m # concat (map childrenToULIDs cs)"

definition remove_ulid :: "ulid list \<Rightarrow> ulid \<Rightarrow> ulid list" where
  "remove_ulid items item = filter (\<lambda>i. i \<noteq> item) items"

definition getNonRootIDs :: "node \<Rightarrow> ulid list" where
  "getNonRootIDs root =
     foldl (\<lambda>ulids n. remove_ulid (ulids @ childrenToULIDs n) (metaULID (nodeMeta n))) []
       (Children root)"

definition contains :: "ulid list \<Rightarrow> ulid list \<Rightarrow> bool" where
  "contains s1 s2 = list_all (\<lambda>a. list_ex (\<lambda>e. a = e) s1) s2"

text \<open>The loop over the children of a node, and the descent into the child it ends at.\<close>

fun addNodeBySources :: "node \<Rightarrow> node \<Rightarrow> node"
  and addToChildren :: "node list \<Rightarrow> node \<Rightarrow> node list" where
  "addNodeBySources (Node m cs) add = Node m (addToChildren cs add)"
| "addToChildren [] add = [add]"
| "addToChildren (n # ns) add =
     (let parentSources = sources (nodeMeta n); childSources = sources (nodeMeta add)
      in if contains parentSources childSources \<and> contains childSources parentSources
         then Node (nodeMeta n) (Children n @ [add]) # ns
         else if contains parentSources childSources then addNodeBySources n add # ns
         else n # addToChildren ns add)"

section \<open>The filter\<close>

definition moreSources :: "meta \<Rightarrow> meta \<Rightarrow> bool" where
  "moreSources a b =
     (if length (sources a) = length (sources b) then metaULID a < metaULID b
      else length (sources b) < length (sources a))"

definition emptyMeta :: meta where
  "emptyMeta = \<lparr>metaULID = 0, metaVersion = 0, minTime = 0, maxTime = 0, numSamples = 0, numSeries = 0,
     numTombstones = 0, level = 0, sources = [], failed = False,
     thanos = \<lparr>extLabels = [], resolution = 0, source = UnknownSource, segmentFiles = [], files = []\<rparr>\<rparr>"

definition deduplicationTree :: "meta list \<Rightarrow> node" where
  "deduplicationTree metaSlice =
     foldl (\<lambda>root m. addNodeBySources root (NewNode m)) (NewNode emptyMeta)
       (sort_slice moreSources metaSlice)"

definition dropDuplicate :: "meta_map \<times> ulid list \<Rightarrow> ulid \<Rightarrow> meta_map \<times> ulid list" where
  "dropDuplicate st i =
     (case st of (metas, dups) \<Rightarrow>
        (delete_meta i metas, if map_of metas i \<noteq> None then dups @ [i] else dups))"

definition filterForResolution :: "meta list \<Rightarrow> meta_map \<times> ulid list \<Rightarrow> meta_map \<times> ulid list" where
  "filterForResolution metaSlice st =
     foldl dropDuplicate st (getNonRootIDs (deduplicationTree metaSlice))"

definition metasOfResolution :: "meta_map \<Rightarrow> int \<Rightarrow> meta list" where
  "metasOfResolution metas res =
     map snd (filter (\<lambda>(_, m). resolution (thanos m) = res) metas)"

definition dedupFilter :: "meta_map \<Rightarrow> meta_map \<times> ulid list" where
  "dedupFilter metas =
     foldl (\<lambda>st res. filterForResolution (metasOfResolution metas res) st) (metas, [])
       (remdups (map (\<lambda>(_, m). resolution (thanos m)) metas))"

section \<open>Specification vocabulary\<close>

text \<open>Two blocks of the same upload, their compaction, and a block it does not include.\<close>

definition sampleMetas :: meta_map where
  "sampleMetas =
     [(1, rawBlock 1 0 10), (2, rawBlock 2 10 20), (5, (rawBlock 5 0 20)\<lparr>sources := [1, 2]\<rparr>),
      (6, (rawBlock 6 0 20)\<lparr>sources := [2, 1]\<rparr>), (7, rawBlock 7 20 30)]"

definition ids :: "node list \<Rightarrow> ulid list" where
  "ids ns = concat (map childrenToULIDs ns)"

definition covers :: "meta \<Rightarrow> meta \<Rightarrow> bool" where
  "covers k m \<longleftrightarrow> set (sources m) \<subseteq> set (sources k)"

text \<open>The reference selection: scan in order, keep what no kept block covers.\<close>

fun uncovered :: "meta list \<Rightarrow> meta list \<Rightarrow> meta list" where
  "uncovered kept [] = kept"
| "uncovered kept (m # ms) =
     (if \<exists>k \<in> set kept. covers k m then uncovered kept ms else uncovered (kept @ [m]) ms)"

definition treeFrom :: "node \<Rightarrow> meta list \<Rightarrow> node" where
  "treeFrom root ms = foldl (\<lambda>root m. addNodeBySources root (NewNode m)) root ms"

definition irredundant :: "meta set \<Rightarrow> bool" where
  "irredundant S \<longleftrightarrow> (\<forall>a \<in> S. \<forall>b \<in> S. a \<noteq> b \<longrightarrow> \<not> covers a b)"

definition survivors :: "meta list \<Rightarrow> meta list" where
  "survivors sl = uncovered [] (sort_slice moreSources sl)"

definition keyed :: "meta_map \<Rightarrow> bool" where
  "keyed metas \<longleftrightarrow> distinct (map fst metas) \<and> (\<forall>(i, m) \<in> set metas. metaULID m = i)"

interpretation by_sources: slice_order moreSources
  by unfold_locales (auto simp: moreSources_def split: if_splits)

section \<open>The tree\<close>

lemma contains_iff: "contains s1 s2 \<longleftrightarrow> set s2 \<subseteq> set s1"
  by (auto simp: contains_def list_all_iff list_ex_iff)

lemma nodeMeta_add [simp]: "nodeMeta (addNodeBySources n add) = nodeMeta n"
  by (cases n) simp

lemma roots_addToChildren:
  "map nodeMeta (addToChildren ns add) =
     (if \<exists>n \<in> set ns. covers (nodeMeta n) (nodeMeta add) then map nodeMeta ns
      else map nodeMeta ns @ [nodeMeta add])"
  by (induction ns) (auto simp: Let_def contains_iff covers_def)

lemma ids_add:
  "mset (childrenToULIDs (addNodeBySources n add)) = mset (childrenToULIDs n) + mset (childrenToULIDs add)"
  "mset (ids (addToChildren ns add)) = mset (ids ns) + mset (childrenToULIDs add)"
proof (induction n add and ns add rule: addNodeBySources_addToChildren.induct)
  case (1 m cs add)
  then show ?case by (simp add: ids_def)
next
  case (2 add)
  then show ?case by (simp add: ids_def)
next
  case (3 n ns add)
  show ?case
    using 3 by (cases n) (auto simp: ids_def Let_def)
qed

lemma roots_treeFrom:
  "map nodeMeta (Children (treeFrom root ms)) = uncovered (map nodeMeta (Children root)) ms"
proof (induction ms arbitrary: root)
  case Nil
  then show ?case by (simp add: treeFrom_def)
next
  case (Cons m ms)
  obtain r cs where root: "root = Node r cs" by (cases root)
  have "treeFrom root (m # ms) = treeFrom (addNodeBySources root (NewNode m)) ms"
    by (simp add: treeFrom_def)
  then show ?case
    using Cons.IH [of "addNodeBySources root (NewNode m)"]
    by (simp add: root roots_addToChildren NewNode_def)
qed

lemma ids_treeFrom:
  "mset (ids (Children (treeFrom root ms))) = mset (ids (Children root)) + mset (map metaULID ms)"
proof (induction ms arbitrary: root)
  case Nil
  then show ?case by (simp add: treeFrom_def)
next
  case (Cons m ms)
  obtain r cs where root: "root = Node r cs" by (cases root)
  have "treeFrom root (m # ms) = treeFrom (addNodeBySources root (NewNode m)) ms"
    by (simp add: treeFrom_def)
  then show ?case
    using Cons.IH [of "addNodeBySources root (NewNode m)"]
    by (simp add: root ids_add NewNode_def)
qed

lemma nonRoot_fold:
  "distinct (acc @ ids ns) \<Longrightarrow>
     set (foldl (\<lambda>ulids n. remove_ulid (ulids @ childrenToULIDs n) (metaULID (nodeMeta n))) acc ns) =
       (set acc \<union> set (ids ns)) - metaULID ` nodeMeta ` set ns"
proof (induction ns arbitrary: acc)
  case Nil
  then show ?case by (simp add: ids_def)
next
  case (Cons n ns)
  let ?acc = "remove_ulid (acc @ childrenToULIDs n) (metaULID (nodeMeta n))"
  have n: "metaULID (nodeMeta n) \<in> set (childrenToULIDs n)" by (cases n) simp
  have "distinct (?acc @ ids ns)"
    using Cons.prems by (auto simp: ids_def remove_ulid_def)
  note IH = Cons.IH [OF this]
  have "metaULID ` nodeMeta ` set ns \<subseteq> set (ids ns)"
    by (auto simp: ids_def) (metis childrenToULIDs.elims list.set_intros(1) node.sel(1))
  moreover have "metaULID (nodeMeta n) \<notin> set (ids ns)" "metaULID (nodeMeta n) \<notin> set acc"
    using n Cons.prems by (auto simp: ids_def)
  ultimately show ?case
    using IH n by (auto simp: ids_def remove_ulid_def)
qed

section \<open>The reference selection\<close>

lemma uncovered_set: "set kept \<subseteq> set (uncovered kept ms)" "set (uncovered kept ms) \<subseteq> set kept \<union> set ms"
  by (induction kept ms rule: uncovered.induct) auto

lemma uncovered_covers:
  "m \<in> set kept \<union> set ms \<Longrightarrow> \<exists>k \<in> set (uncovered kept ms). covers k m"
proof (induction kept ms rule: uncovered.induct)
  case (1 kept)
  then show ?case by (auto simp: covers_def)
next
  case (2 kept x ms)
  have refl: "covers y y" for y by (simp add: covers_def)
  show ?case
  proof (cases "\<exists>k \<in> set kept. covers k x")
    case True
    then obtain k where "k \<in> set kept" "covers k x" by blast
    moreover have "k \<in> set (uncovered kept ms)" using uncovered_set(1) calculation(1) by blast
    ultimately show ?thesis using 2 True by auto
  next
    case False
    then show ?thesis using 2 by auto
  qed
qed

lemma covers_antisym:
  assumes "distinct (sources a)" and "covers a k" and "\<not> moreSources a k" and "metaULID a \<noteq> metaULID k"
    and "distinct (sources k)"
  shows "covers k a" and "moreSources k a"
proof -
  have card: "card (set (sources a)) = length (sources a)" "card (set (sources k)) = length (sources k)"
    using assms(1,5) distinct_card by auto
  have sub: "set (sources k) \<subseteq> set (sources a)" using assms(2) by (simp add: covers_def)
  then have "length (sources k) \<le> length (sources a)" using card card_mono [OF _ sub] by simp
  moreover have "length (sources a) \<le> length (sources k)"
    using assms(3) by (auto simp: moreSources_def split: if_splits)
  ultimately have len: "length (sources a) = length (sources k)" by simp
  then have "set (sources k) = set (sources a)" using card sub by (intro card_subset_eq) auto
  then show "covers k a" by (simp add: covers_def)
  show "moreSources k a" using len assms(3,4) by (auto simp: moreSources_def)
qed

lemma irredundant_insert:
  "irredundant S \<Longrightarrow> (\<And>k. k \<in> S \<Longrightarrow> \<not> covers k m \<and> \<not> covers m k) \<Longrightarrow> irredundant (insert m S)"
  unfolding irredundant_def by blast

lemma uncovered_irredundant:
  assumes "sorted_wrt (\<lambda>x y. \<not> moreSources y x) (kept @ ms)" and "distinct (map metaULID (kept @ ms))"
    and "\<forall>a \<in> set (kept @ ms). distinct (sources a)" and "irredundant (set kept)"
  shows "irredundant (set (uncovered kept ms))"
  using assms
proof (induction kept ms rule: uncovered.induct)
  case (1 kept)
  then show ?case by simp
next
  case (2 kept m ms)
  show ?case
  proof (cases "\<exists>k \<in> set kept. covers k m")
    case True
    then show ?thesis using "2.IH"(1) [OF True] "2.prems" by (simp add: sorted_wrt_append)
  next
    case False
    have "\<not> covers m k" if "k \<in> set kept" for k
    proof
      assume cov: "covers m k"
      have "\<not> moreSources m k" using "2.prems"(1) that by (simp add: sorted_wrt_append)
      moreover have "metaULID m \<noteq> metaULID k" using "2.prems"(2) that by force
      ultimately have "covers k m" using covers_antisym(1) [OF _ cov] "2.prems"(3) that by simp
      then show False using False that by blast
    qed
    then have "irredundant (set (kept @ [m]))"
      using irredundant_insert [OF "2.prems"(4), of m] False by simp
    then show ?thesis using "2.IH"(2) [OF False] "2.prems"(1-3) False by simp
  qed
qed

lemma uncovered_winner:
  assumes "sorted_wrt (\<lambda>x y. \<not> moreSources y x) (kept @ ms)" and "distinct (map metaULID (kept @ ms))"
    and "m \<in> set ms" and "m \<notin> set (uncovered kept ms)"
  shows "\<exists>k \<in> set (uncovered kept ms). covers k m \<and> moreSources k m"
  using assms
proof (induction kept ms rule: uncovered.induct)
  case (1 kept)
  then show ?case by simp
next
  case (2 kept x ms)
  show ?case
  proof (cases "\<exists>k \<in> set kept. covers k x")
    case True
    then obtain k where k: "k \<in> set kept" "covers k x" by blast
    have kk: "k \<in> set (uncovered kept ms)" using uncovered_set(1) k(1) by blast
    show ?thesis
    proof (cases "m = x")
      case mx: True
      have "\<not> moreSources x k" using "2.prems"(1) k(1) by (simp add: sorted_wrt_append)
      moreover have "metaULID x \<noteq> metaULID k" using "2.prems"(2) k(1) by force
      ultimately have "moreSources k x" by (auto simp: moreSources_def split: if_splits)
      then show ?thesis using True k kk mx by auto
    next
      case False
      then show ?thesis using "2.IH"(1) [OF True] "2.prems" True by (simp add: sorted_wrt_append)
    qed
  next
    case False
    have "x \<in> set (uncovered (kept @ [x]) ms)" using uncovered_set(1) by force
    then have "m \<noteq> x" using "2.prems"(4) False by auto
    then show ?thesis using "2.IH"(2) [OF False] "2.prems" False by simp
  qed
qed

section \<open>The filter\<close>

lemma nonRoot_survivors:
  assumes "distinct (map metaULID sl)"
  shows "set (getNonRootIDs (deduplicationTree sl)) =
    metaULID ` set sl - metaULID ` set (survivors sl)"
proof -
  let ?t = "treeFrom (NewNode emptyMeta) (sort_slice moreSources sl)"
  have t: "deduplicationTree sl = ?t" by (simp add: deduplicationTree_def treeFrom_def)
  have ms: "mset (ids (Children ?t)) = mset (map metaULID sl)"
    using ids_treeFrom [of "NewNode emptyMeta" "sort_slice moreSources sl"]
    by (simp add: NewNode_def ids_def)
  then have "distinct (ids (Children ?t))" "set (ids (Children ?t)) = metaULID ` set sl"
    using assms mset_eq_imp_distinct_iff mset_eq_setD by (blast, metis set_map)
  moreover have "nodeMeta ` set (Children ?t) = set (survivors sl)"
    using arg_cong [OF roots_treeFrom [of "NewNode emptyMeta" "sort_slice moreSources sl"], of set]
    by (simp add: NewNode_def survivors_def)
  ultimately show ?thesis
    using nonRoot_fold [of "[]" "Children ?t"] by (simp add: t getNonRootIDs_def image_image)
qed

lemma dropDuplicate_Pair:
  "dropDuplicate (ms, ds) i = (delete_meta i ms, if map_of ms i \<noteq> None then ds @ [i] else ds)"
  by (simp add: dropDuplicate_def)

lemma dropDuplicate_fold:
  "foldl dropDuplicate (ms, ds) xs = (ms', ds') \<Longrightarrow>
     ms' = filter (\<lambda>(j, _). j \<notin> set xs) ms \<and> set ds' = set ds \<union> (set xs \<inter> fst ` set ms)"
proof (induction xs arbitrary: ms ds)
  case Nil
  then show ?case by simp
next
  case (Cons i xs)
  let ?ds = "if map_of ms i \<noteq> None then ds @ [i] else ds"
  have "foldl dropDuplicate (delete_meta i ms, ?ds) xs = (ms', ds')"
    using Cons.prems by (simp only: foldl_Cons dropDuplicate_Pair)
  note IH = Cons.IH [OF this]
  have "set ?ds = set ds \<union> ({i} \<inter> fst ` set ms)"
    by (auto simp: map_of_eq_None_iff)
  moreover have "fst ` set (delete_meta i ms) = fst ` set ms - {i}"
    by (auto simp: delete_meta_def)
  moreover have "filter (\<lambda>(j, _). j \<notin> set xs) (delete_meta i ms) = filter (\<lambda>(j, _). j \<notin> set (i # xs)) ms"
    by (auto simp: delete_meta_def intro!: filter_cong)
  ultimately show ?case using IH by auto
qed

lemma resolutions_fold:
  assumes "foldl (\<lambda>st res. filterForResolution (metasOfResolution metas res) st) (ms, ds) rs = (ms', ds')"
  shows "ms' = filter (\<lambda>(j, _). \<forall>res \<in> set rs.
            j \<notin> set (getNonRootIDs (deduplicationTree (metasOfResolution metas res)))) ms
    \<and> set ds' = set ds \<union> fst ` (set ms - set ms')"
  using assms
proof (induction rs arbitrary: ms ds)
  case Nil
  then show ?case by simp
next
  case (Cons r rs)
  let ?xs = "getNonRootIDs (deduplicationTree (metasOfResolution metas r))"
  obtain m1 d1 where f: "filterForResolution (metasOfResolution metas r) (ms, ds) = (m1, d1)" by fastforce
  note one = dropDuplicate_fold [OF f [unfolded filterForResolution_def]]
  have "foldl (\<lambda>st res. filterForResolution (metasOfResolution metas res) st) (m1, d1) rs = (ms', ds')"
    using Cons.prems f by simp
  note IH = Cons.IH [OF this]
  have eq: "ms' = filter (\<lambda>(j, _). \<forall>res \<in> set (r # rs).
            j \<notin> set (getNonRootIDs (deduplicationTree (metasOfResolution metas res)))) ms"
    using IH one by (auto intro!: filter_cong)
  have "set ds' = set ds \<union> (set ?xs \<inter> fst ` set ms) \<union> fst ` (set m1 - set ms')" using IH one by auto
  moreover have "(set ?xs \<inter> fst ` set ms) \<union> fst ` (set m1 - set ms') = fst ` (set ms - set ms')"
    using one eq by force
  ultimately show ?case using eq by (simp add: Un_assoc)
qed

lemma metasOfResolution_keyed:
  assumes "keyed metas"
  shows "distinct (map metaULID (metasOfResolution metas res))"
    and "(i, m) \<in> set metas \<Longrightarrow> resolution (thanos m) = res \<Longrightarrow> m \<in> set (metasOfResolution metas res)"
    and "m \<in> set (metasOfResolution metas res) \<Longrightarrow>
      (metaULID m, m) \<in> set metas \<and> resolution (thanos m) = res"
proof -
  have "map metaULID (metasOfResolution metas res) =
      map fst (filter (\<lambda>(_, m). resolution (thanos m) = res) metas)"
    using assms by (auto simp: keyed_def metasOfResolution_def)
  then show "distinct (map metaULID (metasOfResolution metas res))"
    using assms by (simp add: keyed_def distinct_map_filter)
  show "m \<in> set (metasOfResolution metas res)" if "(i, m) \<in> set metas" "resolution (thanos m) = res"
    using that by (force simp: metasOfResolution_def)
  show "(metaULID m, m) \<in> set metas \<and> resolution (thanos m) = res"
    if "m \<in> set (metasOfResolution metas res)"
    using that assms by (auto simp: metasOfResolution_def keyed_def)
qed

lemma survivors_subset: "set (survivors ms) \<subseteq> set ms"
  using uncovered_set(2) [of "[]" "sort_slice moreSources ms"] by (simp add: survivors_def)

lemma dedupFilter_survivors:
  assumes "keyed metas" and "dedupFilter metas = (kept, dups)"
  shows "kept = filter (\<lambda>(_, m). m \<in> set (survivors (metasOfResolution metas (resolution (thanos m))))) metas"
    and "set dups = fst ` (set metas - set kept)"
proof -
  let ?rs = "remdups (map (\<lambda>(_, m). resolution (thanos m)) metas)"
  note fold = resolutions_fold [OF assms(2) [unfolded dedupFilter_def]]
  have key: "(\<forall>res \<in> set ?rs. j \<notin> set (getNonRootIDs (deduplicationTree (metasOfResolution metas res)))) \<longleftrightarrow>
      m \<in> set (survivors (metasOfResolution metas (resolution (thanos m))))"
    if jm: "(j, m) \<in> set metas" for j m
  proof -
    let ?r = "resolution (thanos m)"
    have j: "j = metaULID m" using assms(1) jm by (auto simp: keyed_def)
    have uniq: "m' = m" if "(metaULID m, m') \<in> set metas" for m'
      using that jm assms(1) j unfolding keyed_def by (metis eq_key_imp_eq_value)
    have nr: "j \<in> set (getNonRootIDs (deduplicationTree (metasOfResolution metas res))) \<longleftrightarrow>
        res = ?r \<and> m \<notin> set (survivors (metasOfResolution metas res))" for res
    proof -
      have "j \<in> metaULID ` set (metasOfResolution metas res) \<longleftrightarrow> res = ?r"
        using metasOfResolution_keyed(2) [OF assms(1) jm] metasOfResolution_keyed(3) [OF assms(1), of _ res] uniq j
        by (metis (no_types, lifting) imageE image_eqI)
      moreover have "j \<in> metaULID ` set (survivors (metasOfResolution metas res)) \<longleftrightarrow>
          m \<in> set (survivors (metasOfResolution metas res))"
        using survivors_subset [of "metasOfResolution metas res"]
          metasOfResolution_keyed(3) [OF assms(1), of _ res] uniq j
        by (metis (no_types, lifting) imageE image_eqI subsetD)
      ultimately show ?thesis
        using nonRoot_survivors [OF metasOfResolution_keyed(1) [OF assms(1)], of res] by auto
    qed
    have "?r \<in> set ?rs" using jm by force
    then show ?thesis unfolding nr by auto
  qed
  have "kept = filter (\<lambda>(j, _). \<forall>res \<in> set ?rs.
      j \<notin> set (getNonRootIDs (deduplicationTree (metasOfResolution metas res)))) metas"
    using fold by blast
  also have "\<dots> = filter (\<lambda>(_, m). m \<in> set (survivors (metasOfResolution metas (resolution (thanos m))))) metas"
    by (rule filter_cong [OF refl], clarify, rule key)
  finally show "kept = \<dots>" .
  show "set dups = fst ` (set metas - set kept)" using fold by simp
qed

lemma dedupFilter_covering:
  assumes "keyed metas" and "dedupFilter metas = (kept, dups)"
  shows "subseq kept metas
    \<and> set dups = fst ` (set metas - set kept)
    \<and> (\<forall>(i, m) \<in> set metas. (i, m) \<notin> set kept \<longrightarrow>
         (\<exists>(j, k) \<in> set kept. resolution (thanos k) = resolution (thanos m)
            \<and> set (sources m) \<subseteq> set (sources k) \<and> moreSources k m))"
proof -
  note kept = dedupFilter_survivors [OF assms]
  have "\<exists>(j, k) \<in> set kept. resolution (thanos k) = resolution (thanos m)
      \<and> set (sources m) \<subseteq> set (sources k) \<and> moreSources k m"
    if im: "(i, m) \<in> set metas" "(i, m) \<notin> set kept" for i m
  proof -
    let ?sl = "metasOfResolution metas (resolution (thanos m))"
    have "m \<in> set ?sl" using metasOfResolution_keyed(2) [OF assms(1) im(1)] by simp
    moreover have "m \<notin> set (survivors ?sl)" using im kept(1) by auto
    moreover have "distinct (map metaULID (sort_slice moreSources ?sl))"
      using metasOfResolution_keyed(1) [OF assms(1)] by (metis distinct_map distinct_sort_slice set_sort_slice)
    ultimately obtain k where k: "k \<in> set (survivors ?sl)" "covers k m" "moreSources k m"
      using uncovered_winner [of "[]" "sort_slice moreSources ?sl" m] by_sources.sorted_sort_slice
      unfolding survivors_def by auto
    then have "(metaULID k, k) \<in> set metas" "resolution (thanos k) = resolution (thanos m)"
      using metasOfResolution_keyed(3) [OF assms(1)] survivors_subset by blast+
    then show ?thesis
      using k by (intro bexI [of _ "(metaULID k, k)"]) (simp_all add: kept(1) covers_def)
  qed
  then show ?thesis using kept by (auto simp: subseq_filter_left)
qed

text \<open>
  C13: deduplication loses no data: the surviving entries are entries of the input, unchanged and in
  place, and every block that is filtered out has a surviving block of the same resolution whose
  sources include all of its sources, and which has more sources or, with as many, the smaller ULID.
  The reported duplicates are exactly the removed blocks.
\<close>

theorem dedupFilter_covers:
  assumes "keyed metas" and "dedupFilter metas = (kept, dups)"
  shows "subseq kept metas
    \<and> set dups = fst ` (set metas - set kept)
    \<and> (\<forall>(i, m) \<in> set metas. (i, m) \<notin> set kept \<longrightarrow>
         (\<exists>(j, k) \<in> set kept. resolution (thanos k) = resolution (thanos m)
            \<and> set (sources m) \<subseteq> set (sources k) \<and> moreSources k m))"
  using dedupFilter_covering [OF assms] .

theorem dedupFilter_covers_witness:
  "\<exists>kept dups. dedupFilter sampleMetas = (kept, dups) \<and> subseq kept sampleMetas
     \<and> set dups = fst ` (set sampleMetas - set kept) \<and> dups = [6, 1, 2]"
proof -
  have k: "keyed sampleMetas" by code_simp
  have d: "dedupFilter sampleMetas =
      ([(5, (rawBlock 5 0 20)\<lparr>sources := [1, 2]\<rparr>), (7, rawBlock 7 20 30)], [6, 1, 2])" by code_simp
  from dedupFilter_covers [OF k d] d show ?thesis by blast
qed

text \<open>
  C14: deduplication keeps nothing redundant: when no block lists a source twice, no surviving block has
  sources that include those of another surviving block of its resolution.
\<close>

theorem dedupFilter_irredundant:
  assumes "keyed metas" and "dedupFilter metas = (kept, dups)"
    and "\<forall>(i, m) \<in> set metas. distinct (sources m)"
    and "(i, a) \<in> set kept" and "(j, b) \<in> set kept" and "i \<noteq> j"
    and "resolution (thanos a) = resolution (thanos b)"
  shows "\<not> set (sources b) \<subseteq> set (sources a)"
proof -
  let ?sl = "metasOfResolution metas (resolution (thanos a))"
  note kept = dedupFilter_survivors [OF assms(1,2)]
  have ab: "a \<in> set (survivors ?sl)" "b \<in> set (survivors ?sl)" using assms(4,5,7) kept(1) by auto
  have "distinct (map metaULID (sort_slice moreSources ?sl))"
    using metasOfResolution_keyed(1) [OF assms(1)] by (metis distinct_map distinct_sort_slice set_sort_slice)
  moreover have "\<forall>x \<in> set ?sl. distinct (sources x)"
    using assms(3) metasOfResolution_keyed(3) [OF assms(1)] by blast
  ultimately have "irredundant (set (survivors ?sl))"
    unfolding survivors_def
    by (intro uncovered_irredundant) (auto simp: irredundant_def by_sources.sorted_sort_slice)
  moreover have "metaULID a = i" "metaULID b = j" using assms(1,4,5) kept(1) by (auto simp: keyed_def)
  with assms(6) have "a \<noteq> b" by blast
  ultimately show ?thesis using ab by (auto simp: irredundant_def covers_def)
qed

theorem dedupFilter_irredundant_witness:
  "\<exists>a b. fst (dedupFilter sampleMetas) = [(5, a), (7, b)] \<and> \<not> set (sources b) \<subseteq> set (sources a)"
proof -
  have d: "dedupFilter sampleMetas =
      ([(5, (rawBlock 5 0 20)\<lparr>sources := [1, 2]\<rparr>), (7, rawBlock 7 20 30)], [6, 1, 2])" by code_simp
  have k: "keyed sampleMetas" "\<forall>(i, m) \<in> set sampleMetas. distinct (sources m)" by code_simp+
  have "\<not> set (sources (rawBlock 7 20 30)) \<subseteq> set (sources ((rawBlock 5 0 20)\<lparr>sources := [1, 2]\<rparr>))"
    by (rule dedupFilter_irredundant [OF k(1) d k(2), of 5 _ 7]) (auto simp: rawBlock_def)
  then show ?thesis unfolding d by auto
qed

end
