(* ===== verification/Objstore.thy ===== *)
theory Objstore
  imports Block_Meta
begin

text \<open>
  Object storage as the components see it (\<^verbatim>\<open>pkg/objstore\<close>): the operations of the \<^verbatim>\<open>Bucket\<close>
  interface on the in-memory bucket of \<^verbatim>\<open>inmem.go\<close>, each of which the environment may make
  fail. An object name is its list of path segments, so \<^verbatim>\<open>path.Join(id.String(), "meta.json")\<close>
  is \<open>[Id i, Seg ''meta.json'']\<close>; a JSON document is kept decoded.

  The faults of a run are a function of the operation counter: an operation succeeds, fails
  without effect, or (as S3 is known to do on overload) is applied although an error is
  reported. The bucket remembers the contents after every operation in \<open>trace\<close>, so that a
  property of all intermediate states, those a crash or a concurrent reader observes, can be
  stated.
\<close>

datatype seg = Id ulid | IdJson ulid | Seg string

type_synonym obj_name = "seg list"

datatype object =
    Raw string
  | MetaJSON meta
  | DeletionMarkJSON deletion_mark
  | NoCompactMarkJSON no_compact_mark

type_synonym contents = "(obj_name \<times> object) list"

datatype bkt_error = NotFound | OpFailed | OutOfFuel

datatype fault = NoFault | Fails | FailsApplied

type_synonym faults = "nat \<Rightarrow> fault"

record bucket =
  objects :: contents
  opcount :: nat
  trace :: "contents list"

datatype entry = EFile obj_name | EDir obj_name

definition tick :: "contents \<Rightarrow> bucket \<Rightarrow> bucket" where
  "tick objs b = \<lparr>objects = objs, opcount = Suc (opcount b), trace = objs # trace b\<rparr>"

definition put_object :: "obj_name \<Rightarrow> object \<Rightarrow> contents \<Rightarrow> contents" where
  "put_object n x objs = (n, x) # filter (\<lambda>p. fst p \<noteq> n) objs"

definition del_object :: "obj_name \<Rightarrow> contents \<Rightarrow> contents" where
  "del_object n objs = filter (\<lambda>p. fst p \<noteq> n) objs"

definition has_object :: "contents \<Rightarrow> obj_name \<Rightarrow> bool" where
  "has_object objs n \<longleftrightarrow> map_of objs n \<noteq> None"

section \<open>Operations\<close>

definition bkt_exists :: "faults \<Rightarrow> obj_name \<Rightarrow> bucket \<Rightarrow> (bkt_error + bool) \<times> bucket" where
  "bkt_exists flt n b =
     (if flt (opcount b) = NoFault
      then (Inr (has_object (objects b) n), tick (objects b) b)
      else (Inl OpFailed, tick (objects b) b))"

definition bkt_get :: "faults \<Rightarrow> obj_name \<Rightarrow> bucket \<Rightarrow> (bkt_error + object) \<times> bucket" where
  "bkt_get flt n b =
     (if flt (opcount b) = NoFault
      then ((case map_of (objects b) n of None \<Rightarrow> Inl NotFound | Some x \<Rightarrow> Inr x),
            tick (objects b) b)
      else (Inl OpFailed, tick (objects b) b))"

definition bkt_attributes ::
  "faults \<Rightarrow> (object \<Rightarrow> int) \<Rightarrow> obj_name \<Rightarrow> bucket \<Rightarrow> (bkt_error + int) \<times> bucket" where
  "bkt_attributes flt sz n b =
     (if flt (opcount b) = NoFault
      then ((case map_of (objects b) n of None \<Rightarrow> Inl NotFound | Some x \<Rightarrow> Inr (sz x)),
            tick (objects b) b)
      else (Inl OpFailed, tick (objects b) b))"

definition bkt_upload ::
  "faults \<Rightarrow> obj_name \<Rightarrow> object \<Rightarrow> bucket \<Rightarrow> (bkt_error + unit) \<times> bucket" where
  "bkt_upload flt n x b =
     (case flt (opcount b) of
        NoFault \<Rightarrow> (Inr (), tick (put_object n x (objects b)) b)
      | Fails \<Rightarrow> (Inl OpFailed, tick (objects b) b)
      | FailsApplied \<Rightarrow> (Inl OpFailed, tick (put_object n x (objects b)) b))"

definition bkt_delete :: "faults \<Rightarrow> obj_name \<Rightarrow> bucket \<Rightarrow> (bkt_error + unit) \<times> bucket" where
  "bkt_delete flt n b =
     (case flt (opcount b) of
        NoFault \<Rightarrow>
          (if has_object (objects b) n then (Inr (), tick (del_object n (objects b)) b)
           else (Inl NotFound, tick (objects b) b))
      | Fails \<Rightarrow> (Inl OpFailed, tick (objects b) b)
      | FailsApplied \<Rightarrow> (Inl OpFailed, tick (del_object n (objects b)) b))"

fun seg_less :: "seg \<Rightarrow> seg \<Rightarrow> bool" where
  "seg_less (Id a) (Id b) = (a < b)"
| "seg_less (Id a) (IdJson b) = (a \<le> b)"
| "seg_less (IdJson a) (Id b) = (a < b)"
| "seg_less (IdJson a) (IdJson b) = (a < b)"
| "seg_less (Id a) (Seg t) = True"
| "seg_less (IdJson a) (Seg t) = True"
| "seg_less (Seg s) (Id b) = False"
| "seg_less (Seg s) (IdJson b) = False"
| "seg_less (Seg s) (Seg t) = (s < t)"

fun name_less :: "obj_name \<Rightarrow> obj_name \<Rightarrow> bool" where
  "name_less [] ys = (ys \<noteq> [])"
| "name_less (x # xs) [] = False"
| "name_less (x # xs) (y # ys) = (seg_less x y \<or> x = y \<and> name_less xs ys)"

fun entry_less :: "entry \<Rightarrow> entry \<Rightarrow> bool" where
  "entry_less (EDir a) (EDir b) = name_less a b"
| "entry_less (EDir a) (EFile b) = False"
| "entry_less (EFile a) (EDir b) = True"
| "entry_less (EFile a) (EFile b) = name_less a b"

definition entry_of :: "obj_name \<Rightarrow> obj_name \<Rightarrow> entry" where
  "entry_of dir n =
     (if length n = length dir + 1 then EFile n else EDir (take (length dir + 1) n))"

definition list_dir :: "obj_name \<Rightarrow> contents \<Rightarrow> entry list" where
  "list_dir dir objs =
     sort_slice entry_less
       (remdups (map (entry_of dir)
          (filter (\<lambda>n. prefix dir n \<and> n \<noteq> dir) (map fst objs))))"

definition bkt_iter :: "faults \<Rightarrow> obj_name \<Rightarrow> bucket \<Rightarrow> (bkt_error + entry list) \<times> bucket" where
  "bkt_iter flt dir b =
     (if flt (opcount b) = NoFault
      then (Inr (list_dir dir (objects b)), tick (objects b) b)
      else (Inl OpFailed, tick (objects b) b))"

text \<open>Sequencing: an error ends the enclosing function, as \<^verbatim>\<open>if err != nil { return err }\<close> does.\<close>

definition andThen ::
  "('e + 'a) \<times> 's \<Rightarrow> ('a \<Rightarrow> 's \<Rightarrow> ('e + 'b) \<times> 's) \<Rightarrow> ('e + 'b) \<times> 's" where
  "andThen r k = (case r of (Inl e, b) \<Rightarrow> (Inl e, b) | (Inr x, b) \<Rightarrow> k x b)"

section \<open>Laws\<close>

lemma has_object_put [simp]: "has_object (put_object n x objs) m \<longleftrightarrow> m = n \<or> has_object objs m"
proof -
  have "map_of (filter (\<lambda>p. fst p \<noteq> n) objs) m = (if m = n then None else map_of objs m)"
    by (induction objs) auto
  then show ?thesis by (auto simp: has_object_def put_object_def)
qed

lemma map_of_del_object: "map_of (del_object n objs) m = (if m = n then None else map_of objs m)"
  by (induction objs) (auto simp: del_object_def)

lemma map_of_put_object: "map_of (put_object n x objs) m = (if m = n then Some x else map_of objs m)"
  using map_of_del_object [of n objs m] by (auto simp: put_object_def del_object_def)

lemma has_object_del [simp]: "has_object (del_object n objs) m \<longleftrightarrow> m \<noteq> n \<and> has_object objs m"
  by (simp add: has_object_def map_of_del_object)

lemma has_object_iff: "has_object objs n \<longleftrightarrow> n \<in> fst ` set objs"
  by (simp add: has_object_def map_of_eq_None_iff)

lemma tick_simps [simp]:
  "objects (tick objs b) = objs" "opcount (tick objs b) = Suc (opcount b)"
  "trace (tick objs b) = objs # trace b"
  by (simp_all add: tick_def)

lemma seg_less_asym: "seg_less a b \<Longrightarrow> \<not> seg_less b a"
  by (cases a; cases b) auto

lemma seg_less_linear: "seg_less a b \<or> a = b \<or> seg_less b a"
  by (cases a; cases b) auto

lemma seg_less_trans: "seg_less a b \<Longrightarrow> seg_less b c \<Longrightarrow> seg_less a c"
  by (cases a; cases b; cases c) auto

lemma name_less_Nil [simp]: "\<not> name_less a []"
  by (cases a) auto

lemma name_less_asym: "name_less a b \<Longrightarrow> \<not> name_less b a"
  by (induction a b rule: name_less.induct) (auto dest: seg_less_asym)

lemma name_less_linear: "name_less a b \<or> a = b \<or> name_less b a"
proof (induction a b rule: name_less.induct)
  case (1 ys)
  then show ?case by (cases ys) auto
next
  case (2 x xs)
  then show ?case by simp
next
  case (3 x xs y ys)
  then show ?case using seg_less_linear [of x y] by auto
qed

lemma name_less_trans: "name_less a b \<Longrightarrow> name_less b c \<Longrightarrow> name_less a c"
proof (induction a b arbitrary: c rule: name_less.induct)
  case (1 ys)
  then show ?case by (cases c; cases ys) auto
next
  case (2 x xs)
  then show ?case by simp
next
  case (3 x xs y ys)
  then show ?case by (cases c) (auto dest: seg_less_trans)
qed

lemma name_less_irrefl [simp]: "\<not> name_less a a"
  using name_less_asym by blast

lemma name_less_total: "\<not> name_less a b \<Longrightarrow> \<not> name_less b c \<Longrightarrow> \<not> name_less a c"
  using name_less_linear [of a b] name_less_linear [of b c] name_less_trans name_less_asym by blast

interpretation by_entry: slice_order entry_less
proof
  fix x y z
  show "entry_less x y \<Longrightarrow> \<not> entry_less y x"
    by (cases x; cases y) (auto dest: name_less_asym)
  show "entry_less x y \<Longrightarrow> entry_less y z \<Longrightarrow> entry_less x z"
    by (cases x; cases y; cases z) (auto intro: name_less_trans)
  show "\<not> entry_less x y \<Longrightarrow> \<not> entry_less y z \<Longrightarrow> \<not> entry_less x z"
    by (cases x; cases y; cases z) (auto dest: name_less_total)
qed

text \<open>Listing a directory yields exactly its files and its immediate subdirectories.\<close>

lemma set_list_dir:
  "set (list_dir dir objs) = entry_of dir ` {n. has_object objs n \<and> prefix dir n \<and> n \<noteq> dir}"
  by (auto simp: list_dir_def has_object_iff)

lemma EFile_list_dir:
  "EFile n \<in> set (list_dir dir objs) \<longleftrightarrow>
     has_object objs n \<and> (\<exists>s. n = dir @ [s])"
proof
  assume "EFile n \<in> set (list_dir dir objs)"
  then have "has_object objs n" "prefix dir n" "length n = length dir + 1"
    by (auto simp: set_list_dir entry_of_def split: if_splits)
  then obtain r where "n = dir @ r" "length r = 1" by (auto simp: prefix_def)
  then show "has_object objs n \<and> (\<exists>s. n = dir @ [s])"
    using \<open>has_object objs n\<close> by (cases r) auto
next
  assume "has_object objs n \<and> (\<exists>s. n = dir @ [s])"
  then show "EFile n \<in> set (list_dir dir objs)"
    by (force simp: set_list_dir entry_of_def)
qed

lemma EDir_list_dir:
  "EDir d \<in> set (list_dir dir objs) \<longleftrightarrow>
     (\<exists>s n. d = dir @ [s] \<and> has_object objs n \<and> strict_prefix d n)"
proof
  assume "EDir d \<in> set (list_dir dir objs)"
  then obtain n where n: "has_object objs n" "prefix dir n" "n \<noteq> dir"
    "length n \<noteq> length dir + 1" "d = take (length dir + 1) n"
    by (auto simp: set_list_dir entry_of_def split: if_splits)
  then obtain r where r: "n = dir @ r" by (auto simp: prefix_def)
  then obtain s t where "r = s # t" "t \<noteq> []" using n(3,4) by (cases r) auto
  then have "d = dir @ [s]" "strict_prefix d n" using n r by (auto simp: strict_prefix_def)
  then show "\<exists>s n. d = dir @ [s] \<and> has_object objs n \<and> strict_prefix d n"
    using n(1) by blast
next
  assume "\<exists>s n. d = dir @ [s] \<and> has_object objs n \<and> strict_prefix d n"
  then obtain s n where d: "d = dir @ [s]" "has_object objs n" "strict_prefix d n" by blast
  then obtain t where "n = dir @ [s] @ t" "t \<noteq> []"
    by (metis append.assoc append_Nil2 prefixE strict_prefix_def)
  with d have "EDir d = entry_of dir n" "n \<in> {n. has_object objs n \<and> prefix dir n \<and> n \<noteq> dir}"
    by (auto simp: entry_of_def)
  then show "EDir d \<in> set (list_dir dir objs)"
    unfolding set_list_dir by (rule image_eqI)
qed

section \<open>Reasoning about runs\<close>

text \<open>
  \<open>runs I P f Q\<close>: started where \<open>I\<close> and \<open>P\<close> hold of the contents, \<open>f\<close> keeps \<open>I\<close> in every
  intermediate contents of the bucket, whatever fails, and ends with \<open>Q\<close> of its result.
\<close>

definition runs ::
  "(contents \<Rightarrow> bool) \<Rightarrow> (contents \<Rightarrow> bool) \<Rightarrow> (bucket \<Rightarrow> 'r \<times> bucket)
     \<Rightarrow> ('r \<Rightarrow> contents \<Rightarrow> bool) \<Rightarrow> bool" where
  "runs I P f Q \<longleftrightarrow>
     (\<forall>b. I (objects b) \<and> P (objects b) \<longrightarrow>
        I (objects (snd (f b))) \<and> Q (fst (f b)) (objects (snd (f b)))
        \<and> (\<exists>new. trace (snd (f b)) = new @ trace b \<and> (\<forall>c \<in> set new. I c)))"

lemma runsD:
  assumes "runs I P f Q" and "I (objects b)" and "P (objects b)"
  shows "I (objects (snd (f b)))" and "Q (fst (f b)) (objects (snd (f b)))"
    and "\<exists>new. trace (snd (f b)) = new @ trace b \<and> (\<forall>c \<in> set new. I c)"
  using assms by (auto simp: runs_def)

lemma runs_conseq:
  assumes "runs I P' f Q'" and "\<And>c. I c \<Longrightarrow> P c \<Longrightarrow> P' c" and "\<And>r c. I c \<Longrightarrow> Q' r c \<Longrightarrow> Q r c"
  shows "runs I P f Q"
  unfolding runs_def
proof (intro allI impI)
  fix b :: bucket
  assume *: "I (objects b) \<and> P (objects b)"
  then have "P' (objects b)" using assms(2) by blast
  with * show "I (objects (snd (f b))) \<and> Q (fst (f b)) (objects (snd (f b)))
      \<and> (\<exists>new. trace (snd (f b)) = new @ trace b \<and> (\<forall>c \<in> set new. I c))"
    using runsD [OF assms(1)] assms(3) by blast
qed

lemma runs_return: "(\<And>c. I c \<Longrightarrow> P c \<Longrightarrow> Q x c) \<Longrightarrow> runs I P (\<lambda>b. (x, b)) Q"
  by (auto simp: runs_def)

lemma runs_if:
  "(c \<Longrightarrow> runs I P f Q) \<Longrightarrow> (\<not> c \<Longrightarrow> runs I P g Q) \<Longrightarrow> runs I P (\<lambda>b. if c then f b else g b) Q"
  by (cases c) simp_all

lemma runs_exists:
  "runs I P (bkt_exists flt n) (\<lambda>r c. P c \<and> (\<forall>x. r = Inr x \<longrightarrow> x = has_object c n))"
  by (auto simp: runs_def bkt_exists_def)

lemma runs_get:
  "runs I P (bkt_get flt n) (\<lambda>r c. P c \<and> (\<forall>x. r = Inr x \<longrightarrow> map_of c n = Some x))"
  by (auto simp: runs_def bkt_get_def split: option.splits)

lemma runs_iter:
  "runs I P (bkt_iter flt dir) (\<lambda>r c. P c \<and> (\<forall>x. r = Inr x \<longrightarrow> x = list_dir dir c))"
  by (auto simp: runs_def bkt_iter_def)

lemma runs_upload:
  assumes "\<And>c. I c \<Longrightarrow> P c \<Longrightarrow> I (put_object n x c)"
  shows "runs I P (bkt_upload flt n x)
    (\<lambda>r c. (\<exists>c0. P c0 \<and> (c = put_object n x c0 \<or> r = Inl OpFailed \<and> c = c0)))"
  using assms by (auto simp: runs_def bkt_upload_def split: fault.splits)

lemma runs_delete:
  assumes "\<And>c. I c \<Longrightarrow> P c \<Longrightarrow> I (del_object n c)"
  shows "runs I P (bkt_delete flt n)
    (\<lambda>r c. (\<exists>c0. P c0 \<and> (c = del_object n c0 \<or> (\<exists>e. r = Inl e) \<and> c = c0)))"
  using assms by (auto simp: runs_def bkt_delete_def split: fault.splits)

lemma runs_dep: "(\<And>k. runs I P (f k) Q) \<Longrightarrow> runs I P (\<lambda>b. f (g b) b) Q"
  by (simp add: runs_def)

lemma runs_strengthen:
  "runs (\<lambda>c. I c \<and> A c) P f Q \<Longrightarrow> runs I (\<lambda>c. P c \<and> A c) f (\<lambda>r c. Q r c \<and> A c)"
  unfolding runs_def by blast

lemma runs_result:
  "runs I P f Q \<Longrightarrow> (\<And>b. R (fst (f b)) (objects (snd (f b)))) \<Longrightarrow> runs I P f (\<lambda>r c. Q r c \<and> R r c)"
  by (simp add: runs_def)

lemma runs_case:
  assumes f: "runs I P f R"
    and g: "\<And>e. runs I (R (Inl e)) (g e) Q"
    and h: "\<And>x. runs I (R (Inr x)) (h x) Q"
  shows "runs I P (\<lambda>b. case f b of (Inl e, b) \<Rightarrow> g e b | (Inr x, b) \<Rightarrow> h x b) Q"
  unfolding runs_def
proof (intro allI impI)
  fix b :: bucket
  assume "I (objects b) \<and> P (objects b)"
  then have *: "I (objects (snd (f b)))" "R (fst (f b)) (objects (snd (f b)))"
    and tr: "\<exists>new. trace (snd (f b)) = new @ trace b \<and> (\<forall>c \<in> set new. I c)"
    using runsD [OF f] by blast+
  obtain r b' where rb: "f b = (r, b')" by fastforce
  obtain k where k: "runs I (R r) k Q"
    and eq: "(case f b of (Inl e, b) \<Rightarrow> g e b | (Inr x, b) \<Rightarrow> h x b) = k b'"
    using g h rb by (cases r) auto
  have "I (objects b')" "R r (objects b')" using * rb by auto
  note kb = runsD [OF k this]
  obtain new1 where "trace b' = new1 @ trace b" "\<forall>c \<in> set new1. I c" using tr rb by auto
  moreover obtain new2 where "trace (snd (k b')) = new2 @ trace b'" "\<forall>c \<in> set new2. I c"
    using kb(3) by blast
  ultimately have "\<exists>new. trace (snd (k b')) = new @ trace b \<and> (\<forall>c \<in> set new. I c)"
    by (intro exI [of _ "new2 @ new1"]) auto
  then show "I (objects (snd (case f b of (Inl e, b) \<Rightarrow> g e b | (Inr x, b) \<Rightarrow> h x b)))
      \<and> Q (fst (case f b of (Inl e, b) \<Rightarrow> g e b | (Inr x, b) \<Rightarrow> h x b))
          (objects (snd (case f b of (Inl e, b) \<Rightarrow> g e b | (Inr x, b) \<Rightarrow> h x b)))
      \<and> (\<exists>new. trace (snd (case f b of (Inl e, b) \<Rightarrow> g e b | (Inr x, b) \<Rightarrow> h x b)) = new @ trace b
          \<and> (\<forall>c \<in> set new. I c))"
    using kb unfolding eq by blast
qed

lemma runs_andThen:
  assumes "runs I P f R" and "\<And>x. runs I (R (Inr x)) (k x) Q"
    and "\<And>e c. I c \<Longrightarrow> R (Inl e) c \<Longrightarrow> Q (Inl e) c"
  shows "runs I P (\<lambda>b. andThen (f b) k) Q"
  unfolding andThen_def
  by (rule runs_case [OF assms(1)]) (auto intro: runs_return assms)

end
