(* ===== verification/Block_Ops.thy ===== *)
theory Block_Ops
  imports Objstore
begin

text \<open>
  The operations on whole blocks in a bucket (\<^verbatim>\<open>pkg/block/block.go\<close>, \<^verbatim>\<open>pkg/block/metadata/markers.go\<close>):
  upload, deletion and the two markers. The order of their object writes is what lets every
  other component treat a directory with a \<^verbatim>\<open>meta.json\<close> as a complete block.
\<close>

definition metaName :: "ulid \<Rightarrow> obj_name" where
  "metaName i = [Id i, Seg MetaFilename]"

definition indexName :: "ulid \<Rightarrow> obj_name" where
  "indexName i = [Id i, Seg IndexFilename]"

definition chunkName :: "ulid \<Rightarrow> string \<Rightarrow> obj_name" where
  "chunkName i f = [Id i, Seg ChunksDirname, Seg f]"

definition deletionMarkName :: "ulid \<Rightarrow> obj_name" where
  "deletionMarkName i = [Id i, Seg DeletionMarkFilename]"

definition noCompactMarkName :: "ulid \<Rightarrow> obj_name" where
  "noCompactMarkName i = [Id i, Seg NoCompactMarkFilename]"

definition debugMetaName :: "ulid \<Rightarrow> obj_name" where
  "debugMetaName i = [Seg ''debug'', Seg ''metas'', IdJson i]"

lemmas block_names = metaName_def indexName_def chunkName_def deletionMarkName_def
  noCompactMarkName_def debugMetaName_def

lemmas file_names = MetaFilename_def IndexFilename_def ChunksDirname_def
  DeletionMarkFilename_def NoCompactMarkFilename_def

section \<open>Deletion\<close>

text \<open>
  \<^verbatim>\<open>deleteDirRec\<close> recurses into subdirectories while it iterates over a listing. The fuel bounds
  the depth of the recursion; a bucket whose longest name has \<open>d\<close> segments never needs more
  than \<open>d\<close> of it.
\<close>

function (sequential) deleteDirRec ::
    "nat \<Rightarrow> faults \<Rightarrow> (obj_name \<Rightarrow> bool) \<Rightarrow> obj_name \<Rightarrow> bucket \<Rightarrow> (bkt_error + unit) \<times> bucket"
  and deleteEntries ::
    "nat \<Rightarrow> faults \<Rightarrow> (obj_name \<Rightarrow> bool) \<Rightarrow> entry list \<Rightarrow> bucket \<Rightarrow> (bkt_error + unit) \<times> bucket"
where
  "deleteDirRec 0 flt keep dir b = (Inl OutOfFuel, b)"
| "deleteDirRec (Suc k) flt keep dir b =
     andThen (bkt_iter flt dir b) (\<lambda>es. deleteEntries k flt keep es)"
| "deleteEntries k flt keep [] b = (Inr (), b)"
| "deleteEntries k flt keep (EDir d # es) b =
     andThen (deleteDirRec k flt keep d b) (\<lambda>_. deleteEntries k flt keep es)"
| "deleteEntries k flt keep (EFile n # es) b =
     (if keep n then deleteEntries k flt keep es b
      else andThen (bkt_delete flt n b) (\<lambda>_. deleteEntries k flt keep es))"
  by pat_completeness auto
termination
  by (relation "measures
      [\<lambda>x. case x of Inl (k, _) \<Rightarrow> k | Inr (k, _) \<Rightarrow> k,
       \<lambda>x. case x of Inl _ \<Rightarrow> 0 | Inr (_, _, _, es, _) \<Rightarrow> Suc (length es)]") auto

definition max_depth :: "contents \<Rightarrow> nat" where
  "max_depth objs = foldr (\<lambda>p d. max (length (fst p)) d) objs 0"

definition deleteBlock :: "faults \<Rightarrow> ulid \<Rightarrow> bucket \<Rightarrow> (bkt_error + unit) \<times> bucket" where
  "deleteBlock flt i b =
     andThen (bkt_exists flt (metaName i) b) (\<lambda>ok b.
     andThen (if ok then bkt_delete flt (metaName i) b else (Inr (), b)) (\<lambda>_ b.
     andThen (deleteDirRec (Suc (max_depth (objects b))) flt
                (\<lambda>n. n = metaName i \<or> n = deletionMarkName i) [Id i] b) (\<lambda>_ b.
     andThen (bkt_exists flt (deletionMarkName i) b) (\<lambda>ok b.
       if ok then bkt_delete flt (deletionMarkName i) b else (Inr (), b)))))"

section \<open>Markers\<close>

datatype marker_error =
    MarkerNotFound | UnmarshalMarker | MarkerVersion int | MarkerBucket bkt_error

text \<open>
  Marking is idempotent: the result says whether a mark was written (and the counter
  incremented), which is not the case when the mark file exists already.
\<close>

definition MarkForDeletion ::
  "faults \<Rightarrow> int \<Rightarrow> ulid \<Rightarrow> bucket \<Rightarrow> (bkt_error + bool) \<times> bucket" where
  "MarkForDeletion flt now i b =
     andThen (bkt_exists flt (deletionMarkName i) b) (\<lambda>ok b.
       if ok then (Inr False, b)
       else andThen (bkt_upload flt (deletionMarkName i)
              (DeletionMarkJSON \<lparr>dmID = i, dmVersion = 1, deletionTime = now\<rparr>) b)
              (\<lambda>_ b. (Inr True, b)))"

definition MarkForNoCompact ::
  "faults \<Rightarrow> ulid \<Rightarrow> bucket \<Rightarrow> (bkt_error + bool) \<times> bucket" where
  "MarkForNoCompact flt i b =
     andThen (bkt_exists flt (noCompactMarkName i) b) (\<lambda>ok b.
       if ok then (Inr False, b)
       else andThen (bkt_upload flt (noCompactMarkName i)
              (NoCompactMarkJSON \<lparr>ncID = i, ncVersion = 1\<rparr>) b)
              (\<lambda>_ b. (Inr True, b)))"

definition readDeletionMark ::
  "faults \<Rightarrow> ulid \<Rightarrow> bucket \<Rightarrow> (marker_error + deletion_mark) \<times> bucket" where
  "readDeletionMark flt i b =
     (case bkt_get flt (deletionMarkName i) b of
        (Inl NotFound, b') \<Rightarrow> (Inl MarkerNotFound, b')
      | (Inl e, b') \<Rightarrow> (Inl (MarkerBucket e), b')
      | (Inr (DeletionMarkJSON m), b') \<Rightarrow>
          (if dmVersion m \<noteq> 1 then Inl (MarkerVersion (dmVersion m)) else Inr m, b')
      | (Inr _, b') \<Rightarrow> (Inl UnmarshalMarker, b'))"

definition readNoCompactMark ::
  "faults \<Rightarrow> ulid \<Rightarrow> bucket \<Rightarrow> (marker_error + no_compact_mark) \<times> bucket" where
  "readNoCompactMark flt i b =
     (case bkt_get flt (noCompactMarkName i) b of
        (Inl NotFound, b') \<Rightarrow> (Inl MarkerNotFound, b')
      | (Inl e, b') \<Rightarrow> (Inl (MarkerBucket e), b')
      | (Inr (NoCompactMarkJSON m), b') \<Rightarrow>
          (if ncVersion m \<noteq> 1 then Inl (MarkerVersion (ncVersion m)) else Inr m, b')
      | (Inr _, b') \<Rightarrow> (Inl UnmarshalMarker, b'))"

section \<open>Upload\<close>

text \<open>
  A block directory on local disk: whether it exists and is a directory, the ULID its name
  parses to, and what its \<^verbatim>\<open>meta.json\<close>, \<^verbatim>\<open>chunks/\<close> and \<^verbatim>\<open>index\<close> hold (\<open>None\<close> for missing or
  unreadable).
\<close>

record local_block =
  lbIsDir :: bool
  lbId :: "ulid option"
  lbMeta :: "meta option"
  lbChunks :: "(string \<times> string) list option"
  lbIndex :: "string option"

datatype upload_error =
    NotADirectory | NotABlockDir | ReadMetaFailed | EmptyExternalLabels | GatherStatsFailed
  | UploadFailed bkt_error | PartialBlockLeft bkt_error | MetaUploadFailed bkt_error

text \<open>
  The statistics for the default hash function, none: files carry no hash. The chunk directory is flat,
  as the TSDB writes it: a list of segment files in the order in which \<^verbatim>\<open>filepath.Walk\<close> visits them.
\<close>

definition gatherFileStats :: "local_block \<Rightarrow> block_file list option" where
  "gatherFileStats lb =
     (case (lbChunks lb, lbIndex lb) of
        (Some cs, Some ix) \<Rightarrow>
          Some (sort_slice (\<lambda>a b. relPath a < relPath b)
            (map (\<lambda>(n, d). \<lparr>relPath = ChunksDirname @ ''/'' @ n, sizeBytes = int (length d)\<rparr>) cs
             @ [\<lparr>relPath = IndexFilename, sizeBytes = int (length ix)\<rparr>,
                \<lparr>relPath = MetaFilename, sizeBytes = 0\<rparr>]))
      | _ \<Rightarrow> None)"

fun uploadDir :: "faults \<Rightarrow> ulid \<Rightarrow> (string \<times> string) list \<Rightarrow> bucket \<Rightarrow> (bkt_error + unit) \<times> bucket" where
  "uploadDir flt i [] b = (Inr (), b)"
| "uploadDir flt i ((n, d) # cs) b =
     andThen (bkt_upload flt (chunkName i n) (Raw d) b) (\<lambda>_. uploadDir flt i cs)"

definition cleanUp :: "faults \<Rightarrow> ulid \<Rightarrow> bkt_error \<Rightarrow> bucket \<Rightarrow> (upload_error + unit) \<times> bucket" where
  "cleanUp flt i e b =
     (case deleteBlock flt i b of
        (Inl _, b') \<Rightarrow> (Inl (PartialBlockLeft e), b')
      | (Inr _, b') \<Rightarrow> (Inl (UploadFailed e), b'))"

definition orElse ::
  "('e + 'a) \<times> 's \<Rightarrow> ('e \<Rightarrow> 's \<Rightarrow> ('f + 'a) \<times> 's) \<Rightarrow> ('f + 'a) \<times> 's" where
  "orElse r h = (case r of (Inl e, b) \<Rightarrow> h e b | (Inr x, b) \<Rightarrow> (Inr x, b))"

definition uploadObjects ::
  "faults \<Rightarrow> ulid \<Rightarrow> meta \<Rightarrow> (string \<times> string) list \<Rightarrow> string \<Rightarrow> bucket
     \<Rightarrow> (upload_error + unit) \<times> bucket" where
  "uploadObjects flt i m cs ix b =
     andThen (orElse (bkt_upload flt (debugMetaName i) (MetaJSON m) b) (cleanUp flt i)) (\<lambda>_ b.
     andThen (orElse (uploadDir flt i cs b) (cleanUp flt i)) (\<lambda>_ b.
     andThen (orElse (bkt_upload flt (indexName i) (Raw ix) b) (cleanUp flt i)) (\<lambda>_ b.
       orElse (bkt_upload flt (metaName i) (MetaJSON m) b) (\<lambda>e b. (Inl (MetaUploadFailed e), b)))))"

definition upload ::
  "faults \<Rightarrow> bool \<Rightarrow> local_block \<Rightarrow> bucket \<Rightarrow> (upload_error + unit) \<times> bucket" where
  "upload flt checkExternalLabels lb b =
     (if \<not> lbIsDir lb then (Inl NotADirectory, b)
      else case lbId lb of
        None \<Rightarrow> (Inl NotABlockDir, b)
      | Some i \<Rightarrow>
          (case lbMeta lb of
             None \<Rightarrow> (Inl ReadMetaFailed, b)
           | Some m \<Rightarrow>
               if checkExternalLabels \<and> extLabels (thanos m) = [] then (Inl EmptyExternalLabels, b)
               else (case gatherFileStats lb of
                       None \<Rightarrow> (Inl GatherStatsFailed, b)
                     | Some fs \<Rightarrow>
                         uploadObjects flt i (m\<lparr>thanos := (thanos m)\<lparr>files := fs\<rparr>\<rparr>)
                           (the (lbChunks lb)) (the (lbIndex lb)) b)))"

end
