(* ===== verification/Block_Safety.thy ===== *)
theory Block_Safety
  imports Block_Ops
begin

text \<open>
  What the object store goes through while a block is uploaded or deleted, whichever of its
  operations fail (\<^verbatim>\<open>pkg/block/block.go\<close>): a \<^verbatim>\<open>meta.json\<close> is only ever seen next to a complete block,
  the deletion mark outlives everything else, and nothing outside the block is touched.
\<close>

definition depth_le :: "nat \<Rightarrow> contents \<Rightarrow> bool" where
  "depth_le l objs \<longleftrightarrow> (\<forall>n. has_object objs n \<longrightarrow> length n \<le> l)"

text \<open>
  Every contents a run of \<open>deleteBlock\<close> goes through, started from \<open>o0\<close>: nothing outside the
  block changes, nothing appears, nothing is gone while \<^verbatim>\<open>meta.json\<close> is there, and the
  deletion mark is gone only when the whole block is.
\<close>

definition deletionInv :: "ulid \<Rightarrow> contents \<Rightarrow> contents \<Rightarrow> bool" where
  "deletionInv i o0 c \<longleftrightarrow>
     (\<forall>n. has_object c n \<longrightarrow> has_object o0 n)
     \<and> (\<forall>n. \<not> strict_prefix [Id i] n \<longrightarrow> map_of c n = map_of o0 n)
     \<and> (has_object c (metaName i) \<longrightarrow> (\<forall>n. has_object o0 n \<longrightarrow> has_object c n))
     \<and> (has_object o0 (deletionMarkName i) \<and> \<not> has_object c (deletionMarkName i) \<longrightarrow>
          (\<forall>n. strict_prefix [Id i] n \<longrightarrow> \<not> has_object c n))"

definition metaGone :: "ulid \<Rightarrow> contents \<Rightarrow> contents \<Rightarrow> bool" where
  "metaGone i o0 c \<longleftrightarrow> \<not> has_object c (metaName i)
     \<and> (has_object o0 (deletionMarkName i) \<longrightarrow> has_object c (deletionMarkName i))"

definition onlyMarkLeft :: "ulid \<Rightarrow> contents \<Rightarrow> bool" where
  "onlyMarkLeft i c \<longleftrightarrow> (\<forall>n. strict_prefix [Id i] n \<longrightarrow> n \<noteq> deletionMarkName i \<longrightarrow> \<not> has_object c n)"

definition completeBlock :: "ulid \<Rightarrow> (string \<times> string) list \<Rightarrow> string \<Rightarrow> contents \<Rightarrow> bool" where
  "completeBlock i cs ix c \<longleftrightarrow>
     map_of c (indexName i) = Some (Raw ix)
     \<and> (\<forall>(n, d) \<in> set cs. map_of c (chunkName i n) = Some (Raw d))"

definition uploadInv :: "ulid \<Rightarrow> (string \<times> string) list \<Rightarrow> string \<Rightarrow> contents \<Rightarrow> contents \<Rightarrow> bool" where
  "uploadInv i cs ix o0 c \<longleftrightarrow>
     (\<forall>n. \<not> strict_prefix [Id i] n \<and> n \<noteq> debugMetaName i \<longrightarrow> map_of c n = map_of o0 n)
     \<and> (\<forall>j. has_object c (deletionMarkName j) \<longrightarrow> has_object o0 (deletionMarkName j))
     \<and> (has_object c (metaName i) \<longrightarrow> completeBlock i cs ix c)"

definition noMeta :: "ulid \<Rightarrow> contents \<Rightarrow> bool" where
  "noMeta i c \<longleftrightarrow> \<not> has_object c (metaName i)"

definition chunksUp :: "ulid \<Rightarrow> (string \<times> string) list \<Rightarrow> contents \<Rightarrow> bool" where
  "chunksUp i cs c \<longleftrightarrow> (\<forall>(n, d) \<in> set cs. map_of c (chunkName i n) = Some (Raw d))"

definition sampleBucket :: bucket where
  "sampleBucket =
     \<lparr>objects = [(metaName 7, Raw ''m''), (chunkName 7 ''000001'', Raw ''c''), (indexName 7, Raw ''i''),
                 (deletionMarkName 7, Raw ''d''), (indexName 8, Raw ''i'')],
      opcount = 0, trace = []\<rparr>"

definition faultAt :: "nat \<Rightarrow> faults" where
  "faultAt k n = (if n = k then FailsApplied else NoFault)"

definition sampleLocal :: local_block where
  "sampleLocal = \<lparr>lbIsDir = True, lbId = Some 9, lbMeta = Some (rawBlock 9 0 10),
     lbChunks = Some [(''000001'', ''abc''), (''000002'', ''d'')], lbIndex = Some ''idx''\<rparr>"

definition marksOnly :: "ulid set \<Rightarrow> contents \<Rightarrow> contents \<Rightarrow> bool" where
  "marksOnly S o0 c \<longleftrightarrow>
     (\<forall>n. has_object o0 n \<or> n \<notin> deletionMarkName ` S \<longrightarrow> map_of c n = map_of o0 n)"

section \<open>What deletion keeps\<close>

lemma strict_prefix_snoc: "prefix root dir \<Longrightarrow> strict_prefix root (dir @ [s])"
  by (metis append_self_conv list.distinct(1) prefix_order.dual_order.antisym prefix_snoc
      prefixI strict_prefix_def)

lemma deleteEntries_keeps:
  fixes I :: "contents \<Rightarrow> bool"
  assumes "\<And>n c. EFile n \<in> set es \<Longrightarrow> \<not> keep n \<Longrightarrow> I c \<Longrightarrow> I (del_object n c)"
    and "\<And>d. EDir d \<in> set es \<Longrightarrow> runs I (\<lambda>_. True) (deleteDirRec k flt keep d) (\<lambda>_ _. True)"
  shows "runs I (\<lambda>_. True) (deleteEntries k flt keep es) (\<lambda>_ _. True)"
  using assms
proof (induction es)
  case Nil
  then show ?case by (auto simp: runs_def)
next
  case (Cons e es)
  have tail: "runs I (\<lambda>_. True) (deleteEntries k flt keep es) (\<lambda>_ _. True)"
    by (rule Cons.IH) (use Cons.prems in auto)
  show ?case
  proof (cases e)
    case (EDir d)
    then have "runs I (\<lambda>_. True) (deleteDirRec k flt keep d) (\<lambda>_ _. True)"
      using Cons.prems by simp
    from runs_andThen [OF this tail]
    show ?thesis using EDir by (simp add: fun_eq_iff [symmetric])
  next
    case (EFile n)
    show ?thesis
    proof (cases "keep n")
      case True
      then show ?thesis using tail EFile by (simp add: runs_def)
    next
      case False
      have "runs I (\<lambda>_. True) (bkt_delete flt n) (\<lambda>_ _. True)"
        by (rule runs_conseq [OF runs_delete]) (use Cons.prems(1) False EFile in auto)
      from runs_andThen [OF this tail]
      show ?thesis using EFile False by simp
    qed
  qed
qed

lemma deleteDirRec_keeps:
  fixes I :: "contents \<Rightarrow> bool"
  assumes del: "\<And>n c. strict_prefix root n \<Longrightarrow> \<not> keep n \<Longrightarrow> I c \<Longrightarrow> I (del_object n c)"
  shows "prefix root dir \<Longrightarrow> runs I (\<lambda>_. True) (deleteDirRec k flt keep dir) (\<lambda>_ _. True)"
proof (induction k arbitrary: dir)
  case 0
  then show ?case by (auto simp: runs_def)
next
  case (Suc k)
  have "runs I (\<lambda>_. True) (bkt_iter flt dir) (\<lambda>r c. \<forall>es. r = Inr es \<longrightarrow> es = list_dir dir c)"
    by (rule runs_conseq [OF runs_iter]) auto
  moreover have "runs I (\<lambda>c. es = list_dir dir c) (deleteEntries k flt keep es) (\<lambda>_ _. True)" for es
  proof (cases "\<exists>c. es = list_dir dir c")
    case True
    then obtain c where es: "es = list_dir dir c" ..
    have "runs I (\<lambda>_. True) (deleteEntries k flt keep es) (\<lambda>_ _. True)"
    proof (rule deleteEntries_keeps)
      show "I (del_object n c)" if "EFile n \<in> set es" "\<not> keep n" "I c" for n c
        using that es del strict_prefix_snoc [OF Suc.prems] by (auto simp: EFile_list_dir)
      show "runs I (\<lambda>_. True) (deleteDirRec k flt keep d) (\<lambda>_ _. True)" if "EDir d \<in> set es" for d
        using that es Suc.prems by (intro Suc.IH) (auto simp: EDir_list_dir)
    qed
    then show ?thesis by (rule runs_conseq) auto
  next
    case False
    then show ?thesis by (auto simp: runs_def)
  qed
  ultimately have "runs I (\<lambda>_. True)
      (\<lambda>b. andThen (bkt_iter flt dir b) (\<lambda>es. deleteEntries k flt keep es)) (\<lambda>_ _. True)"
    by (intro runs_andThen) auto
  then show ?case by simp
qed

lemma deleteDirRec_removes_only:
  assumes "deleteDirRec k flt keep dir b = (r, b')" and "has_object (objects b') n"
  shows "has_object (objects b) n"
proof -
  have "runs (\<lambda>c. \<forall>m. has_object c m \<longrightarrow> has_object (objects b) m) (\<lambda>_. True)
      (deleteDirRec k flt keep dir) (\<lambda>_ _. True)"
    by (rule deleteDirRec_keeps [where root = "[]"]) auto
  from runsD(1) [OF this, of b] show ?thesis using assms by simp
qed

lemma deleteEntries_removes_only:
  assumes "deleteEntries k flt keep es b = (r, b')" and "has_object (objects b') n"
  shows "has_object (objects b) n"
proof -
  have "runs (\<lambda>c. \<forall>m. has_object c m \<longrightarrow> has_object (objects b) m) (\<lambda>_. True)
      (deleteEntries k flt keep es) (\<lambda>_ _. True)"
    by (rule deleteEntries_keeps) (auto intro!: deleteDirRec_keeps [where root = "[]"])
  from runsD(1) [OF this, of b] show ?thesis using assms by simp
qed

text \<open>A deletion that reports success has removed everything it was not told to keep.\<close>

lemma deleteEntries_complete:
  assumes rec: "\<And>d b b'. deleteDirRec k flt keep d b = (Inr (), b') \<Longrightarrow> has_object (objects b') n \<Longrightarrow>
      strict_prefix d n \<Longrightarrow> keep n"
  shows "deleteEntries k flt keep es b = (Inr (), b') \<Longrightarrow> has_object (objects b') n \<Longrightarrow>
     EFile n \<in> set es \<or> (\<exists>d. EDir d \<in> set es \<and> strict_prefix d n) \<Longrightarrow> keep n"
proof (induction es arbitrary: b)
  case Nil
  then show ?case by simp
next
  case (Cons e es)
  show ?case
  proof (cases e)
    case (EDir d)
    then obtain b1 where b1: "deleteDirRec k flt keep d b = (Inr (), b1)"
      "deleteEntries k flt keep es b1 = (Inr (), b')"
      using Cons.prems(1) by (auto simp: andThen_def split: prod.splits sum.splits)
    then have "has_object (objects b1) n"
      using deleteEntries_removes_only Cons.prems(2) by blast
    then show ?thesis
      using Cons.IH [OF b1(2) Cons.prems(2)] rec [OF b1(1)] Cons.prems(3) EDir by auto
  next
    case (EFile m)
    show ?thesis
    proof (cases "keep m")
      case True
      then show ?thesis using Cons.IH [of b] Cons.prems EFile by auto
    next
      case False
      then obtain b1 where b1: "bkt_delete flt m b = (Inr (), b1)"
        "deleteEntries k flt keep es b1 = (Inr (), b')"
        using Cons.prems(1) EFile by (auto simp: andThen_def split: prod.splits sum.splits)
      have "\<not> has_object (objects b1) m"
        using b1(1) by (auto simp: bkt_delete_def split: fault.splits if_splits)
      then have "n \<noteq> m" using deleteEntries_removes_only [OF b1(2)] Cons.prems(2) by blast
      then show ?thesis
        using Cons.IH [OF b1(2) Cons.prems(2)] Cons.prems(3) EFile by auto
    qed
  qed
qed

lemma deleteDirRec_complete:
  "deleteDirRec k flt keep dir b = (Inr (), b') \<Longrightarrow> has_object (objects b') n \<Longrightarrow>
     strict_prefix dir n \<Longrightarrow> keep n"
proof (induction k arbitrary: dir b b')
  case 0
  then show ?case by simp
next
  case (Suc k)
  then obtain b1 where b1: "deleteEntries k flt keep (list_dir dir (objects b)) b1 = (Inr (), b')"
    "objects b1 = objects b"
    by (auto simp: andThen_def bkt_iter_def split: if_splits)
  then have "has_object (objects b) n"
    using deleteEntries_removes_only [OF b1(1) Suc.prems(2)] by simp
  moreover obtain s t where "n = dir @ s # t"
    using Suc.prems(3) by (metis prefixE strict_prefix_def append_Nil2 neq_Nil_conv)
  ultimately have "EFile n \<in> set (list_dir dir (objects b))
      \<or> (\<exists>d. EDir d \<in> set (list_dir dir (objects b)) \<and> strict_prefix d n)"
  proof (cases t)
    case Nil
    then show ?thesis using \<open>has_object (objects b) n\<close> \<open>n = dir @ s # t\<close>
      by (simp add: EFile_list_dir)
  next
    case (Cons a list)
    then have "strict_prefix (dir @ [s]) n"
      using \<open>n = dir @ s # t\<close> by (simp add: strict_prefix_def prefix_def)
    then show ?thesis using \<open>has_object (objects b) n\<close> by (auto simp: EDir_list_dir)
  qed
  with deleteEntries_complete [OF _ b1(1) Suc.prems(2)] Suc.IH show ?case by blast
qed

text \<open>The fuel of a deletion never runs out.\<close>

lemma max_depth_bound: "has_object objs n \<Longrightarrow> length n \<le> max_depth objs"
  by (induction objs) (auto simp: max_depth_def has_object_def split: if_splits)

lemma deleteEntries_fuel:
  assumes rec: "\<And>d b. EDir d \<in> set es \<Longrightarrow> depth_le l (objects b) \<Longrightarrow>
      fst (deleteDirRec k flt keep d b) \<noteq> Inl OutOfFuel"
  shows "depth_le l (objects b) \<Longrightarrow> fst (deleteEntries k flt keep es b) \<noteq> Inl OutOfFuel"
  using rec
proof (induction es arbitrary: b)
  case Nil
  then show ?case by simp
next
  case (Cons e es)
  have tail: "fst (deleteEntries k flt keep es b1) \<noteq> Inl OutOfFuel" if "depth_le l (objects b1)" for b1
    by (rule Cons.IH [OF that]) (use Cons.prems in auto)
  show ?case
  proof (cases e)
    case (EDir d)
    obtain r b1 where b1: "deleteDirRec k flt keep d b = (r, b1)" by fastforce
    then have "depth_le l (objects b1)"
      using Cons.prems(1) deleteDirRec_removes_only by (auto simp: depth_le_def)
    then show ?thesis
      using tail Cons.prems(2) [of d b] Cons.prems(1) EDir b1 by (auto simp: andThen_def split: sum.splits)
  next
    case (EFile n)
    obtain r b1 where b1: "bkt_delete flt n b = (r, b1)" by fastforce
    then have "depth_le l (objects b1)" "r \<noteq> Inl OutOfFuel"
      using Cons.prems(1)
      by (auto simp: depth_le_def bkt_delete_def split: fault.splits if_splits)
    then show ?thesis
      using tail Cons.prems(1) EFile b1 by (auto simp: andThen_def split: sum.splits)
  qed
qed

lemma deleteDirRec_fuel:
  "depth_le l (objects b) \<Longrightarrow> 0 < k \<Longrightarrow> l \<le> length dir + k \<Longrightarrow>
     fst (deleteDirRec k flt keep dir b) \<noteq> Inl OutOfFuel"
proof (induction k arbitrary: dir b)
  case 0
  then show ?case by simp
next
  case (Suc k)
  have "fst (deleteEntries k flt keep (list_dir dir (objects b)) b1) \<noteq> Inl OutOfFuel"
    if b1: "objects b1 = objects b" for b1
  proof (rule deleteEntries_fuel)
    fix d and b2 :: bucket
    assume d: "EDir d \<in> set (list_dir dir (objects b))" and b2: "depth_le l (objects b2)"
    from d obtain s n where n: "d = dir @ [s]" "has_object (objects b) n" "strict_prefix d n"
      by (auto simp: EDir_list_dir)
    then have "length d < length n" by (meson prefix_length_less)
    moreover have "length n \<le> l" using n(2) Suc.prems(1) by (simp add: depth_le_def)
    ultimately show "fst (deleteDirRec k flt keep d b2) \<noteq> Inl OutOfFuel"
      using Suc.prems(3) n(1) by (intro Suc.IH b2) auto
  qed (use Suc.prems(1) b1 in simp)
  then show ?case by (auto simp: andThen_def bkt_iter_def)
qed

lemma fst_andThen_Inl:
  "fst (andThen r k) = Inl e \<longleftrightarrow> fst r = Inl e \<or> (\<exists>x. fst r = Inr x \<and> fst (k x (snd r)) = Inl e)"
  by (cases r) (auto simp: andThen_def split: sum.splits)

lemma bkt_ops_fuel:
  "fst (bkt_exists flt n b) \<noteq> Inl OutOfFuel" "fst (bkt_delete flt n b) \<noteq> Inl OutOfFuel"
  by (auto simp: bkt_exists_def bkt_delete_def split: fault.splits)

lemma deleteBlock_fuel: "fst (deleteBlock flt i b) \<noteq> Inl OutOfFuel"
proof -
  have "fst (deleteDirRec (Suc (max_depth (objects b))) flt keep dir b) \<noteq> Inl OutOfFuel" for keep dir b
    using max_depth_bound
    by (intro deleteDirRec_fuel [where l = "max_depth (objects b)"]) (auto simp: depth_le_def)
  then show ?thesis
    by (simp add: deleteBlock_def fst_andThen_Inl bkt_ops_fuel del: deleteDirRec.simps)
qed

section \<open>Order of a block deletion\<close>

lemma runs_orElse:
  assumes "runs I P f R" and "\<And>e. runs I (R (Inl e)) (h e) Q"
    and "\<And>x c. I c \<Longrightarrow> R (Inr x) c \<Longrightarrow> Q (Inr x) c"
  shows "runs I P (\<lambda>b. orElse (f b) h) Q"
  unfolding orElse_def
  by (rule runs_case [OF assms(1)]) (auto intro: runs_return assms)

lemma block_names_distinct [simp]:
  "metaName i \<noteq> deletionMarkName j" "deletionMarkName j \<noteq> metaName i"
  "metaName i \<noteq> indexName i" "indexName i \<noteq> metaName i"
  "metaName i \<noteq> chunkName i f" "chunkName i f \<noteq> metaName i"
  "indexName i \<noteq> chunkName i f" "chunkName i f \<noteq> indexName i"
  "debugMetaName i \<noteq> metaName j" "metaName j \<noteq> debugMetaName i"
  "debugMetaName i \<noteq> deletionMarkName j" "deletionMarkName j \<noteq> debugMetaName i"
  "indexName i \<noteq> deletionMarkName j" "deletionMarkName j \<noteq> indexName i"
  "chunkName i f \<noteq> deletionMarkName j" "deletionMarkName j \<noteq> chunkName i f"
  by (simp_all add: block_names file_names)

lemma block_names_prefix [simp]:
  "strict_prefix [Id i] (metaName i)" "strict_prefix [Id i] (deletionMarkName i)"
  "strict_prefix [Id i] (indexName i)" "strict_prefix [Id i] (chunkName i f)"
  by (simp_all add: block_names strict_prefix_def)

lemma deletionInv_refl: "deletionInv i o0 o0 \<longleftrightarrow> True"
  by (auto simp: deletionInv_def)

lemma deletionInvI:
  assumes "metaGone i o0 c" and "\<And>n. has_object c n \<Longrightarrow> has_object o0 n"
    and "\<And>n. \<not> strict_prefix [Id i] n \<Longrightarrow> map_of c n = map_of o0 n"
  shows "deletionInv i o0 c \<and> metaGone i o0 c"
  using assms unfolding deletionInv_def metaGone_def by blast

lemma deletionInv_del:
  assumes "deletionInv i o0 c" and "metaGone i o0 c" and "strict_prefix [Id i] n"
    and "n \<noteq> deletionMarkName i"
  shows "deletionInv i o0 (del_object n c) \<and> metaGone i o0 (del_object n c)"
proof (rule deletionInvI)
  show "metaGone i o0 (del_object n c)"
    using assms(2,4) unfolding metaGone_def has_object_del by blast
  show "has_object o0 m" if "has_object (del_object n c) m" for m
    using assms(1) that unfolding deletionInv_def has_object_del by blast
  show "map_of (del_object n c) m = map_of o0 m" if "\<not> strict_prefix [Id i] m" for m
    using assms(1,3) that unfolding deletionInv_def map_of_del_object by metis
qed

lemma deletionInv_del_meta:
  "deletionInv i o0 (del_object (metaName i) o0) \<and> metaGone i o0 (del_object (metaName i) o0)"
  by (rule deletionInvI) (auto simp: metaGone_def map_of_del_object)

lemma runs_delete_meta:
  "runs (deletionInv i o0) (\<lambda>c. c = o0 \<and> ok = has_object o0 (metaName i))
     (\<lambda>b. if ok then bkt_delete flt (metaName i) b else (Inr (), b))
     (\<lambda>r c. r = Inr () \<longrightarrow> metaGone i o0 c)"
proof (rule runs_if)
  assume ok
  show "runs (deletionInv i o0) (\<lambda>c. c = o0 \<and> ok = has_object o0 (metaName i))
      (bkt_delete flt (metaName i)) (\<lambda>r c. r = Inr () \<longrightarrow> metaGone i o0 c)"
    by (rule runs_conseq [OF runs_delete [where P = "\<lambda>c. c = o0"]])
      (use deletionInv_del_meta in blast)+
next
  assume "\<not> ok"
  then show "runs (deletionInv i o0) (\<lambda>c. c = o0 \<and> ok = has_object o0 (metaName i))
      (\<lambda>b. (Inr (), b)) (\<lambda>r c. r = Inr () \<longrightarrow> metaGone i o0 c)"
    by (intro runs_return) (auto simp: metaGone_def)
qed

lemma runs_delete_files:
  "runs (deletionInv i o0) (metaGone i o0)
     (deleteDirRec k flt (\<lambda>n. n = metaName i \<or> n = deletionMarkName i) [Id i])
     (\<lambda>r c. metaGone i o0 c \<and> (r = Inr () \<longrightarrow> onlyMarkLeft i c))"
proof -
  let ?keep = "\<lambda>n. n = metaName i \<or> n = deletionMarkName i"
  have "runs (\<lambda>c. deletionInv i o0 c \<and> metaGone i o0 c) (\<lambda>_. True)
      (deleteDirRec k flt ?keep [Id i]) (\<lambda>_ _. True)"
    by (rule deleteDirRec_keeps [where root = "[Id i]"]) (use deletionInv_del in blast, simp)
  then have "runs (deletionInv i o0) (\<lambda>c. True \<and> metaGone i o0 c)
      (deleteDirRec k flt ?keep [Id i]) (\<lambda>r c. True \<and> metaGone i o0 c)"
    by (rule runs_strengthen)
  moreover have "fst (deleteDirRec k flt ?keep [Id i] b) = Inr () \<longrightarrow>
        (\<forall>n. has_object (objects (snd (deleteDirRec k flt ?keep [Id i] b))) n \<longrightarrow>
           strict_prefix [Id i] n \<longrightarrow> ?keep n)" for b
    using deleteDirRec_complete [of k flt ?keep "[Id i]" b]
    by (cases "deleteDirRec k flt ?keep [Id i] b") (simp del: deleteDirRec.simps)
  ultimately have "runs (deletionInv i o0) (\<lambda>c. True \<and> metaGone i o0 c)
      (deleteDirRec k flt ?keep [Id i])
      (\<lambda>r c. (True \<and> metaGone i o0 c)
         \<and> (r = Inr () \<longrightarrow> (\<forall>n. has_object c n \<longrightarrow> strict_prefix [Id i] n \<longrightarrow> ?keep n)))"
    by (rule runs_result [where R = "\<lambda>r c. r = Inr () \<longrightarrow> (\<forall>n. has_object c n \<longrightarrow> strict_prefix [Id i] n \<longrightarrow> ?keep n)"])
  then show ?thesis
  proof (rule runs_conseq)
    fix r :: "bkt_error + unit" and c
    assume h: "(True \<and> metaGone i o0 c)
      \<and> (r = Inr () \<longrightarrow> (\<forall>n. has_object c n \<longrightarrow> strict_prefix [Id i] n \<longrightarrow> ?keep n))"
    then have nm: "\<not> has_object c (metaName i)" by (simp add: metaGone_def)
    have "onlyMarkLeft i c" if "r = Inr ()"
      unfolding onlyMarkLeft_def using h nm that by blast
    moreover have "metaGone i o0 c" using h by (elim conjE)
    ultimately show "metaGone i o0 c \<and> (r = Inr () \<longrightarrow> onlyMarkLeft i c)" by (intro conjI impI)
  qed simp
qed

lemma runs_delete_mark:
  "runs (deletionInv i o0) (\<lambda>c. onlyMarkLeft i c \<and> ok = has_object c (deletionMarkName i))
     (\<lambda>b. if ok then bkt_delete flt (deletionMarkName i) b else (Inr (), b))
     (\<lambda>r c. r = Inr () \<longrightarrow> (\<forall>n. strict_prefix [Id i] n \<longrightarrow> \<not> has_object c n))"
proof (rule runs_if)
  assume ok
  show "runs (deletionInv i o0) (\<lambda>c. onlyMarkLeft i c \<and> ok = has_object c (deletionMarkName i))
      (bkt_delete flt (deletionMarkName i))
      (\<lambda>r c. r = Inr () \<longrightarrow> (\<forall>n. strict_prefix [Id i] n \<longrightarrow> \<not> has_object c n))"
  proof (rule runs_conseq [OF runs_delete [where P = "onlyMarkLeft i"]])
    fix c
    assume inv: "deletionInv i o0 c" and left: "onlyMarkLeft i c"
    then have "\<not> has_object c (metaName i)" by (simp add: onlyMarkLeft_def)
    moreover have "\<forall>m. \<not> strict_prefix [Id i] m \<longrightarrow> map_of (del_object (deletionMarkName i) c) m = map_of o0 m"
      using inv by (auto simp: deletionInv_def map_of_del_object)
    ultimately show "deletionInv i o0 (del_object (deletionMarkName i) c)"
      using inv left unfolding deletionInv_def onlyMarkLeft_def has_object_del by blast
  qed (auto simp: onlyMarkLeft_def)
next
  assume "\<not> ok"
  then show "runs (deletionInv i o0) (\<lambda>c. onlyMarkLeft i c \<and> ok = has_object c (deletionMarkName i))
      (\<lambda>b. (Inr (), b)) (\<lambda>r c. r = Inr () \<longrightarrow> (\<forall>n. strict_prefix [Id i] n \<longrightarrow> \<not> has_object c n))"
    by (intro runs_return) (auto simp: onlyMarkLeft_def)
qed

lemma runs_deleteBlock:
  "runs (deletionInv i o0) (\<lambda>c. c = o0) (deleteBlock flt i)
     (\<lambda>r c. r = Inr () \<longrightarrow> (\<forall>n. strict_prefix [Id i] n \<longrightarrow> \<not> has_object c n))"
  unfolding deleteBlock_def
proof (rule runs_andThen)
  show "runs (deletionInv i o0) (\<lambda>c. c = o0) (bkt_exists flt (metaName i))
      (\<lambda>r c. c = o0 \<and> (\<forall>x. r = Inr x \<longrightarrow> x = has_object c (metaName i)))"
    by (rule runs_exists)
next
  fix ok :: bool
  show "runs (deletionInv i o0)
     (\<lambda>c. c = o0 \<and> (\<forall>x. Inr ok = Inr x \<longrightarrow> x = has_object c (metaName i)))
     (\<lambda>b. andThen (if ok then bkt_delete flt (metaName i) b else (Inr (), b)) (\<lambda>_ b.
     andThen (deleteDirRec (Suc (max_depth (objects b))) flt
                (\<lambda>n. n = metaName i \<or> n = deletionMarkName i) [Id i] b) (\<lambda>_ b.
     andThen (bkt_exists flt (deletionMarkName i) b) (\<lambda>ok b.
       if ok then bkt_delete flt (deletionMarkName i) b else (Inr (), b)))))
     (\<lambda>r c. r = Inr () \<longrightarrow> (\<forall>n. strict_prefix [Id i] n \<longrightarrow> \<not> has_object c n))"
  proof (rule runs_andThen)
    show "runs (deletionInv i o0)
     (\<lambda>c. c = o0 \<and> (\<forall>x. Inr ok = Inr x \<longrightarrow> x = has_object c (metaName i)))
     (\<lambda>b. if ok then bkt_delete flt (metaName i) b else (Inr (), b))
     (\<lambda>r c. r = Inr () \<longrightarrow> metaGone i o0 c)"
      by (rule runs_conseq [OF runs_delete_meta]) auto
  next
    fix u :: unit
    show "runs (deletionInv i o0) (\<lambda>c. Inr u = Inr () \<longrightarrow> metaGone i o0 c)
     (\<lambda>b. andThen (deleteDirRec (Suc (max_depth (objects b))) flt
                (\<lambda>n. n = metaName i \<or> n = deletionMarkName i) [Id i] b) (\<lambda>_ b.
     andThen (bkt_exists flt (deletionMarkName i) b) (\<lambda>ok b.
       if ok then bkt_delete flt (deletionMarkName i) b else (Inr (), b))))
     (\<lambda>r c. r = Inr () \<longrightarrow> (\<forall>n. strict_prefix [Id i] n \<longrightarrow> \<not> has_object c n))"
    proof (rule runs_andThen)
      show "runs (deletionInv i o0) (\<lambda>c. Inr u = Inr () \<longrightarrow> metaGone i o0 c)
        (\<lambda>b. deleteDirRec (Suc (max_depth (objects b))) flt
                (\<lambda>n. n = metaName i \<or> n = deletionMarkName i) [Id i] b)
        (\<lambda>r c. r = Inr () \<longrightarrow> onlyMarkLeft i c)"
        by (rule runs_dep [where f = "\<lambda>k. deleteDirRec k flt
                (\<lambda>n. n = metaName i \<or> n = deletionMarkName i) [Id i]"],
            rule runs_conseq [OF runs_delete_files]) auto
    next
      fix u :: unit
      show "runs (deletionInv i o0) (\<lambda>c. Inr u = Inr () \<longrightarrow> onlyMarkLeft i c)
        (\<lambda>b. andThen (bkt_exists flt (deletionMarkName i) b) (\<lambda>ok b.
           if ok then bkt_delete flt (deletionMarkName i) b else (Inr (), b)))
        (\<lambda>r c. r = Inr () \<longrightarrow> (\<forall>n. strict_prefix [Id i] n \<longrightarrow> \<not> has_object c n))"
        by (rule runs_andThen [OF runs_exists], rule runs_conseq [OF runs_delete_mark]) auto
    qed auto
  qed auto
qed auto

lemma chunkName_eq [simp]: "chunkName i n = chunkName i m \<longleftrightarrow> n = m"
  by (simp add: chunkName_def)

lemma runs_deleteBlock_noMeta:
  "runs (uploadInv i cs ix o0) (noMeta i) (deleteBlock flt i) (\<lambda>_. noMeta i)"
  unfolding runs_def
proof (intro allI impI)
  fix b :: bucket
  assume *: "uploadInv i cs ix o0 (objects b) \<and> noMeta i (objects b)"
  let ?r = "deleteBlock flt i b"
  have "deletionInv i (objects b) (objects b)" by (simp add: deletionInv_refl)
  note del = runsD [OF runs_deleteBlock this refl, of flt]
  have step: "uploadInv i cs ix o0 c \<and> noMeta i c" if "deletionInv i (objects b) c" for c
  proof -
    have nm: "noMeta i c" using * that unfolding noMeta_def deletionInv_def by blast
    have "map_of c n = map_of o0 n" if "\<not> strict_prefix [Id i] n \<and> n \<noteq> debugMetaName i" for n
    proof -
      have "map_of c n = map_of (objects b) n"
        using that \<open>deletionInv i (objects b) c\<close> unfolding deletionInv_def by blast
      also have "\<dots> = map_of o0 n" using that * unfolding uploadInv_def by blast
      finally show ?thesis .
    qed
    moreover have "has_object o0 (deletionMarkName j)" if "has_object c (deletionMarkName j)" for j
      using that * \<open>deletionInv i (objects b) c\<close> unfolding uploadInv_def deletionInv_def by blast
    ultimately show ?thesis using nm unfolding uploadInv_def noMeta_def by blast
  qed
  show "uploadInv i cs ix o0 (objects (snd ?r)) \<and> noMeta i (objects (snd ?r))
      \<and> (\<exists>new. trace (snd ?r) = new @ trace b \<and> (\<forall>c \<in> set new. uploadInv i cs ix o0 c))"
    using del step by meson
qed

lemma runs_cleanUp:
  "runs (uploadInv i cs ix o0) (noMeta i) (cleanUp flt i e) (\<lambda>r c. noMeta i c \<and> (\<exists>e. r = Inl e))"
  unfolding runs_def
proof (intro allI impI)
  fix b :: bucket
  assume "uploadInv i cs ix o0 (objects b) \<and> noMeta i (objects b)"
  then show "uploadInv i cs ix o0 (objects (snd (cleanUp flt i e b)))
      \<and> (noMeta i (objects (snd (cleanUp flt i e b))) \<and> (\<exists>e'. fst (cleanUp flt i e b) = Inl e'))
      \<and> (\<exists>new. trace (snd (cleanUp flt i e b)) = new @ trace b \<and> (\<forall>c \<in> set new. uploadInv i cs ix o0 c))"
    using runsD [OF runs_deleteBlock_noMeta, of i cs ix o0 b flt]
    by (auto simp: cleanUp_def split: prod.splits sum.splits)
qed

lemma uploadInv_put:
  assumes "uploadInv i cs ix o0 c" and "noMeta i c" and "n \<noteq> metaName i"
    and "strict_prefix [Id i] n \<or> n = debugMetaName i" and "\<And>j. n \<noteq> deletionMarkName j"
  shows "uploadInv i cs ix o0 (put_object n x c)"
  using assms by (auto simp: uploadInv_def noMeta_def map_of_put_object)

lemma noMeta_put [simp]: "noMeta i c \<Longrightarrow> n \<noteq> metaName i \<Longrightarrow> noMeta i (put_object n x c)"
  by (simp add: noMeta_def)

lemma chunksUp_snoc:
  assumes "n \<notin> fst ` set ds" and "chunksUp i ds c"
  shows "chunksUp i (ds @ [(n, d)]) (put_object (chunkName i n) (Raw d) c)"
  unfolding chunksUp_def
proof (intro ballI, clarify)
  fix m x
  assume "(m, x) \<in> set (ds @ [(n, d)])"
  then consider "(m, x) = (n, d)" | "(m, x) \<in> set ds" "m \<noteq> n" using assms(1) by force
  then show "map_of (put_object (chunkName i n) (Raw d) c) (chunkName i m) = Some (Raw x)"
    using assms(2) by cases (auto simp: chunksUp_def map_of_put_object)
qed

lemma runs_uploadDir:
  assumes "distinct (map fst (ds @ es))"
  shows "runs (uploadInv i cs ix o0) (\<lambda>c. noMeta i c \<and> chunksUp i ds c)
     (uploadDir flt i es) (\<lambda>r c. noMeta i c \<and> (r = Inr () \<longrightarrow> chunksUp i (ds @ es) c))"
  using assms
proof (induction es arbitrary: ds)
  case Nil
  then show ?case by (auto simp: runs_def)
next
  case (Cons e es)
  obtain n d where e: "e = (n, d)" by fastforce
  let ?P = "\<lambda>c. noMeta i c \<and> chunksUp i ds c"
  have put: "noMeta i (put_object (chunkName i n) (Raw d) c) \<and> chunksUp i (ds @ [e]) (put_object (chunkName i n) (Raw d) c)"
    if "?P c" for c
    using that chunksUp_snoc [of n ds i c d] Cons.prems by (simp add: e noMeta_def)
  have "runs (uploadInv i cs ix o0) ?P (\<lambda>b. andThen (bkt_upload flt (chunkName i n) (Raw d) b) (\<lambda>_. uploadDir flt i es))
     (\<lambda>r c. noMeta i c \<and> (r = Inr () \<longrightarrow> chunksUp i ((ds @ [e]) @ es) c))"
  proof (rule runs_andThen)
    show "runs (uploadInv i cs ix o0) ?P (bkt_upload flt (chunkName i n) (Raw d))
        (\<lambda>r c. noMeta i c \<and> (r = Inr () \<longrightarrow> chunksUp i (ds @ [e]) c))"
      by (rule runs_conseq [OF runs_upload [where P = ?P]]) (use put uploadInv_put in auto)
  next
    fix u :: unit
    show "runs (uploadInv i cs ix o0) (\<lambda>c. noMeta i c \<and> (Inr u = Inr () \<longrightarrow> chunksUp i (ds @ [e]) c))
        (uploadDir flt i es) (\<lambda>r c. noMeta i c \<and> (r = Inr () \<longrightarrow> chunksUp i ((ds @ [e]) @ es) c))"
      by (rule runs_conseq [OF Cons.IH [of "ds @ [e]"]]) (use Cons.prems in auto)
  qed auto
  then show ?case by (simp add: e)
qed

lemma runs_orCleanUp:
  assumes "runs (uploadInv i cs ix o0) P f (\<lambda>r c. noMeta i c \<and> (r = Inr () \<longrightarrow> A c))"
  shows "runs (uploadInv i cs ix o0) P (\<lambda>b. orElse (f b) (cleanUp flt i))
    (\<lambda>r c. noMeta i c \<and> (r = Inr () \<longrightarrow> A c))"
proof (rule runs_orElse [OF assms])
  fix e
  show "runs (uploadInv i cs ix o0) (\<lambda>c. noMeta i c \<and> (Inl e = Inr () \<longrightarrow> A c)) (cleanUp flt i e)
      (\<lambda>r c. noMeta i c \<and> (r = Inr () \<longrightarrow> A c))"
    by (rule runs_conseq [OF runs_cleanUp]) auto
qed simp

lemma runs_uploadObjects:
  assumes "distinct (map fst cs)"
  shows "runs (uploadInv i cs ix o0) (noMeta i) (uploadObjects flt i m cs ix)
     (\<lambda>r c. r = Inr () \<longrightarrow> map_of c (metaName i) = Some (MetaJSON m))"
  unfolding uploadObjects_def
proof (rule runs_andThen [OF runs_orCleanUp [where A = "\<lambda>_. True"]],
    goal_cases debug rest err)
  case debug
  show ?case
    by (rule runs_conseq [OF runs_upload [where P = "noMeta i"]]) (use uploadInv_put in auto)
next
  case (rest u)
  show ?case
  proof (rule runs_andThen [OF runs_orCleanUp [where A = "chunksUp i cs"]], goal_cases chunks rest err)
    case chunks
    show ?case
      by (rule runs_conseq [OF runs_uploadDir [of "[]" cs]]) (use assms in \<open>auto simp: chunksUp_def\<close>)
  next
    case (rest u)
    show ?case
    proof (rule runs_andThen [OF runs_orCleanUp [where A = "completeBlock i cs ix"]], goal_cases idx rest err)
      case idx
      let ?P = "\<lambda>c. noMeta i c \<and> chunksUp i cs c"
      have "completeBlock i cs ix (put_object (indexName i) (Raw ix) c)" if "?P c" for c
        using that by (auto simp: completeBlock_def chunksUp_def map_of_put_object)
      then show ?case
        by (intro runs_conseq [OF runs_upload [where P = ?P]]) (use uploadInv_put in auto)
    next
      case (rest u)
      let ?P = "\<lambda>c. noMeta i c \<and> ((Inr u :: upload_error + unit) = Inr () \<longrightarrow> completeBlock i cs ix c)"
      have put: "uploadInv i cs ix o0 (put_object (metaName i) x c)"
        if "uploadInv i cs ix o0 c" "?P c" for c x
        using that by (auto simp: uploadInv_def completeBlock_def map_of_put_object)
      show ?case
        by (rule runs_orElse [OF runs_upload [where P = ?P]]) (use put in \<open>auto simp: map_of_put_object runs_def\<close>)
    qed auto
  qed auto
qed auto

text \<open>
  C3: deleting a block is safe at every instant, whichever bucket operations fail or fail after taking
  effect: in every intermediate contents of the bucket, while \<^verbatim>\<open>meta.json\<close> is visible no object has been
  removed yet (\<^verbatim>\<open>meta.json\<close> goes first), and a deletion mark that was there disappears only once nothing
  of the block is left (the mark goes last).
\<close>

theorem deleteBlock_order:
  "\<exists>new. trace (snd (deleteBlock flt i b)) = new @ trace b \<and>
     (\<forall>c \<in> set new.
        (has_object c (metaName i) \<longrightarrow> (\<forall>n. has_object (objects b) n \<longrightarrow> has_object c n))
        \<and> (has_object (objects b) (deletionMarkName i) \<and> \<not> has_object c (deletionMarkName i) \<longrightarrow>
             (\<forall>n. strict_prefix [Id i] n \<longrightarrow> \<not> has_object c n)))"
proof -
  have "deletionInv i (objects b) (objects b)" by (simp add: deletionInv_refl)
  from runsD(3) [OF runs_deleteBlock this refl, of flt] show ?thesis
    unfolding deletionInv_def by blast
qed

theorem deleteBlock_order_witness:
  "(\<exists>new. trace (snd (deleteBlock (faultAt 3) 7 sampleBucket)) = new @ trace sampleBucket \<and>
     (\<forall>c \<in> set new.
        (has_object c (metaName 7) \<longrightarrow> (\<forall>n. has_object (objects sampleBucket) n \<longrightarrow> has_object c n))
        \<and> (has_object (objects sampleBucket) (deletionMarkName 7) \<and> \<not> has_object c (deletionMarkName 7) \<longrightarrow>
             (\<forall>n. strict_prefix [Id 7] n \<longrightarrow> \<not> has_object c n))))
   \<and> has_object (objects sampleBucket) (deletionMarkName 7)
   \<and> length (trace (snd (deleteBlock (faultAt 3) 7 sampleBucket))) = 4"
  by (rule conjI [OF deleteBlock_order]) code_simp

text \<open>
  C7: when \<^verbatim>\<open>Delete\<close> returns no error, no object of the block is left, at any depth, and every object
  outside the block's directory is exactly as it was.
\<close>

theorem deleteBlock_removes_all:
  "fst (deleteBlock flt i b) = Inr () \<Longrightarrow>
     map_of (objects (snd (deleteBlock flt i b))) n =
       (if strict_prefix [Id i] n then None else map_of (objects b) n)"
proof -
  assume ok: "fst (deleteBlock flt i b) = Inr ()"
  have "deletionInv i (objects b) (objects b)" by (simp add: deletionInv_refl)
  note del = runsD(1,2) [OF runs_deleteBlock this refl, of flt]
  have "map_of (objects (snd (deleteBlock flt i b))) n = map_of (objects b) n"
    if "\<not> strict_prefix [Id i] n"
    using del(1) that unfolding deletionInv_def by blast
  moreover have "map_of (objects (snd (deleteBlock flt i b))) n = None" if "strict_prefix [Id i] n"
    using del(2) ok that unfolding has_object_def by blast
  ultimately show ?thesis by simp
qed

theorem deleteBlock_removes_all_witness:
  "map_of (objects (snd (deleteBlock (\<lambda>_. NoFault) 7 sampleBucket))) (indexName 7) = None
   \<and> map_of (objects (snd (deleteBlock (\<lambda>_. NoFault) 7 sampleBucket))) (indexName 8) = Some (Raw ''i'')"
proof -
  have ok: "fst (deleteBlock (\<lambda>_. NoFault) 7 sampleBucket) = Inr ()" by code_simp
  have "\<not> strict_prefix [Id 7] (indexName 8)" by (simp add: indexName_def strict_prefix_def)
  moreover have "map_of (objects sampleBucket) (indexName 8) = Some (Raw ''i'')" by code_simp
  ultimately show ?thesis by (simp add: deleteBlock_removes_all [OF ok])
qed

lemma upload_as_objects:
  assumes "lbId lb = Some i" and "lbChunks lb = Some cs" and "lbIndex lb = Some ix"
  shows "(\<exists>e. upload flt chk lb b = (Inl e, b))
    \<or> (\<exists>m. upload flt chk lb b = uploadObjects flt i m cs ix b
         \<and> gatherFileStats lb = Some (files (thanos m)))"
proof (cases "lbIsDir lb \<and> lbMeta lb \<noteq> None \<and> \<not> (chk \<and> extLabels (thanos (the (lbMeta lb))) = [])")
  case False
  then show ?thesis using assms by (auto simp: upload_def split: option.splits)
next
  case True
  then obtain m where "lbMeta lb = Some m" by auto
  moreover obtain fs where "gatherFileStats lb = Some fs"
    using assms by (simp add: gatherFileStats_def)
  ultimately have "upload flt chk lb b = uploadObjects flt i (m\<lparr>thanos := (thanos m)\<lparr>files := fs\<rparr>\<rparr>) cs ix b"
    "gatherFileStats lb = Some (files (thanos (m\<lparr>thanos := (thanos m)\<lparr>files := fs\<rparr>\<rparr>)))"
    using True assms by (auto simp: upload_def)
  then show ?thesis by blast
qed

lemma set_gatherFileStats:
  assumes "gatherFileStats lb = Some fs" and "lbChunks lb = Some cs" and "lbIndex lb = Some ix"
  shows "set fs =
      {\<lparr>relPath = MetaFilename, sizeBytes = 0\<rparr>, \<lparr>relPath = IndexFilename, sizeBytes = int (length ix)\<rparr>}
      \<union> (\<lambda>(n, d). \<lparr>relPath = ChunksDirname @ ''/'' @ n, sizeBytes = int (length d)\<rparr>) ` set cs"
  using assms by (auto simp: gatherFileStats_def)

text \<open>
  C4: an upload never exposes a partial block: started without a \<^verbatim>\<open>meta.json\<close> in the bucket, in every
  contents the bucket goes through, whichever operations fail and including the clean-up after a
  failure, a visible \<^verbatim>\<open>meta.json\<close> comes with the index and every chunk file with its data.
\<close>

theorem upload_order:
  assumes "lbId lb = Some i" and "lbChunks lb = Some cs" and "lbIndex lb = Some ix"
    and "distinct (map fst cs)" and "\<not> has_object (objects b) (metaName i)"
  shows "\<exists>new. trace (snd (upload flt chk lb b)) = new @ trace b \<and>
     (\<forall>c \<in> set new. has_object c (metaName i) \<longrightarrow>
        map_of c (indexName i) = Some (Raw ix)
        \<and> (\<forall>(n, d) \<in> set cs. map_of c (chunkName i n) = Some (Raw d)))"
proof -
  have inv: "uploadInv i cs ix (objects b) (objects b)" "noMeta i (objects b)"
    using assms(5) by (auto simp: uploadInv_def noMeta_def)
  from upload_as_objects [of lb i cs ix flt chk b, OF assms(1-3)]
  consider (obj) m where "upload flt chk lb b = uploadObjects flt i m cs ix b"
    | (early) "trace (snd (upload flt chk lb b)) = trace b" by force
  then show ?thesis
  proof cases
    case obj
    from runsD(3) [OF runs_uploadObjects [OF assms(4)] inv, of flt m] show ?thesis
      unfolding obj uploadInv_def completeBlock_def by blast
  next
    case early
    then show ?thesis by (intro exI [of _ "[]"]) simp
  qed
qed

text \<open>
  C8: when an upload returns no error the bucket holds the block: its index, all its chunk files and a
  \<^verbatim>\<open>meta.json\<close> whose file list names exactly the chunk files, the index and itself, with their sizes.
\<close>

theorem upload_complete:
  assumes "lbId lb = Some i" and "lbChunks lb = Some cs" and "lbIndex lb = Some ix"
    and "distinct (map fst cs)" and "\<not> has_object (objects b) (metaName i)"
    and "fst (upload flt chk lb b) = Inr ()"
  shows "\<exists>m. map_of (objects (snd (upload flt chk lb b))) (metaName i) = Some (MetaJSON m)
     \<and> set (files (thanos m)) =
         {\<lparr>relPath = MetaFilename, sizeBytes = 0\<rparr>,
          \<lparr>relPath = IndexFilename, sizeBytes = int (length ix)\<rparr>}
         \<union> (\<lambda>(n, d). \<lparr>relPath = ChunksDirname @ ''/'' @ n, sizeBytes = int (length d)\<rparr>) ` set cs
     \<and> map_of (objects (snd (upload flt chk lb b))) (indexName i) = Some (Raw ix)
     \<and> (\<forall>(n, d) \<in> set cs. map_of (objects (snd (upload flt chk lb b))) (chunkName i n) = Some (Raw d))"
proof -
  have inv: "uploadInv i cs ix (objects b) (objects b)" "noMeta i (objects b)"
    using assms(5) by (auto simp: uploadInv_def noMeta_def)
  from upload_as_objects [of lb i cs ix flt chk b, OF assms(1-3)] assms(6)
  obtain m where m: "upload flt chk lb b = uploadObjects flt i m cs ix b"
    and fs: "gatherFileStats lb = Some (files (thanos m))" by auto
  have "set (files (thanos m)) =
      {\<lparr>relPath = MetaFilename, sizeBytes = 0\<rparr>, \<lparr>relPath = IndexFilename, sizeBytes = int (length ix)\<rparr>}
      \<union> (\<lambda>(n, d). \<lparr>relPath = ChunksDirname @ ''/'' @ n, sizeBytes = int (length d)\<rparr>) ` set cs"
    using set_gatherFileStats [OF fs assms(2,3)] .
  moreover have "map_of (objects (snd (upload flt chk lb b))) (metaName i) = Some (MetaJSON m)"
    using runsD(2) [OF runs_uploadObjects [OF assms(4)] inv, of flt m] assms(6) m by simp
  moreover have "completeBlock i cs ix (objects (snd (upload flt chk lb b)))"
    using runsD(1) [OF runs_uploadObjects [OF assms(4)] inv, of flt m] calculation(2)
    unfolding m uploadInv_def has_object_def by auto
  ultimately show ?thesis unfolding completeBlock_def by blast
qed

lemma MarkForDeletion_effect:
  assumes "MarkForDeletion flt now i b = (r, b')"
  shows "map_of (objects b') n =
      (if n = deletionMarkName i \<and> \<not> has_object (objects b) n
          \<and> flt (opcount b) = NoFault \<and> flt (Suc (opcount b)) \<noteq> Fails
       then Some (DeletionMarkJSON \<lparr>dmID = i, dmVersion = 1, deletionTime = now\<rparr>)
       else map_of (objects b) n)"
  using assms
  by (auto simp: MarkForDeletion_def andThen_def bkt_exists_def bkt_upload_def map_of_put_object
      split: if_splits fault.splits prod.splits sum.splits)

text \<open>
  C11: after \<^verbatim>\<open>MarkForDeletion\<close> succeeds the block has a deletion mark; a mark that was there before is
  kept, a second call changes nothing, so the deletion delay counts from the first marking, and no
  other object is touched.
\<close>

theorem MarkForDeletion_idempotent:
  assumes "MarkForDeletion flt now i b = (Inr x, b')"
    and "MarkForDeletion flt' later i b' = (r, b'')"
  shows "(\<forall>n. n \<noteq> deletionMarkName i \<longrightarrow> map_of (objects b'') n = map_of (objects b) n)
     \<and> map_of (objects b'') (deletionMarkName i) = map_of (objects b') (deletionMarkName i)
     \<and> has_object (objects b') (deletionMarkName i)
     \<and> (has_object (objects b) (deletionMarkName i) \<longrightarrow>
          map_of (objects b') (deletionMarkName i) = map_of (objects b) (deletionMarkName i))"
proof -
  have "flt (opcount b) = NoFault" "has_object (objects b) (deletionMarkName i) \<or> flt (Suc (opcount b)) = NoFault"
    using assms(1) by (auto simp: MarkForDeletion_def andThen_def bkt_exists_def bkt_upload_def
        split: if_splits fault.splits prod.splits sum.splits)
  then have has: "has_object (objects b') (deletionMarkName i)"
    using MarkForDeletion_effect [OF assms(1), of "deletionMarkName i"]
    by (auto simp: has_object_def split: if_splits)
  have "map_of (objects b'') n = map_of (objects b') n" for n
    using MarkForDeletion_effect [OF assms(2), of n] has by auto
  moreover have "map_of (objects b') n = map_of (objects b) n"
    if "n \<noteq> deletionMarkName i \<or> has_object (objects b) n" for n
    using MarkForDeletion_effect [OF assms(1), of n] that by auto
  ultimately show ?thesis using has by simp
qed

theorem MarkForDeletion_idempotent_witness:
  "let b = sampleBucket\<lparr>objects := [(metaName 7, Raw ''m'')]\<rparr>;
       b' = snd (MarkForDeletion (\<lambda>_. NoFault) 100 7 b);
       b'' = snd (MarkForDeletion (\<lambda>_. NoFault) 200 7 b')
   in map_of (objects b'') (deletionMarkName 7) = map_of (objects b') (deletionMarkName 7)
      \<and> fst (readDeletionMark (\<lambda>_. NoFault) 7 b'') =
          Inr \<lparr>dmID = 7, dmVersion = 1, deletionTime = 100\<rparr>"
proof -
  let ?b = "sampleBucket\<lparr>objects := [(metaName 7, Raw ''m'')]\<rparr>"
  let ?b' = "snd (MarkForDeletion (\<lambda>_. NoFault) 100 7 ?b)"
  have 1: "MarkForDeletion (\<lambda>_. NoFault) 100 7 ?b = (Inr True, ?b')" by code_simp
  have 2: "MarkForDeletion (\<lambda>_. NoFault) 200 7 ?b' =
      (fst (MarkForDeletion (\<lambda>_. NoFault) 200 7 ?b'), snd (MarkForDeletion (\<lambda>_. NoFault) 200 7 ?b'))" by simp
  have 3: "fst (readDeletionMark (\<lambda>_. NoFault) 7 (snd (MarkForDeletion (\<lambda>_. NoFault) 200 7 ?b'))) =
      Inr \<lparr>dmID = 7, dmVersion = 1, deletionTime = 100\<rparr>" by code_simp
  show ?thesis unfolding Let_def using MarkForDeletion_idempotent [OF 1 2] 3 by blast
qed

lemma runs_MarkForNoCompact:
  "runs (\<lambda>c. \<forall>n. (\<forall>j. n \<noteq> noCompactMarkName j) \<longrightarrow> map_of c n = map_of o0 n) (\<lambda>_. True)
     (MarkForNoCompact flt i) (\<lambda>r c. (\<exists>x. r = Inr x) \<longrightarrow> has_object c (noCompactMarkName i))"
  by (auto simp: runs_def MarkForNoCompact_def andThen_def bkt_exists_def bkt_upload_def map_of_put_object
      split: if_splits fault.splits prod.splits sum.splits)

theorem upload_order_witness:
  "(\<exists>new. trace (snd (upload (faultAt 4) True sampleLocal sampleBucket)) = new @ trace sampleBucket \<and>
     (\<forall>c \<in> set new. has_object c (metaName 9) \<longrightarrow>
        map_of c (indexName 9) = Some (Raw ''idx'')
        \<and> (\<forall>(n, d) \<in> set [(''000001'', ''abc''), (''000002'', ''d'')].
              map_of c (chunkName 9 n) = Some (Raw d))))
   \<and> has_object (objects (snd (upload (faultAt 4) True sampleLocal sampleBucket))) (metaName 9)"
  by (rule conjI, rule upload_order) code_simp+

theorem upload_complete_witness:
  "map_of (objects (snd (upload (\<lambda>_. NoFault) True sampleLocal sampleBucket))) (indexName 9) = Some (Raw ''idx'')"
proof -
  have "lbId sampleLocal = Some 9" "lbChunks sampleLocal = Some [(''000001'', ''abc''), (''000002'', ''d'')]"
    "lbIndex sampleLocal = Some ''idx''" by code_simp+
  moreover have "distinct (map fst [(''000001'', ''abc''), (''000002'', ''d'')])" by simp
  moreover have "\<not> has_object (objects sampleBucket) (metaName 9)" by code_simp
  moreover have "fst (upload (\<lambda>_. NoFault) True sampleLocal sampleBucket) = Inr ()" by code_simp
  ultimately show ?thesis by (metis upload_complete)
qed

section \<open>Marking blocks\<close>

text \<open>
  \<open>marksOnly S o0 c\<close>: the contents \<open>c\<close> are \<open>o0\<close> with deletion marks added for blocks in \<open>S\<close>. Objects that
  were there, older marks included, are unchanged.
\<close>

lemma deletionMarkName_inj [simp]: "deletionMarkName i = deletionMarkName j \<longleftrightarrow> i = j"
  by (simp add: deletionMarkName_def)

lemma marksOnly_refl: "marksOnly S o0 o0"
  by (simp add: marksOnly_def)

lemma marksOnly_put:
  assumes "marksOnly S o0 c" and "i \<in> S" and "\<not> has_object c (deletionMarkName i)"
  shows "marksOnly S o0 (put_object (deletionMarkName i) x c)"
proof -
  have "\<not> has_object o0 (deletionMarkName i)"
    using assms(1,3) unfolding marksOnly_def has_object_def by metis
  then show ?thesis using assms(1,2) unfolding marksOnly_def map_of_put_object by auto
qed

lemma marksOnly_new:
  "marksOnly S o0 c \<Longrightarrow> has_object c (deletionMarkName i) \<Longrightarrow> \<not> has_object o0 (deletionMarkName i) \<Longrightarrow> i \<in> S"
  unfolding marksOnly_def has_object_def by (metis deletionMarkName_inj image_iff)

lemma marksOnly_same:
  "marksOnly S o0 c \<Longrightarrow> (\<And>i. n \<noteq> deletionMarkName i) \<Longrightarrow> map_of c n = map_of o0 n"
  unfolding marksOnly_def by blast

lemma runs_MarkForDeletion:
  assumes "i \<in> S"
  shows "runs (marksOnly S o0) (\<lambda>c. \<forall>j \<in> D. has_object c (deletionMarkName j))
     (MarkForDeletion flt now i)
     (\<lambda>r c. (\<forall>j \<in> D. has_object c (deletionMarkName j))
        \<and> ((\<exists>x. r = Inr x) \<longrightarrow> has_object c (deletionMarkName i)))"
  unfolding MarkForDeletion_def
proof (rule runs_andThen)
  let ?D = "\<lambda>c. \<forall>j \<in> D. has_object c (deletionMarkName j)"
  show "runs (marksOnly S o0) ?D (bkt_exists flt (deletionMarkName i))
      (\<lambda>r c. ?D c \<and> (\<forall>x. r = Inr x \<longrightarrow> x = has_object c (deletionMarkName i)))"
    by (rule runs_exists)
  fix ok :: bool
  let ?P = "\<lambda>c. ?D c \<and> (\<forall>x. (Inr ok :: bkt_error + bool) = Inr x \<longrightarrow> x = has_object c (deletionMarkName i))"
  let ?Q = "\<lambda>(r :: bkt_error + bool) c. ?D c \<and> ((\<exists>x. r = Inr x) \<longrightarrow> has_object c (deletionMarkName i))"
  show "runs (marksOnly S o0) ?P
     (\<lambda>b. if ok then (Inr False, b)
          else andThen (bkt_upload flt (deletionMarkName i)
              (DeletionMarkJSON \<lparr>dmID = i, dmVersion = 1, deletionTime = now\<rparr>) b)
              (\<lambda>_ b. (Inr True, b))) ?Q"
  proof (rule runs_if)
    assume ok
    then show "runs (marksOnly S o0) ?P (\<lambda>b. (Inr False, b)) ?Q"
      by (intro runs_return) blast
  next
    assume nok: "\<not> ok"
    show "runs (marksOnly S o0) ?P (\<lambda>b. andThen (bkt_upload flt (deletionMarkName i)
              (DeletionMarkJSON \<lparr>dmID = i, dmVersion = 1, deletionTime = now\<rparr>) b)
              (\<lambda>_ b. (Inr True, b))) ?Q"
    proof (rule runs_andThen)
      let ?m = "DeletionMarkJSON \<lparr>dmID = i, dmVersion = 1, deletionTime = now\<rparr>"
      show "runs (marksOnly S o0) ?P (bkt_upload flt (deletionMarkName i) ?m)
          (\<lambda>r c. ?D c \<and> ((\<exists>x. r = Inr x) \<longrightarrow> has_object c (deletionMarkName i)))"
      proof (rule runs_conseq [OF runs_upload [where P = ?P]])
        fix c
        assume inv: "marksOnly S o0 c" and "?P c"
        then have "\<not> has_object c (deletionMarkName i)" using nok by blast
        with inv assms show "marksOnly S o0 (put_object (deletionMarkName i) ?m c)"
          by (intro marksOnly_put)
      next
        fix r :: "bkt_error + unit" and c
        assume "\<exists>c0. ?P c0 \<and> (c = put_object (deletionMarkName i) ?m c0 \<or> r = Inl OpFailed \<and> c = c0)"
        then show "?D c \<and> ((\<exists>x. r = Inr x) \<longrightarrow> has_object c (deletionMarkName i))"
          by (elim exE conjE disjE) simp_all
      qed
    next
      fix x :: unit
      show "runs (marksOnly S o0)
         (\<lambda>c. ?D c \<and> ((\<exists>y. (Inr x :: bkt_error + unit) = Inr y) \<longrightarrow> has_object c (deletionMarkName i)))
         (\<lambda>b. (Inr True, b)) ?Q"
        by (rule runs_return) simp
    qed simp
  qed
qed simp

end
