(* ===== verification/Go_Time.thy ===== *)
theory Go_Time
  imports Prelude
begin

text \<open>
  The parts of Go's \<^verbatim>\<open>time\<close> package that decide how old a deletion mark is: \<^verbatim>\<open>time.Since\<close>, which
  saturates, and \<^verbatim>\<open>Duration.Seconds\<close>, which computes in \<^verbatim>\<open>float64\<close>. Durations and times are in
  nanoseconds.
\<close>

section \<open>Definitions\<close>

definition Since :: "int \<Rightarrow> int \<Rightarrow> int" where
  "Since now t = max MinInt64 (min MaxInt64 (now - t))"

text \<open>
  The doubles that occur are multiples of \<open>2^-96\<close> and are represented by that multiple. A quotient
  \<open>r / 10^9\<close> is rounded from its integer part on that scale, whose last bit is set when anything is
  left over: it has at least 66 bits, so that this bit only breaks ties.
\<close>

definition quotient :: "int \<Rightarrow> int" where
  "quotient r =
     2 * (r * 2 ^ 95 div 1000000000) + (if r * 2 ^ 95 mod 1000000000 = 0 then 0 else 1)"

definition secondsAbs :: "int \<Rightarrow> int" where
  "secondsAbs n = round53 (n div 1000000000 * 2 ^ 96 + round53 (quotient (n mod 1000000000)))"

definition Seconds :: "int \<Rightarrow> int" where
  "Seconds d = (if d < 0 then - secondsAbs (- d) else secondsAbs d)"

section \<open>Rounding to 53 bits\<close>

lemma bitLen_lower: "0 < n \<Longrightarrow> 0 < bitLen n \<and> 2 ^ (bitLen n - 1) \<le> n"
proof (induction n rule: bitLen.induct)
  case (1 n)
  have bl: "bitLen n = Suc (bitLen (n div 2))" using "1.prems" by (simp add: bitLen.simps [of n])
  show ?case
  proof (cases "n = 1")
    case True
    then show ?thesis by (simp add: bitLen.simps)
  next
    case False
    then have "0 < n div 2" using "1.prems" by auto
    with "1.IH" "1.prems" have IH: "0 < bitLen (n div 2)" "2 ^ (bitLen (n div 2) - 1) \<le> n div 2" by auto
    then have "(2 :: int) ^ bitLen (n div 2) = 2 * 2 ^ (bitLen (n div 2) - 1)"
      by (metis Suc_pred' power_Suc)
    then show ?thesis using IH(2) by (simp add: bl)
  qed
qed

lemma bitLen_upper: "n < 2 ^ bitLen n"
proof (induction n rule: bitLen.induct)
  case (1 n)
  show ?case
  proof (cases "n \<le> 0")
    case True
    then show ?thesis by (simp add: order.strict_trans1)
  next
    case False
    then have "n div 2 < 2 ^ bitLen (n div 2)" using "1.IH" by blast
    then have "n < 2 * 2 ^ bitLen (n div 2)" by simp
    then show ?thesis using False by (simp add: bitLen.simps [of n])
  qed
qed

lemma bitLen_mono: "m \<le> n \<Longrightarrow> bitLen m \<le> bitLen n"
  using bitLen_le [of m "bitLen n"] bitLen_upper [of n] by simp

text \<open>Rounding to a multiple of \<open>2^k\<close>, to nearest with ties to even.\<close>

definition roundTo :: "nat \<Rightarrow> int \<Rightarrow> int" where
  "roundTo k n =
     (let q = n div 2 ^ k; r = n mod 2 ^ k
      in if 2 * r < 2 ^ k \<or> 2 * r = 2 ^ k \<and> even q then q * 2 ^ k else (q + 1) * 2 ^ k)"

lemma round53_roundTo: "round53 n = roundTo (bitLen n - 53) n"
  by (auto simp: round53_def roundTo_def Let_def)

lemma roundTo_near:
  shows "roundTo k n = n div 2 ^ k * 2 ^ k \<or> roundTo k n = (n div 2 ^ k + 1) * 2 ^ k"
    and "2 * \<bar>roundTo k n - n\<bar> \<le> 2 ^ k"
proof -
  show "roundTo k n = n div 2 ^ k * 2 ^ k \<or> roundTo k n = (n div 2 ^ k + 1) * 2 ^ k"
    by (auto simp: roundTo_def Let_def)
  define q r where "q = n div 2 ^ k" and "r = n mod 2 ^ k"
  have n: "n = q * 2 ^ k + r" "0 \<le> r" "r < 2 ^ k"
    unfolding q_def r_def using div_mult_mod_eq [of n "2 ^ k"] by simp_all
  show "2 * \<bar>roundTo k n - n\<bar> \<le> 2 ^ k"
    unfolding roundTo_def Let_def q_def [symmetric] r_def [symmetric]
    using n by (auto simp: algebra_simps)
qed

lemma roundTo_mono:
  assumes "m \<le> n"
  shows "roundTo k m \<le> roundTo k n"
proof -
  have q: "m div 2 ^ k \<le> n div 2 ^ k" using assms by (simp add: zdiv_mono1)
  show ?thesis
  proof (cases "m div 2 ^ k = n div 2 ^ k")
    case True
    then have "m mod 2 ^ k \<le> n mod 2 ^ k"
      using assms by (simp add: minus_div_mult_eq_mod [symmetric])
    then show ?thesis using True by (auto simp: roundTo_def Let_def)
  next
    case False
    then have "m div 2 ^ k + 1 \<le> n div 2 ^ k" using q by simp
    then have "(m div 2 ^ k + 1) * 2 ^ k \<le> n div 2 ^ k * 2 ^ k" by (intro mult_right_mono) simp_all
    moreover have "roundTo k m \<le> (m div 2 ^ k + 1) * 2 ^ k"
      using roundTo_near(1) [of k m] by (auto simp: algebra_simps)
    moreover have "n div 2 ^ k * 2 ^ k \<le> roundTo k n"
      using roundTo_near(1) [of k n] by (auto simp: algebra_simps)
    ultimately show ?thesis by linarith
  qed
qed

lemma roundTo_exact: "2 ^ k dvd n \<Longrightarrow> roundTo k n = n"
  by (simp add: roundTo_def Let_def)

lemma round53_exact:
  assumes "0 \<le> m" and "m \<le> 2 ^ 53"
  shows "round53 (m * 2 ^ j) = m * 2 ^ j"
proof (cases "m = 2 ^ 53")
  case True
  then have "m * 2 ^ j = 1 * 2 ^ (53 + j)" by (simp add: power_add)
  moreover have "bitLen (2 ^ (53 + j)) \<le> Suc (53 + j)" by (rule bitLen_le) simp
  then have "bitLen (2 ^ (53 + j)) - 53 \<le> 53 + j" by simp
  then have "(2 :: int) ^ (bitLen (2 ^ (53 + j)) - 53) dvd 2 ^ (53 + j)" by (rule le_imp_power_dvd)
  ultimately show ?thesis by (simp add: round53_roundTo roundTo_exact)
next
  case False
  then have "m * 2 ^ j < 2 ^ 53 * 2 ^ j" using assms by (intro mult_strict_right_mono) auto
  then have "bitLen (m * 2 ^ j) \<le> 53 + j" by (intro bitLen_le) (simp add: power_add)
  then have "(2 :: int) ^ (bitLen (m * 2 ^ j) - 53) dvd 2 ^ j" by (intro le_imp_power_dvd) simp
  then show ?thesis by (simp add: round53_roundTo roundTo_exact)
qed

lemma round53_mono:
  assumes "m \<le> n"
  shows "round53 m \<le> round53 n"
proof (cases "bitLen m = bitLen n")
  case True
  then show ?thesis using roundTo_mono [OF assms] by (simp add: round53_roundTo)
next
  case False
  then have lt: "bitLen m < bitLen n" using bitLen_mono [OF assms] by simp
  define L where "L = bitLen n - 1"
  have n0: "0 < n" using lt by (cases "n \<le> 0") (simp_all add: bitLen.simps [of n])
  then have up: "2 ^ L \<le> n" using bitLen_lower by (simp add: L_def)
  have low: "m < 2 ^ L"
  proof -
    have "(2 :: int) ^ bitLen m \<le> 2 ^ L" using lt by (intro power_increasing) (simp_all add: L_def)
    with bitLen_upper [of m] show ?thesis by (rule less_le_trans)
  qed
  have pw: "round53 (2 ^ L) = 2 ^ L" using round53_exact [of 1 L] by simp
  have "roundTo (bitLen m - 53) m \<le> 2 ^ L"
  proof -
    have "bitLen m - 53 \<le> L" using lt by (simp add: L_def)
    then have "roundTo (bitLen m - 53) (2 ^ L) = 2 ^ L" by (intro roundTo_exact le_imp_power_dvd)
    then show ?thesis using roundTo_mono [of m "2 ^ L" "bitLen m - 53"] low by simp
  qed
  moreover have "2 ^ L \<le> roundTo (bitLen n - 53) n"
  proof -
    have "bitLen n - 53 \<le> L" by (simp add: L_def)
    then have "roundTo (bitLen n - 53) (2 ^ L) = 2 ^ L" by (intro roundTo_exact le_imp_power_dvd)
    then show ?thesis using roundTo_mono [OF up, of "bitLen n - 53"] by simp
  qed
  ultimately show ?thesis by (simp add: round53_roundTo)
qed

lemma round53_error:
  assumes "n < 2 ^ (Suc k + 53)"
  shows "\<bar>round53 n - n\<bar> \<le> 2 ^ k"
proof -
  have "bitLen n - 53 \<le> Suc k" using bitLen_le [OF assms] by simp
  then have "(2 :: int) ^ (bitLen n - 53) \<le> 2 ^ Suc k" by (intro power_increasing) simp_all
  then show ?thesis using roundTo_near(2) [of "bitLen n - 53" n] by (simp add: round53_roundTo)
qed

section \<open>Seconds of a duration\<close>

lemma quotient_mono:
  assumes "r \<le> s"
  shows "quotient r \<le> quotient s"
proof -
  let ?f = "\<lambda>x :: int. x * 2 ^ 95 div 1000000000"
  have f: "?f r \<le> ?f s" using assms by (intro zdiv_mono1) simp_all
  show ?thesis
  proof (cases "?f r = ?f s")
    case True
    have "r * 2 ^ 95 mod 1000000000 \<le> s * 2 ^ 95 mod 1000000000"
      using assms True by (simp add: minus_div_mult_eq_mod [symmetric])
    moreover have "0 \<le> r * 2 ^ 95 mod 1000000000" by simp
    ultimately have "s * 2 ^ 95 mod 1000000000 = 0 \<longrightarrow> r * 2 ^ 95 mod 1000000000 = 0" by linarith
    then show ?thesis using True by (simp add: quotient_def)
  next
    case False
    then have "?f r + 1 \<le> ?f s" using f by simp
    then show ?thesis by (auto simp: quotient_def)
  qed
qed

lemma quotient_bounds:
  assumes "0 \<le> r" and "r < 1000000000"
  shows "0 \<le> quotient r" and "quotient r < 2 ^ 96"
    and "\<bar>quotient r * 1000000000 - r * 2 ^ 96\<bar> \<le> 2000000000"
proof -
  define q m where "q = r * 2 ^ 95 div 1000000000" and "m = r * 2 ^ 95 mod 1000000000"
  have e: "r * 2 ^ 95 = q * 1000000000 + m"
    unfolding q_def m_def by (rule div_mult_mod_eq [symmetric])
  have m: "0 \<le> m" "m < 1000000000" unfolding m_def by simp_all
  have "r * 2 ^ 95 < 1000000000 * 2 ^ 95" using assms(2) by simp
  then have "q < 2 ^ 95" unfolding q_def by (simp add: div_less_iff_less_mult)
  moreover have "0 \<le> q" unfolding q_def using assms(1) by (intro pos_imp_zdiv_nonneg_iff [THEN iffD2]) simp_all
  moreover have qt: "quotient r = 2 * q + (if m = 0 then 0 else 1)" by (simp add: quotient_def q_def m_def)
  ultimately show "0 \<le> quotient r" and "quotient r < 2 ^ 96" by auto
  have "r * 2 ^ 96 = 2 * (q * 1000000000 + m)" using e by simp
  then show "\<bar>quotient r * 1000000000 - r * 2 ^ 96\<bar> \<le> 2000000000" using m by (auto simp: qt)
qed

lemma fraction_bounds:
  assumes "0 \<le> r" and "r < 1000000000"
  shows "0 \<le> round53 (quotient r)" and "round53 (quotient r) \<le> 2 ^ 96"
    and "\<bar>round53 (quotient r) * 1000000000 - r * 2 ^ 96\<bar> \<le> 2 ^ 43 * 1000000000"
proof -
  note b = quotient_bounds [OF assms]
  show "0 \<le> round53 (quotient r)" using round53_mono [OF b(1)] by simp
  have "round53 (2 ^ 96) = 2 ^ 96" using round53_exact [of 1 96] by simp
  then show "round53 (quotient r) \<le> 2 ^ 96" using round53_mono [of "quotient r" "2 ^ 96"] b(2) by simp
  have "\<bar>round53 (quotient r) - quotient r\<bar> \<le> 2 ^ 42" using b(2) by (intro round53_error) simp
  then show "\<bar>round53 (quotient r) * 1000000000 - r * 2 ^ 96\<bar> \<le> 2 ^ 43 * 1000000000"
    using b(3) by (simp add: abs_le_iff)
qed

lemma secondsAbs_mono:
  assumes "0 \<le> m" and "m \<le> n"
  shows "secondsAbs m \<le> secondsAbs n"
proof -
  have m: "0 \<le> m mod 1000000000" "m mod 1000000000 < 1000000000"
    and n: "0 \<le> n mod 1000000000" "n mod 1000000000 < 1000000000" by simp_all
  have d: "m div 1000000000 \<le> n div 1000000000" using assms by (simp add: zdiv_mono1)
  have "m div 1000000000 * 2 ^ 96 + round53 (quotient (m mod 1000000000))
      \<le> n div 1000000000 * 2 ^ 96 + round53 (quotient (n mod 1000000000))"
  proof (cases "m div 1000000000 = n div 1000000000")
    case True
    then have "m mod 1000000000 \<le> n mod 1000000000"
      using assms by (simp add: minus_div_mult_eq_mod [symmetric])
    then show ?thesis using True by (simp add: round53_mono quotient_mono)
  next
    case False
    then have "m div 1000000000 + 1 \<le> n div 1000000000" using d by simp
    then have "(m div 1000000000 + 1) * 2 ^ 96 \<le> n div 1000000000 * 2 ^ 96" by (rule mult_right_mono) simp
    then show ?thesis
      using fraction_bounds(2) [OF m] fraction_bounds(1) [OF n] unfolding distrib_right by linarith
  qed
  then show ?thesis unfolding secondsAbs_def by (rule round53_mono)
qed

lemma secondsAbs_nonneg: "0 \<le> n \<Longrightarrow> 0 \<le> secondsAbs n"
proof -
  have "secondsAbs 0 = 0" by (simp add: secondsAbs_def quotient_def)
  then show "0 \<le> n \<Longrightarrow> ?thesis" using secondsAbs_mono [of 0 n] by simp
qed

lemma Seconds_mono: "c \<le> d \<Longrightarrow> Seconds c \<le> Seconds d"
  using secondsAbs_mono [of "- d" "- c"] secondsAbs_mono [of c d] secondsAbs_nonneg [of "- c"]
    secondsAbs_nonneg [of d]
  by (auto simp: Seconds_def)

text \<open>Within the range of a duration, \<^verbatim>\<open>Seconds\<close> is off by about a microsecond at most.\<close>

lemma secondsAbs_error:
  assumes "0 \<le> n" and "n \<le> 2 ^ 63"
  shows "\<bar>secondsAbs n * 1000000000 - n * 2 ^ 96\<bar> \<le> (2 ^ 76 + 2 ^ 43) * 1000000000"
proof -
  define s r where "s = n div 1000000000" and "r = n mod 1000000000"
  have n: "n = s * 1000000000 + r" "0 \<le> r" "r < 1000000000" unfolding s_def r_def by simp_all
  note f = fraction_bounds [OF n(2,3)]
  have "s < 2 ^ 34 - 1" using n assms(2) by simp
  then have "s * 2 ^ 96 + round53 (quotient r) < 2 ^ (Suc 76 + 53)" using f(2) by simp
  then have "\<bar>round53 (s * 2 ^ 96 + round53 (quotient r)) - (s * 2 ^ 96 + round53 (quotient r))\<bar> \<le> 2 ^ 76"
    by (rule round53_error)
  then have "\<bar>secondsAbs n - (s * 2 ^ 96 + round53 (quotient r))\<bar> \<le> 2 ^ 76"
    by (simp add: secondsAbs_def s_def r_def)
  then show ?thesis using f(3) n(1) by (simp add: abs_le_iff)
qed

lemma Seconds_error:
  assumes "MinInt64 \<le> d" and "d \<le> MaxInt64"
  shows "\<bar>Seconds d * 1000000000 - d * 2 ^ 96\<bar> \<le> (2 ^ 76 + 2 ^ 43) * 1000000000"
proof (cases "d < 0")
  case True
  then have "\<bar>secondsAbs (- d) * 1000000000 - (- d) * 2 ^ 96\<bar> \<le> (2 ^ 76 + 2 ^ 43) * 1000000000"
    using assms(1) by (intro secondsAbs_error) (simp_all add: MinInt64_def)
  then show ?thesis using True by (simp add: Seconds_def abs_le_iff)
next
  case False
  then show ?thesis using secondsAbs_error [of d] assms(2) by (simp add: Seconds_def MaxInt64_def)
qed

text \<open>
  A comparison of ages in seconds never takes the smaller for the greater, and tells apart ages that
  differ by three microseconds.
\<close>

lemma Seconds_less: "Seconds c < Seconds d \<Longrightarrow> c < d"
  using Seconds_mono [of d c] by linarith

lemma Seconds_strict:
  assumes "MinInt64 \<le> c" and "d \<le> MaxInt64" and "c + 3000 \<le> d"
  shows "Seconds c < Seconds d"
proof -
  have "\<bar>Seconds c * 1000000000 - c * 2 ^ 96\<bar> \<le> (2 ^ 76 + 2 ^ 43) * 1000000000"
    "\<bar>Seconds d * 1000000000 - d * 2 ^ 96\<bar> \<le> (2 ^ 76 + 2 ^ 43) * 1000000000"
    using assms by (intro Seconds_error; simp)+
  moreover have "(c + 3000) * 2 ^ 96 \<le> d * 2 ^ 96" using assms(3) by simp
  ultimately have "Seconds c * 1000000000 < Seconds d * 1000000000" by (simp add: abs_le_iff)
  then show ?thesis by simp
qed

lemma Since_exceeds:
  assumes "MinInt64 \<le> delay" and "delay + 3000 \<le> MaxInt64"
  shows "now - t \<le> delay \<Longrightarrow> \<not> Seconds (Since now t) > Seconds delay"
    and "now - t \<ge> delay + 3000 \<Longrightarrow> Seconds (Since now t) > Seconds delay"
proof -
  show "\<not> Seconds (Since now t) > Seconds delay" if "now - t \<le> delay"
  proof -
    have "Since now t \<le> delay" using that assms by (simp add: Since_def)
    then show ?thesis using Seconds_less by (meson not_less)
  qed
  show "Seconds (Since now t) > Seconds delay" if "now - t \<ge> delay + 3000"
    using that assms by (intro Seconds_strict) (auto simp: Since_def MinInt64_def MaxInt64_def)
qed

end
