(* ===== verification/Meta_Fetcher.thy ===== *)
theory Meta_Fetcher
  imports Dedup_Filter Block_Safety Go_Time
begin

text \<open>
  The synchronisation of block metadata with the bucket (\<^verbatim>\<open>pkg/block/fetcher.go\<close>): loading every
  \<^verbatim>\<open>meta.json\<close> through the in-memory and on-disk caches, and the filters and modifiers that run over
  the loaded metadata. The workers of the sources only interleave reads of different blocks; the
  model visits the blocks one after another.
\<close>

section \<open>Loading one block\<close>

text \<open>
  The disk cache maps a block to what \<^verbatim>\<open>ReadFromDir\<close> makes of its cached directory: \<open>Some None\<close> for a
  directory that cannot be read. Writes to the local disk are taken to succeed.
\<close>

record base_fetcher =
  cached :: meta_map
  cacheDir :: "(ulid \<rightharpoonup> meta option) option"

datatype meta_error =
  ErrorSyncMetaNotFound | ErrorSyncMetaCorrupted | MetaBucket bkt_error | UnexpectedVersion int

definition diskRead :: "base_fetcher \<Rightarrow> ulid \<Rightarrow> meta option" where
  "diskRead f i = (case cacheDir f of None \<Rightarrow> None | Some d \<Rightarrow> (case d i of Some (Some m) \<Rightarrow> Some m | _ \<Rightarrow> None))"

definition diskRemove :: "ulid \<Rightarrow> base_fetcher \<Rightarrow> base_fetcher" where
  "diskRemove i f = f\<lparr>cacheDir := map_option (\<lambda>d. d(i := None)) (cacheDir f)\<rparr>"

definition diskWrite :: "ulid \<Rightarrow> meta \<Rightarrow> base_fetcher \<Rightarrow> base_fetcher" where
  "diskWrite i m f = f\<lparr>cacheDir := map_option (\<lambda>d. d(i \<mapsto> Some m)) (cacheDir f)\<rparr>"

definition loadMeta ::
  "faults \<Rightarrow> ulid \<Rightarrow> base_fetcher \<times> bucket \<Rightarrow> (meta_error + meta) \<times> base_fetcher \<times> bucket" where
  "loadMeta flt i st =
     (case st of (f, b) \<Rightarrow>
     (case bkt_exists flt (metaName i) b of
        (Inl e, b) \<Rightarrow> (Inl (MetaBucket e), f, b)
      | (Inr False, b) \<Rightarrow> (Inl ErrorSyncMetaNotFound, f, b)
      | (Inr True, b) \<Rightarrow>
          (case map_of (cached f) i of
             Some m \<Rightarrow> (Inr m, f, b)
           | None \<Rightarrow>
               (case diskRead f i of
                  Some m \<Rightarrow> (Inr m, f, b)
                | None \<Rightarrow>
                    let f = diskRemove i f
                    in case bkt_get flt (metaName i) b of
                         (Inl NotFound, b) \<Rightarrow> (Inl ErrorSyncMetaNotFound, f, b)
                       | (Inl e, b) \<Rightarrow> (Inl (MetaBucket e), f, b)
                       | (Inr (MetaJSON m), b) \<Rightarrow>
                           if metaVersion m \<noteq> 1 then (Inl (UnexpectedVersion (metaVersion m)), f, b)
                           else (Inr m, diskWrite i m f, b)
                       | (Inr _, b) \<Rightarrow> (Inl ErrorSyncMetaCorrupted, f, b)))))"

section \<open>Loading all blocks\<close>

record response =
  metas :: meta_map
  partial :: "(ulid \<times> meta_error) list"
  metaErrs :: "meta_error list"

definition blockIDs :: "entry list \<Rightarrow> ulid list" where
  "blockIDs es = List.map_filter (\<lambda>e. case e of EDir [Id i] \<Rightarrow> Some i | EFile [Id i] \<Rightarrow> Some i | _ \<Rightarrow> None) es"

definition addLoaded :: "ulid \<Rightarrow> meta_error + meta \<Rightarrow> response \<Rightarrow> response" where
  "addLoaded i r resp =
     (case r of
        Inr m \<Rightarrow> resp\<lparr>metas := delete_meta i (metas resp) @ [(i, m)]\<rparr>
      | Inl e \<Rightarrow>
          if e = ErrorSyncMetaNotFound \<or> e = ErrorSyncMetaCorrupted
          then resp\<lparr>partial := filter (\<lambda>(j, _). j \<noteq> i) (partial resp) @ [(i, e)]\<rparr>
          else resp\<lparr>metaErrs := metaErrs resp @ [e]\<rparr>)"

fun loadAll ::
  "faults \<Rightarrow> ulid list \<Rightarrow> response \<Rightarrow> base_fetcher \<times> bucket \<Rightarrow> response \<times> base_fetcher \<times> bucket" where
  "loadAll flt [] resp st = (resp, st)"
| "loadAll flt (i # is) resp st =
     (case loadMeta flt i st of (r, st) \<Rightarrow> loadAll flt is (addLoaded i r resp) st)"

definition fetchMetadata ::
  "faults \<Rightarrow> base_fetcher \<times> bucket \<Rightarrow> (bkt_error + response) \<times> base_fetcher \<times> bucket" where
  "fetchMetadata flt st =
     (case st of (f, b) \<Rightarrow>
     (case bkt_iter flt [] b of
        (Inl e, b) \<Rightarrow> (Inl e, f, b)
      | (Inr es, b) \<Rightarrow>
          (case loadAll flt (blockIDs es) \<lparr>metas = [], partial = [], metaErrs = []\<rparr> (f, b) of
             (resp, f, b) \<Rightarrow>
               if metaErrs resp \<noteq> [] then (Inr resp, f, b)
               else (Inr resp,
                     f\<lparr>cached := metas resp,
                       cacheDir := map_option (\<lambda>d. d |` (fst ` set (metas resp))) (cacheDir f)\<rparr>,
                     b))))"

section \<open>Filters and modifiers\<close>

datatype fetch_error = IterBucket bkt_error | FilterMetas marker_error | IncompleteView "meta_error list"

type_synonym metadata_filter = "meta_map \<Rightarrow> bucket \<Rightarrow> (marker_error + meta_map) \<times> bucket"

fun runFilters :: "metadata_filter list \<Rightarrow> metadata_filter" where
  "runFilters [] ms b = (Inr ms, b)"
| "runFilters (fl # fls) ms b = andThen (fl ms b) (\<lambda>ms b. runFilters fls ms b)"

text \<open>
  The maps of a response and of the fetcher's cache hold pointers to the same metadata, and modifiers
  change it in place: what they make of a block is what the cache holds of it from then on.
\<close>

definition writeBack :: "meta_map \<Rightarrow> base_fetcher \<Rightarrow> base_fetcher" where
  "writeBack ms f =
     f\<lparr>cached := map (\<lambda>(i, m). (i, case map_of ms i of Some m' \<Rightarrow> m' | None \<Rightarrow> m)) (cached f)\<rparr>"

definition fetch ::
  "faults \<Rightarrow> metadata_filter list \<Rightarrow> (meta_map \<Rightarrow> meta_map) list \<Rightarrow> base_fetcher \<times> bucket
     \<Rightarrow> (meta_map \<times> (ulid \<times> meta_error) list \<times> fetch_error option) \<times> base_fetcher \<times> bucket" where
  "fetch flt fls modifiers st =
     (case fetchMetadata flt st of
        (Inl e, st) \<Rightarrow> (([], [], Some (IterBucket e)), st)
      | (Inr resp, f, b) \<Rightarrow>
          (case runFilters fls (metas resp) b of
             (Inl e, b) \<Rightarrow> (([], [], Some (FilterMetas e)), f, b)
           | (Inr ms, b) \<Rightarrow>
               let ms = fold (\<lambda>md ms. md ms) modifiers ms
               in ((ms, partial resp,
                    if metaErrs resp \<noteq> [] then Some (IncompleteView (metaErrs resp)) else None),
                   writeBack ms f, b)))"

definition timePartitionFilter :: "int \<Rightarrow> int \<Rightarrow> metadata_filter" where
  "timePartitionFilter mint maxt ms b =
     (Inr (filter (\<lambda>(_, m). maxTime m \<ge> mint \<and> minTime m \<le> maxt) ms), b)"

text \<open>The relabelling of the Prometheus library and the text form of a ULID are parameters.\<close>

definition labelShardedFilter :: "(labels \<Rightarrow> labels) \<Rightarrow> (ulid \<Rightarrow> string) \<Rightarrow> metadata_filter" where
  "labelShardedFilter process idString ms b =
     (Inr (filter (\<lambda>(i, m). process ((''__block_id'', idString i) # extLabels (thanos m)) \<noteq> []) ms), b)"

definition deduplicateFilter :: metadata_filter where
  "deduplicateFilter ms b = (Inr (fst (dedupFilter ms)), b)"

text \<open>\<^verbatim>\<open>ulid.Now()-id.Time() < delay\<close> on 64-bit unsigned milliseconds.\<close>

definition tooFresh :: "64 word \<Rightarrow> 64 word \<Rightarrow> ulid \<Rightarrow> meta \<Rightarrow> bool" where
  "tooFresh now delay i m \<longleftrightarrow>
     now - ulid_time i < delay
     \<and> source (thanos m) \<noteq> BucketRepairSource
     \<and> source (thanos m) \<noteq> CompactorSource
     \<and> source (thanos m) \<noteq> CompactorRepairSource"

definition consistencyDelayFilter :: "64 word \<Rightarrow> 64 word \<Rightarrow> metadata_filter" where
  "consistencyDelayFilter now delay ms b =
     (Inr (filter (\<lambda>(i, m). \<not> tooFresh now delay i m) ms), b)"

fun gatherMarkers ::
  "(ulid \<Rightarrow> bucket \<Rightarrow> (marker_error + 'm) \<times> bucket) \<Rightarrow> ulid list \<Rightarrow> marker_error option
     \<Rightarrow> (ulid \<times> 'm) list \<Rightarrow> bucket \<Rightarrow> (marker_error option \<times> (ulid \<times> 'm) list) \<times> bucket" where
  "gatherMarkers read [] lastErr marks b = ((lastErr, marks), b)"
| "gatherMarkers read (i # is) lastErr marks b =
     (case read i b of
        (Inr m, b) \<Rightarrow> gatherMarkers read is lastErr (marks @ [(i, m)]) b
      | (Inl MarkerNotFound, b) \<Rightarrow> gatherMarkers read is lastErr marks b
      | (Inl UnmarshalMarker, b) \<Rightarrow> gatherMarkers read is lastErr marks b
      | (Inl e, b) \<Rightarrow> gatherMarkers read is (Some e) marks b)"

text \<open>
  The age of a mark against the delay, both as \<^verbatim>\<open>float64\<close> seconds. Times are in nanoseconds; the
  deletion time of a mark is in seconds.
\<close>

definition expired :: "int \<Rightarrow> int \<Rightarrow> deletion_mark \<Rightarrow> bool" where
  "expired now delay mk \<longleftrightarrow> Seconds (Since now (deletionTime mk * 1000000000)) > Seconds delay"

definition ignoreDeletionMarkFilter ::
  "faults \<Rightarrow> int \<Rightarrow> int \<Rightarrow> meta_map \<Rightarrow> bucket
     \<Rightarrow> (marker_error + meta_map \<times> (ulid \<times> deletion_mark) list) \<times> bucket" where
  "ignoreDeletionMarkFilter flt now delay ms b =
     (case gatherMarkers (readDeletionMark flt) (map fst ms) None [] b of
        ((Some e, _), b) \<Rightarrow> (Inl e, b)
      | ((None, marks), b) \<Rightarrow>
          (Inr (filter (\<lambda>(i, _). \<not> (case map_of marks i of None \<Rightarrow> False | Some mk \<Rightarrow> expired now delay mk)) ms,
                marks), b))"

definition gatherNoCompactMarkFilter ::
  "faults \<Rightarrow> meta_map \<Rightarrow> bucket
     \<Rightarrow> (marker_error + meta_map \<times> (ulid \<times> no_compact_mark) list) \<times> bucket" where
  "gatherNoCompactMarkFilter flt ms b =
     (case gatherMarkers (readNoCompactMark flt) (map fst ms) None [] b of
        ((Some e, _), b) \<Rightarrow> (Inl e, b)
      | ((None, marks), b) \<Rightarrow> (Inr (ms, marks), b))"

definition removeReplicaLabels :: "string list \<Rightarrow> labels \<Rightarrow> labels" where
  "removeReplicaLabels replicaLabels l =
     (let l = filter (\<lambda>(n, _). n \<notin> set replicaLabels) l
      in if l = [] then [(hd replicaLabels, ''deduped'')] else l)"

definition replicaLabelRemover :: "string list \<Rightarrow> meta_map \<Rightarrow> meta_map" where
  "replicaLabelRemover replicaLabels ms =
     (if replicaLabels = [] then ms
      else map (\<lambda>(i, m). (i, m\<lparr>thanos := (thanos m)\<lparr>extLabels :=
                   removeReplicaLabels replicaLabels (extLabels (thanos m))\<rparr>\<rparr>)) ms)"

section \<open>Specification vocabulary\<close>

text \<open>
  Cached copies that agree with the bucket (\<^verbatim>\<open>meta.json\<close> files are never rewritten), and copies that
  agree with it except for their external labels.
\<close>

definition stored :: "contents \<Rightarrow> ulid \<Rightarrow> meta \<Rightarrow> bool" where
  "stored c i m \<longleftrightarrow> map_of c (metaName i) = Some (MetaJSON m) \<and> metaVersion m = 1"

definition coherentBy :: "(meta \<Rightarrow> meta \<Rightarrow> bool) \<Rightarrow> base_fetcher \<Rightarrow> contents \<Rightarrow> bool" where
  "coherentBy agree f c \<longleftrightarrow>
     (\<forall>i m. map_of (cached f) i = Some m \<or> diskRead f i = Some m \<longrightarrow>
        has_object c (metaName i) \<longrightarrow> (\<exists>m'. stored c i m' \<and> agree m m'))"

definition coherent :: "base_fetcher \<Rightarrow> contents \<Rightarrow> bool" where
  "coherent f c \<longleftrightarrow> coherentBy (=) f c"

definition sameButLabels :: "meta \<Rightarrow> meta \<Rightarrow> bool" where
  "sameButLabels m m' \<longleftrightarrow>
     m\<lparr>thanos := (thanos m)\<lparr>extLabels := []\<rparr>\<rparr> = m'\<lparr>thanos := (thanos m')\<lparr>extLabels := []\<rparr>\<rparr>"

definition hasDeletionMark :: "contents \<Rightarrow> ulid \<Rightarrow> deletion_mark \<Rightarrow> bool" where
  "hasDeletionMark c i m \<longleftrightarrow> map_of c (deletionMarkName i) = Some (DeletionMarkJSON m) \<and> dmVersion m = 1"

definition hasNoCompactMark :: "contents \<Rightarrow> ulid \<Rightarrow> no_compact_mark \<Rightarrow> bool" where
  "hasNoCompactMark c i m \<longleftrightarrow> map_of c (noCompactMarkName i) = Some (NoCompactMarkJSON m) \<and> ncVersion m = 1"

definition markedBucket :: bucket where
  "markedBucket =
     \<lparr>objects = [(metaName 1, MetaJSON (rawBlock 1 0 10)),
                 (deletionMarkName 1, DeletionMarkJSON \<lparr>dmID = 1, dmVersion = 1, deletionTime = 100\<rparr>),
                 (metaName 2, MetaJSON (rawBlock 2 10 20)),
                 (deletionMarkName 2, DeletionMarkJSON \<lparr>dmID = 2, dmVersion = 1, deletionTime = 900\<rparr>),
                 (metaName 3, MetaJSON (rawBlock 3 20 30)), (indexName 4, Raw ''i'')],
      opcount = 0, trace = []\<rparr>"

definition replicaBucket :: bucket where
  "replicaBucket =
     \<lparr>objects = [(metaName 1, MetaJSON ((rawBlock 1 0 10)\<lparr>thanos := (thanos (rawBlock 1 0 10))
                    \<lparr>extLabels := [(''cluster'', ''a''), (''replica'', ''1'')]\<rparr>\<rparr>))],
      opcount = 0, trace = []\<rparr>"

definition emptyFetcher :: base_fetcher where
  "emptyFetcher = \<lparr>cached = [], cacheDir = Some Map.empty\<rparr>"

section \<open>Loading\<close>

lemma diskRead_update [simp]:
  "diskRead (diskRemove i f) j = (if j = i then None else diskRead f j)"
  "diskRead (diskWrite i m f) j =
     (if j = i \<and> cacheDir f \<noteq> None then Some m else diskRead f j)"
  by (auto simp: diskRead_def diskRemove_def diskWrite_def split: option.splits)

lemma disk_cached [simp]: "cached (diskRemove i f) = cached f" "cached (diskWrite i m f) = cached f"
  by (simp_all add: diskRemove_def diskWrite_def)

lemma distinct_addLoaded:
  "distinct (map fst (metas resp)) \<Longrightarrow> distinct (map fst (metas (addLoaded i r resp)))"
  by (auto simp: addLoaded_def delete_meta_def distinct_map_filter split: sum.splits)

lemma distinct_loadAll:
  "loadAll flt is resp st = (resp', st') \<Longrightarrow> distinct (map fst (metas resp)) \<Longrightarrow>
     distinct (map fst (metas resp'))"
  by (induction "is" arbitrary: resp st) (auto split: prod.splits intro: distinct_addLoaded)

lemma stored_listed:
  assumes "stored c i m"
  shows "i \<in> set (blockIDs (list_dir [] c))"
proof -
  have "EDir [Id i] \<in> set (list_dir [] c)"
    using assms by (force simp: EDir_list_dir stored_def has_object_def)
  then show ?thesis
    by (auto simp: blockIDs_def List.map_filter_def image_iff intro!: bexI [of _ "EDir [Id i]"])
qed

text \<open>
  What a synchronisation promises is proved once for every notion of agreement between a cached and a
  stored \<^verbatim>\<open>meta.json\<close>: a reflexive relation.
\<close>

locale meta_agreement =
  fixes agree :: "meta \<Rightarrow> meta \<Rightarrow> bool"
  assumes agree_refl: "agree m m"
begin

definition storedBy :: "contents \<Rightarrow> ulid \<Rightarrow> meta \<Rightarrow> bool" where
  "storedBy c i m \<longleftrightarrow> (\<exists>m'. stored c i m' \<and> agree m m')"

definition loadOutcome :: "contents \<Rightarrow> ulid \<Rightarrow> meta_error + meta \<Rightarrow> bool" where
  "loadOutcome c i r \<longleftrightarrow>
     (case r of
        Inr m \<Rightarrow> storedBy c i m
      | Inl ErrorSyncMetaNotFound \<Rightarrow> \<not> has_object c (metaName i)
      | Inl ErrorSyncMetaCorrupted \<Rightarrow> \<not> (\<exists>m. map_of c (metaName i) = Some (MetaJSON m))
      | Inl _ \<Rightarrow> True)"

definition viewOf :: "contents \<Rightarrow> ulid set \<Rightarrow> response \<Rightarrow> bool" where
  "viewOf c is resp \<longleftrightarrow>
     (\<forall>(i, m) \<in> set (metas resp). storedBy c i m)
     \<and> (\<forall>(i, e) \<in> set (partial resp). i \<in> is \<and> \<not> (\<exists>m. stored c i m))
     \<and> (metaErrs resp = [] \<longrightarrow> is = fst ` set (metas resp) \<union> fst ` set (partial resp))"

lemma storedBy_stored: "stored c i m \<Longrightarrow> storedBy c i m"
  using agree_refl by (auto simp: storedBy_def)

lemma storedBy_ex: "storedBy c i m \<Longrightarrow> \<exists>m'. stored c i m'"
  by (auto simp: storedBy_def)

lemma coherent_disk:
  "coherentBy agree f c \<Longrightarrow> coherentBy agree (diskRemove i f) c"
  "coherentBy agree f c \<Longrightarrow> stored c i m \<Longrightarrow> coherentBy agree (diskWrite i m f) c"
  using agree_refl by (auto simp: coherentBy_def split: if_splits)

lemma loadMeta_outcome:
  assumes "loadMeta flt i (f, b) = (r, f', b')" and coh: "coherentBy agree f (objects b)"
  shows "objects b' = objects b \<and> cached f' = cached f \<and> coherentBy agree f' (objects b) \<and> loadOutcome (objects b) i r"
proof -
  obtain e b1 where ex: "bkt_exists flt (metaName i) b = (e, b1)" by fastforce
  then have b1: "objects b1 = objects b" and e: "\<And>x. e = Inr x \<Longrightarrow> x = has_object (objects b) (metaName i)"
    by (auto simp: bkt_exists_def split: if_splits)
  obtain g b2 where g: "bkt_get flt (metaName i) b1 = (g, b2)" by fastforce
  then have b2: "objects b2 = objects b"
    and gr: "\<And>x. g = Inr x \<Longrightarrow> map_of (objects b) (metaName i) = Some x"
    and gn: "g = Inl NotFound \<Longrightarrow> \<not> has_object (objects b) (metaName i)"
    using b1 by (auto simp: bkt_get_def has_object_def split: if_splits option.splits)
  note coh' = coherent_disk(1) [OF coh, of i]
  consider (fail) x where "e = Inl x" | (absent) "e = Inr False" | (present) "e = Inr True"
    by (metis old.sum.exhaust)
  then show ?thesis
  proof cases
    case fail
    then show ?thesis using assms ex b1 by (auto simp: loadMeta_def loadOutcome_def)
  next
    case absent
    then show ?thesis using assms ex b1 e [of False] by (auto simp: loadMeta_def loadOutcome_def)
  next
    case present
    then have has: "has_object (objects b) (metaName i)" using e by simp
    show ?thesis
    proof (cases "map_of (cached f) i")
      case (Some m)
      then have "storedBy (objects b) i m" using coh has by (auto simp: coherentBy_def storedBy_def)
      then show ?thesis using assms ex b1 present Some by (auto simp: loadMeta_def loadOutcome_def)
    next
      case None
      show ?thesis
      proof (cases "diskRead f i")
        case (Some m)
        then have "storedBy (objects b) i m" using coh has by (auto simp: coherentBy_def storedBy_def)
        then show ?thesis using assms ex b1 present None Some by (auto simp: loadMeta_def loadOutcome_def)
      next
        case dr: None
        have eq: "(r, f', b') = (case (g, b2) of
              (Inl NotFound, b) \<Rightarrow> (Inl ErrorSyncMetaNotFound, diskRemove i f, b)
            | (Inl e, b) \<Rightarrow> (Inl (MetaBucket e), diskRemove i f, b)
            | (Inr (MetaJSON m), b) \<Rightarrow>
                if metaVersion m \<noteq> 1 then (Inl (UnexpectedVersion (metaVersion m)), diskRemove i f, b)
                else (Inr m, diskWrite i m (diskRemove i f), b)
            | (Inr _, b) \<Rightarrow> (Inl ErrorSyncMetaCorrupted, diskRemove i f, b))"
          using assms ex present None dr g by (simp add: loadMeta_def Let_def)
        show ?thesis
        proof (cases g)
          case (Inl x)
          then show ?thesis using eq b2 coh' gn by (cases x) (auto simp: loadOutcome_def)
        next
          case (Inr x)
          then show ?thesis
            using eq b2 coh' gr [OF Inr] coherent_disk(2) [OF coh', of i] storedBy_stored [of "objects b" i]
            by (cases x) (auto simp: loadOutcome_def stored_def split: if_splits)
        qed
      qed
    qed
  qed
qed

lemma viewOf_addLoaded:
  assumes "viewOf c is resp" and "loadOutcome c i r"
  shows "viewOf c (insert i is) (addLoaded i r resp)"
  using assms
  by (cases r; cases "projl r")
    (auto simp: viewOf_def addLoaded_def loadOutcome_def stored_def has_object_def delete_meta_def image_iff)

lemma loadAll_view:
  assumes "loadAll flt is resp (f, b) = (resp', f', b')" and "coherentBy agree f (objects b)"
    and "viewOf (objects b) js resp"
  shows "objects b' = objects b \<and> cached f' = cached f \<and> coherentBy agree f' (objects b)
    \<and> viewOf (objects b) (set is \<union> js) resp'"
  using assms
proof (induction "is" arbitrary: resp f b js)
  case Nil
  then show ?case by simp
next
  case (Cons i "is")
  obtain r f1 b1 where ld: "loadMeta flt i (f, b) = (r, f1, b1)" using prod_cases3 by blast
  note one = loadMeta_outcome [OF ld Cons.prems(2)]
  have "loadAll flt is (addLoaded i r resp) (f1, b1) = (resp', f', b')"
    using Cons.prems(1) ld by simp
  moreover have "coherentBy agree f1 (objects b1)" using one by simp
  moreover have "viewOf (objects b1) (insert i js) (addLoaded i r resp)"
    using viewOf_addLoaded [OF Cons.prems(3)] one by simp
  ultimately have "objects b' = objects b1 \<and> cached f' = cached f1 \<and> coherentBy agree f' (objects b1)
      \<and> viewOf (objects b1) (set is \<union> insert i js) resp'"
    by (rule Cons.IH)
  then show ?case using one by simp
qed

lemma coherent_metas:
  assumes "\<forall>(i, m) \<in> set ms. storedBy c i m" and "coherentBy agree f c"
  shows "coherentBy agree (f\<lparr>cached := ms, cacheDir := map_option (\<lambda>d. d |` S) (cacheDir f)\<rparr>) c"
  using assms
  by (auto simp: coherentBy_def storedBy_def diskRead_def restrict_map_def dest!: map_of_SomeD
      split: option.splits if_splits)

lemma fetchMetadata_agrees:
  assumes "coherentBy agree f (objects b)" and "fetchMetadata flt (f, b) = (Inr resp, f', b')"
  shows "(\<forall>(i, m) \<in> set (metas resp). storedBy (objects b) i m)
    \<and> (\<forall>(i, e) \<in> set (partial resp). \<not> (\<exists>m. stored (objects b) i m))
    \<and> (metaErrs resp = [] \<longrightarrow> (\<forall>i m. stored (objects b) i m \<longrightarrow> i \<in> fst ` set (metas resp)))
    \<and> cached f' = (if metaErrs resp = [] then metas resp else cached f)
    \<and> distinct (map fst (metas resp))
    \<and> coherentBy agree f' (objects b')
    \<and> objects b' = objects b"
proof -
  obtain es b1 where it: "bkt_iter flt [] b = (Inr es, b1)"
    using assms(2) by (auto simp: fetchMetadata_def split: prod.splits sum.splits)
  then have es: "es = list_dir [] (objects b)" and b1: "objects b1 = objects b"
    by (auto simp: bkt_iter_def split: if_splits)
  obtain f1 where ld: "loadAll flt (blockIDs es) \<lparr>metas = [], partial = [], metaErrs = []\<rparr> (f, b1) = (resp, f1, b')"
    and f': "f' = (if metaErrs resp \<noteq> [] then f1
       else f1\<lparr>cached := metas resp, cacheDir := map_option (\<lambda>d. d |` (fst ` set (metas resp))) (cacheDir f1)\<rparr>)"
    using assms(2) it by (auto simp: fetchMetadata_def split: prod.splits if_splits)
  have "viewOf (objects b1) {} \<lparr>metas = [], partial = [], metaErrs = []\<rparr>" by (simp add: viewOf_def)
  from loadAll_view [OF ld _ this] assms(1) b1
  have view: "objects b' = objects b" "cached f1 = cached f" "coherentBy agree f1 (objects b)"
    "viewOf (objects b) (set (blockIDs es)) resp" by auto
  have "i \<in> fst ` set (metas resp)" if ok: "metaErrs resp = []" and st: "stored (objects b) i m" for i m
  proof -
    have "i \<in> fst ` set (metas resp) \<union> fst ` set (partial resp)"
      using stored_listed [OF st] view(4) ok es by (simp add: viewOf_def)
    then show ?thesis using view(4) st by (force simp: viewOf_def)
  qed
  moreover have "distinct (map fst (metas resp))" using distinct_loadAll [OF ld] by simp
  moreover have "coherentBy agree f' (objects b)"
    using view(3,4) coherent_metas [of "metas resp" "objects b" f1] by (simp add: f' viewOf_def)
  ultimately show ?thesis
    using view by (auto simp: viewOf_def f')
qed

end

interpretation exact_view: meta_agreement "(=)"
  by unfold_locales simp

interpretation label_view: meta_agreement sameButLabels
  by unfold_locales (simp add: sameButLabels_def)

text \<open>
  C15: a synchronisation never invents or misreads a block, whichever bucket operations fail, provided
  that it starts with caches that agree with the bucket: every block it returns has a \<^verbatim>\<open>meta.json\<close>
  of version 1 with exactly the returned metadata, every block it reports as partial has none; without
  errors the view is complete, and only then the cache is replaced; the bucket is unchanged and the
  caches agree with it again. (An empty cache agrees with every bucket. A modifier that runs on the
  returned metadata changes the cache, and then it no longer agrees.)
\<close>

theorem fetchMetadata_view:
  assumes "coherent f (objects b)" and "fetchMetadata flt (f, b) = (Inr resp, f', b')"
  shows "(\<forall>(i, m) \<in> set (metas resp). stored (objects b) i m)
    \<and> (\<forall>(i, e) \<in> set (partial resp). \<not> (\<exists>m. stored (objects b) i m))
    \<and> (metaErrs resp = [] \<longrightarrow> (\<forall>i m. stored (objects b) i m \<longrightarrow> (i, m) \<in> set (metas resp)))
    \<and> cached f' = (if metaErrs resp = [] then metas resp else cached f)
    \<and> coherent f' (objects b')
    \<and> objects b' = objects b"
proof -
  note view = exact_view.fetchMetadata_agrees [OF assms(1) [unfolded coherent_def] assms(2)]
  have st: "\<forall>(i, m) \<in> set (metas resp). stored (objects b) i m"
    using view by (simp add: exact_view.storedBy_def)
  have "(i, m) \<in> set (metas resp)" if "metaErrs resp = []" "stored (objects b) i m" for i m
  proof -
    have "i \<in> fst ` set (metas resp)" using view that by blast
    then obtain m' where m': "(i, m') \<in> set (metas resp)" by auto
    then have "stored (objects b) i m'" using st by blast
    then show ?thesis using m' that(2) by (simp add: stored_def)
  qed
  with view st show ?thesis unfolding coherent_def by blast
qed

section \<open>Marker filters\<close>

text \<open>
  The contract of a marker reader: it changes nothing, finds a marker only where one is stored
  (\<open>has i m\<close> in the contents), and reports a missing or unreadable one only where there is none.
\<close>

locale marker_reader =
  fixes read :: "ulid \<Rightarrow> bucket \<Rightarrow> (marker_error + 'm) \<times> bucket"
    and holds :: "contents \<Rightarrow> ulid \<Rightarrow> 'm \<Rightarrow> bool"
  assumes read_objects: "objects (snd (read i b)) = objects b"
    and read_found: "fst (read i b) = Inr m \<Longrightarrow> holds (objects b) i m"
    and read_missing: "fst (read i b) = Inl MarkerNotFound \<or> fst (read i b) = Inl UnmarshalMarker \<Longrightarrow>
      \<not> holds (objects b) i m"
    and holds_unique: "holds c i m \<Longrightarrow> holds c i m' \<Longrightarrow> m = m'"
begin

definition gathered :: "contents \<Rightarrow> ulid set \<Rightarrow> marker_error option \<Rightarrow> (ulid \<times> 'm) list \<Rightarrow> bool" where
  "gathered c is lastErr marks \<longleftrightarrow>
     (\<forall>(i, m) \<in> set marks. i \<in> is \<and> holds c i m)
     \<and> (lastErr = None \<longrightarrow> (\<forall>i \<in> is. \<forall>m. holds c i m \<longrightarrow> (i, m) \<in> set marks))"

lemma gatherMarkers_gathered:
  assumes "gatherMarkers read is lastErr marks b = ((e, ms), b')" and "gathered (objects b) js lastErr marks"
  shows "objects b' = objects b \<and> gathered (objects b) (set is \<union> js) e ms"
  using assms
proof (induction "is" arbitrary: lastErr marks b js)
  case Nil
  then show ?case by simp
next
  case (Cons i "is")
  obtain r b1 where r: "read i b = (r, b1)" by fastforce
  have b1: "objects b1 = objects b" using read_objects [of i b] r by simp
  have "\<exists>lastErr' marks'. gatherMarkers read is lastErr' marks' b1 = ((e, ms), b')
      \<and> gathered (objects b1) (insert i js) lastErr' marks'"
  proof (cases r)
    case (Inr m)
    then have "holds (objects b) i m" using read_found [of i b m] r by simp
    then have "gathered (objects b) (insert i js) lastErr (marks @ [(i, m)])"
      using Cons.prems(2) holds_unique unfolding gathered_def by auto
    then show ?thesis using Cons.prems(1) r Inr b1 by auto
  next
    case (Inl x)
    have "gathered (objects b) (insert i js) lastErr marks" if "x = MarkerNotFound \<or> x = UnmarshalMarker"
      using that Cons.prems(2) read_missing [of i b] r Inl unfolding gathered_def by auto
    moreover have "gathered (objects b) (insert i js) (Some x) marks"
      using Cons.prems(2) unfolding gathered_def by auto
    ultimately show ?thesis using Cons.prems(1) r Inl b1 by (cases x) auto
  qed
  then show ?case using Cons.IH b1 by (metis Un_insert_left Un_insert_right list.simps(15))
qed

lemma gatherMarkers_all:
  assumes "gatherMarkers read is None [] b = ((e, ms), b')"
  shows "objects b' = objects b \<and> (\<forall>(i, m) \<in> set ms. i \<in> set is \<and> holds (objects b) i m)
    \<and> (e = None \<longrightarrow> (\<forall>i \<in> set is. \<forall>m. holds (objects b) i m \<longrightarrow> (i, m) \<in> set ms))"
  using gatherMarkers_gathered [OF assms, of "{}"] by (simp add: gathered_def)

lemma gatherMarkers_map_of:
  assumes "gatherMarkers read is None [] b = ((None, ms), b')" and "i \<in> set is"
  shows "map_of ms i = Some m \<longleftrightarrow> holds (objects b) i m"
proof
  assume "map_of ms i = Some m"
  then show "holds (objects b) i m" using gatherMarkers_all [OF assms(1)] map_of_SomeD by fastforce
next
  assume h: "holds (objects b) i m"
  then have "(i, m) \<in> set ms" using gatherMarkers_all [OF assms(1)] assms(2) by blast
  then obtain m' where m': "map_of ms i = Some m'" by (metis weak_map_of_SomeI)
  then have "holds (objects b) i m'" using gatherMarkers_all [OF assms(1)] map_of_SomeD by fastforce
  then show "map_of ms i = Some m" using m' holds_unique [OF h] by simp
qed

end

interpretation deletion_marks: marker_reader "readDeletionMark flt" hasDeletionMark
proof unfold_locales
  fix i b m
  show "objects (snd (readDeletionMark flt i b)) = objects b"
    and "fst (readDeletionMark flt i b) = Inr m \<Longrightarrow> hasDeletionMark (objects b) i m"
    and "fst (readDeletionMark flt i b) = Inl MarkerNotFound \<or>
       fst (readDeletionMark flt i b) = Inl UnmarshalMarker \<Longrightarrow> \<not> hasDeletionMark (objects b) i m"
    by (auto simp: readDeletionMark_def hasDeletionMark_def bkt_get_def
        split: if_splits option.splits object.splits bkt_error.splits)
qed (simp add: hasDeletionMark_def)

interpretation no_compact_marks: marker_reader "readNoCompactMark flt" hasNoCompactMark
proof unfold_locales
  fix i b m
  show "objects (snd (readNoCompactMark flt i b)) = objects b"
    and "fst (readNoCompactMark flt i b) = Inr m \<Longrightarrow> hasNoCompactMark (objects b) i m"
    and "fst (readNoCompactMark flt i b) = Inl MarkerNotFound \<or>
       fst (readNoCompactMark flt i b) = Inl UnmarshalMarker \<Longrightarrow> \<not> hasNoCompactMark (objects b) i m"
    by (auto simp: readNoCompactMark_def hasNoCompactMark_def bkt_get_def
        split: if_splits option.splits object.splits bkt_error.splits)
qed (simp add: hasNoCompactMark_def)

lemma ignoreDeletionMarkFilter_result:
  assumes "ignoreDeletionMarkFilter flt now delay ms b = (Inr (kept, marks), b')"
  shows "kept = filter (\<lambda>(i, _). \<not> (\<exists>mk. hasDeletionMark (objects b) i mk \<and> expired now delay mk)) ms
    \<and> (\<forall>i mk. (i, mk) \<in> set marks \<longleftrightarrow> i \<in> fst ` set ms \<and> hasDeletionMark (objects b) i mk)
    \<and> objects b' = objects b"
proof -
  obtain b1 where g: "gatherMarkers (readDeletionMark flt) (map fst ms) None [] b = ((None, marks), b1)"
    and b': "b' = b1"
    and kept: "kept = filter (\<lambda>(i, _). \<not> (case map_of marks i of None \<Rightarrow> False | Some mk \<Rightarrow> expired now delay mk)) ms"
    using assms by (auto simp: ignoreDeletionMarkFilter_def split: prod.splits option.splits)
  note all = deletion_marks.gatherMarkers_all [OF g]
  have "(case map_of marks i of None \<Rightarrow> False | Some mk \<Rightarrow> expired now delay mk) \<longleftrightarrow>
      (\<exists>mk. hasDeletionMark (objects b) i mk \<and> expired now delay mk)" if "(i, m) \<in> set ms" for i m
  proof -
    have "i \<in> set (map fst ms)" using that by force
    from deletion_marks.gatherMarkers_map_of [OF g this] show ?thesis
      by (auto split: option.splits dest: deletion_marks.holds_unique)
  qed
  then have "kept = filter (\<lambda>(i, _). \<not> (\<exists>mk. hasDeletionMark (objects b) i mk \<and> expired now delay mk)) ms"
    unfolding kept by (intro filter_cong) auto
  moreover have "(i, mk) \<in> set marks \<longleftrightarrow> i \<in> fst ` set ms \<and> hasDeletionMark (objects b) i mk" for i mk
    using all by auto
  ultimately show ?thesis using all b' by blast
qed

lemma expired_age:
  assumes "MinInt64 \<le> delay" and "delay + 3000 \<le> MaxInt64"
  shows "now - deletionTime mk * 1000000000 \<le> delay \<Longrightarrow> \<not> expired now delay mk"
    and "delay + 3000 \<le> now - deletionTime mk * 1000000000 \<Longrightarrow> expired now delay mk"
  using Since_exceeds [OF assms] by (auto simp: expired_def)

text \<open>
  C16: the deletion-mark filter is exact up to the resolution of its clock comparison. Unless it reports
  an error, and for a delay of at most \<open>MaxInt64 - 3000\<close> nanoseconds: it removes blocks but changes and
  reorders none; it keeps every block without a valid deletion mark in the bucket and every block whose
  mark is not older than the delay, to the nanosecond; it drops every block whose mark is older than
  the delay by three microseconds or more, the precision that is left of the longest durations in
  \<^verbatim>\<open>float64\<close> seconds. The marks it remembers for the cleaner are exactly the valid deletion marks of
  the given blocks, whatever their age, and the bucket is unchanged.
\<close>

theorem ignoreDeletionMarkFilter_exact:
  assumes "ignoreDeletionMarkFilter flt now delay ms b = (Inr (kept, marks), b')"
    and "MinInt64 \<le> delay" and "delay + 3000 \<le> MaxInt64"
  shows "subseq kept ms
    \<and> (\<forall>(i, m) \<in> set ms.
         (\<forall>mk. hasDeletionMark (objects b) i mk \<longrightarrow> now - deletionTime mk * 1000000000 \<le> delay)
           \<longrightarrow> (i, m) \<in> set kept)
    \<and> (\<forall>(i, m) \<in> set kept. \<forall>mk.
         hasDeletionMark (objects b) i mk \<longrightarrow> now - deletionTime mk * 1000000000 < delay + 3000)
    \<and> (\<forall>i mk. (i, mk) \<in> set marks \<longleftrightarrow> i \<in> fst ` set ms \<and> hasDeletionMark (objects b) i mk)
    \<and> objects b' = objects b"
proof -
  note res = ignoreDeletionMarkFilter_result [OF assms(1)] and age = expired_age [OF assms(2,3), of now]
  have kept: "kept = filter (\<lambda>(i, _). \<not> (\<exists>mk. hasDeletionMark (objects b) i mk \<and> expired now delay mk)) ms"
    using res by blast
  have "subseq kept ms" unfolding kept by simp
  moreover have "\<forall>(i, m) \<in> set ms.
      (\<forall>mk. hasDeletionMark (objects b) i mk \<longrightarrow> now - deletionTime mk * 1000000000 \<le> delay)
        \<longrightarrow> (i, m) \<in> set kept"
    unfolding kept using age(1) by auto
  moreover have "\<forall>(i, m) \<in> set kept. \<forall>mk.
      hasDeletionMark (objects b) i mk \<longrightarrow> now - deletionTime mk * 1000000000 < delay + 3000"
    unfolding kept using age(2) by (auto simp: not_le [symmetric])
  ultimately show ?thesis using res by blast
qed

lemma gatherNoCompactMarkFilter_exact:
  assumes "gatherNoCompactMarkFilter flt ms b = (Inr (kept, marks), b')" and "i \<in> fst ` set ms"
  shows "kept = ms" and "map_of marks i = Some mk \<longleftrightarrow> hasNoCompactMark (objects b) i mk"
  using assms no_compact_marks.gatherMarkers_map_of [of flt "map fst ms" b marks b' i mk]
  by (auto simp: gatherNoCompactMarkFilter_def split: prod.splits option.splits)

theorem ignoreDeletionMarkFilter_exact_witness:
  "\<exists>kept marks. fst (ignoreDeletionMarkFilter (\<lambda>_. NoFault) (1000 * 1000000000) (500 * 1000000000)
       [(1, rawBlock 1 0 10), (2, rawBlock 2 10 20), (3, rawBlock 3 20 30)] markedBucket) = Inr (kept, marks)
     \<and> (1, rawBlock 1 0 10) \<notin> set kept \<and> (2, rawBlock 2 10 20) \<in> set kept \<and> (3, rawBlock 3 20 30) \<in> set kept
     \<and> (2, \<lparr>dmID = 2, dmVersion = 1, deletionTime = 900\<rparr>) \<in> set marks"
proof -
  let ?ms = "[(1, rawBlock 1 0 10), (2, rawBlock 2 10 20), (3, rawBlock 3 20 30)]"
  let ?r = "ignoreDeletionMarkFilter (\<lambda>_. NoFault) (1000 * 1000000000) (500 * 1000000000) ?ms markedBucket"
  have "isl (fst ?r) = False" by code_simp
  then obtain kept marks where f: "fst ?r = Inr (kept, marks)" by (cases "fst ?r") auto
  then have "?r = (Inr (kept, marks), snd ?r)" by (metis prod.collapse)
  note ex = ignoreDeletionMarkFilter_exact [OF this]
  have marks: "hasDeletionMark (objects markedBucket) 1 \<lparr>dmID = 1, dmVersion = 1, deletionTime = 100\<rparr>"
    "hasDeletionMark (objects markedBucket) 2 mk \<longleftrightarrow> mk = \<lparr>dmID = 2, dmVersion = 1, deletionTime = 900\<rparr>"
    "\<not> hasDeletionMark (objects markedBucket) 3 mk" for mk
    by (auto simp: hasDeletionMark_def markedBucket_def block_names file_names)
  have "(1, rawBlock 1 0 10) \<notin> set kept" using ex marks(1) by (fastforce simp: MinInt64_def MaxInt64_def)
  moreover have "(2, rawBlock 2 10 20) \<in> set kept" "(3, rawBlock 3 20 30) \<in> set kept"
    "(2, \<lparr>dmID = 2, dmVersion = 1, deletionTime = 900\<rparr>) \<in> set marks"
    using ex by (simp_all add: MinInt64_def MaxInt64_def marks(2,3))
  ultimately show ?thesis using f by blast
qed

theorem fetchMetadata_view_witness:
  "\<exists>resp. fst (fetchMetadata (\<lambda>_. NoFault) (emptyFetcher, markedBucket)) = Inr resp
     \<and> metaErrs resp = [] \<and> list_all (\<lambda>(i, m). stored (objects markedBucket) i m) (metas resp)
     \<and> (2, rawBlock 2 10 20) \<in> set (metas resp) \<and> \<not> stored (objects markedBucket) 4 (rawBlock 4 0 10)"
proof -
  let ?r = "fetchMetadata (\<lambda>_. NoFault) (emptyFetcher, markedBucket)"
  let ?resp = "\<lparr>metas = [(1, rawBlock 1 0 10), (2, rawBlock 2 10 20), (3, rawBlock 3 20 30)],
                partial = [(4, ErrorSyncMetaNotFound)], metaErrs = []\<rparr>"
  have coh: "coherent emptyFetcher (objects markedBucket)"
    by (simp add: coherent_def coherentBy_def emptyFetcher_def diskRead_def)
  have f: "fst ?r = Inr ?resp" by code_simp
  then have "?r = (Inr ?resp, fst (snd ?r), snd (snd ?r))" by (metis prod.collapse)
  from fetchMetadata_view [OF coh this] show ?thesis
    unfolding f by (intro exI [of _ ?resp]) simp
qed

text \<open>
  With replica labels configured, a second synchronisation reports what the first one made of the
  block, not what the bucket stores.
\<close>

lemma replicaLabelRemover_leaks:
  "let st = snd (fetch (\<lambda>_. NoFault) [] [replicaLabelRemover [''replica'']] (emptyFetcher, replicaBucket));
       m = snd (hd (fst (fst (fetch (\<lambda>_. NoFault) [] [] st))))
   in extLabels (thanos m) = [(''cluster'', ''a'')]
      \<and> map_of (objects replicaBucket) (metaName 1) \<noteq> Some (MetaJSON m)"
  by code_simp

text \<open>What the modifier does to the cache is limited to the labels.\<close>

lemma sameButLabelsD:
  assumes "sameButLabels m m'"
  shows "metaULID m = metaULID m'" "sources m = sources m'" "resolution (thanos m) = resolution (thanos m')"
proof -
  let ?s = "\<lambda>m :: meta. m\<lparr>thanos := (thanos m)\<lparr>extLabels := []\<rparr>\<rparr>"
  have eq: "?s m = ?s m'" using assms by (simp add: sameButLabels_def)
  show "metaULID m = metaULID m'" using arg_cong [OF eq, of metaULID] by simp
  show "sources m = sources m'" using arg_cong [OF eq, of sources] by simp
  show "resolution (thanos m) = resolution (thanos m')"
    using arg_cong [OF eq, of "\<lambda>m. resolution (thanos m)"] by simp
qed

lemma sameButLabels_remover:
  "(i, m') \<in> set (replicaLabelRemover ls ms) \<Longrightarrow> \<exists>m. (i, m) \<in> set ms \<and> sameButLabels m' m"
  by (force simp: replicaLabelRemover_def sameButLabels_def split: if_splits)

lemma storedBy_remover:
  assumes "\<forall>(i, m) \<in> set ms. label_view.storedBy c i m"
  shows "\<forall>(i, m) \<in> set (replicaLabelRemover ls ms). label_view.storedBy c i m"
proof (intro ballI, clarify)
  fix i m' assume "(i, m') \<in> set (replicaLabelRemover ls ms)"
  then obtain m where "(i, m) \<in> set ms" "sameButLabels m' m" using sameButLabels_remover by blast
  then show "label_view.storedBy c i m'"
    using assms by (fastforce simp: label_view.storedBy_def sameButLabels_def)
qed

lemma writeBack_cached:
  "map_of (cached (writeBack ms f)) i =
     map_option (\<lambda>m. case map_of ms i of Some m' \<Rightarrow> m' | None \<Rightarrow> m) (map_of (cached f) i)"
proof -
  have "map_of (map (\<lambda>(i, m). (i, g i m)) xs) i = map_option (g i) (map_of xs i)" for g and xs :: meta_map
    by (induction xs) auto
  then show ?thesis by (simp add: writeBack_def)
qed

lemma writeBack_coherent:
  assumes "coherentBy sameButLabels f c" and "\<forall>(i, m) \<in> set ms. label_view.storedBy c i m"
  shows "coherentBy sameButLabels (writeBack ms f) c"
proof -
  have disk: "diskRead (writeBack ms f) = diskRead f" by (simp add: fun_eq_iff diskRead_def writeBack_def)
  have "label_view.storedBy c i m"
    if "map_of (cached (writeBack ms f)) i = Some m" and has: "has_object c (metaName i)" for i m
  proof (cases "map_of ms i")
    case None
    then have "map_of (cached f) i = Some m" using that(1) by (auto simp: writeBack_cached)
    then show ?thesis using assms(1) has by (auto simp: coherentBy_def label_view.storedBy_def)
  next
    case (Some m')
    then have "m' = m" using that(1) by (auto simp: writeBack_cached)
    then show ?thesis using Some assms(2) map_of_SomeD by fastforce
  qed
  then show ?thesis
    using assms(1) unfolding coherentBy_def disk label_view.storedBy_def by blast
qed

section \<open>The other filters\<close>

text \<open>
  Removing replica labels makes replicas indistinguishable and never leaves a block without labels:
  blocks whose external labels agree outside the replica labels have equal labels afterwards, and no
  replica label survives except as the placeholder of a block that had no other label.
\<close>

lemma removeReplicaLabels_merges:
  assumes "replicaLabels \<noteq> []"
    and "filter (\<lambda>(n, _). n \<notin> set replicaLabels) l = filter (\<lambda>(n, _). n \<notin> set replicaLabels) l'"
  shows "removeReplicaLabels replicaLabels l = removeReplicaLabels replicaLabels l'
    \<and> removeReplicaLabels replicaLabels l \<noteq> []
    \<and> (\<forall>(n, v) \<in> set (removeReplicaLabels replicaLabels l). n \<in> set replicaLabels \<longrightarrow>
         removeReplicaLabels replicaLabels l = [(n, ''deduped'')])"
  using assms by (auto simp: removeReplicaLabels_def Let_def)

lemma removeReplicaLabels_merges_witness:
  "removeReplicaLabels [''replica''] [(''cluster'', ''a''), (''replica'', ''1'')] =
   removeReplicaLabels [''replica''] [(''cluster'', ''a''), (''replica'', ''2'')]"
  using removeReplicaLabels_merges [of "[''replica'']" "[(''cluster'', ''a''), (''replica'', ''1'')]"
      "[(''cluster'', ''a''), (''replica'', ''2'')]"] by simp

text \<open>
  The age in the consistency delay is a difference of unsigned times: a block that is younger than the
  delay is dropped, but one whose ULID lies in the future has an age close to \<open>2^64\<close> and passes.
\<close>

lemma tooFresh_past:
  assumes "ulid_time i \<le> now" and "source (thanos m) = SidecarSource"
  shows "tooFresh now delay i m \<longleftrightarrow> unat now - unat (ulid_time i) < unat delay"
  using assms by (simp add: tooFresh_def word_less_nat_alt unat_sub)

lemma tooFresh_future:
  assumes "now < ulid_time i" and "unat (ulid_time i) - unat now + unat delay \<le> 2 ^ 64"
  shows "\<not> tooFresh now delay i m"
proof -
  have "unat (now - ulid_time i) = 2 ^ 64 + unat now - unat (ulid_time i)"
    using assms(1) by (simp add: unat_sub_if_size word_size word_less_nat_alt)
  moreover have "unat now < unat (ulid_time i)" using assms(1) by (simp add: word_less_nat_alt)
  ultimately have "\<not> now - ulid_time i < delay"
    unfolding word_less_nat_alt using assms(2) by linarith
  then show ?thesis by (simp add: tooFresh_def)
qed

end
