(* ===== verification/Planner.thy ===== *)
theory Planner
  imports Block_Meta
begin

text \<open>
  The compaction planner of \<^verbatim>\<open>pkg/compact/planner.go\<close>: which blocks of one compaction
  group, ordered by start time, are compacted next. Panics of the Go code (an index out of
  range on an empty slice, a division by a zero range) are values of \<open>plan_error\<close>.
\<close>

datatype plan_error = IndexOutOfRange | DivisionByZero

type_synonym no_compact_map = "ulid \<rightharpoonup> no_compact_mark"

section \<open>Overlapping blocks\<close>

text \<open>
  The loop of \<^verbatim>\<open>selectOverlappingMetas\<close>: \<open>prev\<close> is the entry before the current one, \<open>gmax\<close>
  the greatest end time seen, \<open>acc\<close> the overlapping run gathered so far.
\<close>

fun overlapLoop :: "meta \<Rightarrow> int \<Rightarrow> meta list \<Rightarrow> meta list \<Rightarrow> meta list" where
  "overlapLoop prev gmax acc [] = acc"
| "overlapLoop prev gmax acc (m # ms) =
     (let gmax' = (if maxTime m > gmax then maxTime m else gmax)
      in if minTime m < gmax
         then overlapLoop m gmax' ((if acc = [] then [prev] else acc) @ [m]) ms
         else if acc \<noteq> [] then acc
         else overlapLoop m gmax' acc ms)"

definition selectOverlappingMetas :: "meta list \<Rightarrow> meta list" where
  "selectOverlappingMetas ms =
     (case ms of
        [] \<Rightarrow> []
      | m # rest \<Rightarrow> if rest = [] then [] else overlapLoop m (maxTime m) [] rest)"

section \<open>Splitting by aligned ranges\<close>

definition rangeStart :: "int \<Rightarrow> int \<Rightarrow> int" where
  "rangeStart mint tr =
     (if mint \<ge> 0 then i64 (tr * i64 (go_div mint tr))
      else i64 (tr * i64 (go_div (i64 (mint - tr + 1)) tr)))"

function splitByRange :: "meta list \<Rightarrow> int \<Rightarrow> meta list list" where
  "splitByRange [] tr = []"
| "splitByRange (m # ms) tr =
     (let t0 = rangeStart (minTime m) tr
      in if maxTime m > i64 (t0 + tr) then splitByRange ms tr
         else (m # takeWhile (\<lambda>x. \<not> maxTime x > i64 (t0 + tr)) ms)
              # splitByRange (dropWhile (\<lambda>x. \<not> maxTime x > i64 (t0 + tr)) ms) tr)"
  by pat_completeness auto
termination
  by (relation "measure (\<lambda>(ms, tr). length ms)") (auto simp: le_imp_less_Suc length_dropWhile_le)

section \<open>Selecting a range\<close>

text \<open>
  The inner loop over one part: \<open>cur\<close> is \<^verbatim>\<open>p[lastExcluded:i]\<close>. The first run of more than one
  block between excluded blocks is taken.
\<close>

fun unexcludedRun :: "no_compact_map \<Rightarrow> meta list \<Rightarrow> meta list \<Rightarrow> meta list option" where
  "unexcludedRun marked cur [] = (if length cur > 1 then Some cur else None)"
| "unexcludedRun marked cur (m # ms) =
     (if marked (metaULID m) = None then unexcludedRun marked (cur @ [m]) ms
      else if length cur > 1 then Some cur
      else unexcludedRun marked [] ms)"

fun selectPart :: "int \<Rightarrow> int \<Rightarrow> no_compact_map \<Rightarrow> meta list list \<Rightarrow> meta list option" where
  "selectPart iv highTime marked [] = None"
| "selectPart iv highTime marked (p # ps) =
     (if list_ex failed p then selectPart iv highTime marked ps
      else if length p < 2 then selectPart iv highTime marked ps
      else let mint = minTime (hd p); maxt = maxTime (last p)
           in if i64 (maxt - mint) \<noteq> iv \<and> maxt > highTime then selectPart iv highTime marked ps
              else case unexcludedRun marked [] p of
                     Some r \<Rightarrow> Some r
                   | None \<Rightarrow> selectPart iv highTime marked ps)"

fun selectRange :: "int \<Rightarrow> no_compact_map \<Rightarrow> meta list \<Rightarrow> int list \<Rightarrow> plan_error + meta list" where
  "selectRange highTime marked ms [] = Inr []"
| "selectRange highTime marked ms (iv # ivs) =
     (if iv = 0 then Inl DivisionByZero
      else case selectPart iv highTime marked (splitByRange ms iv) of
             Some r \<Rightarrow> Inr r
           | None \<Rightarrow> selectRange highTime marked ms ivs)"

definition selectMetas :: "int list \<Rightarrow> no_compact_map \<Rightarrow> meta list \<Rightarrow> plan_error + meta list" where
  "selectMetas ranges marked ms =
     (if length ranges < 2 \<or> length ms < 1 then Inr []
      else selectRange (minTime (last ms)) marked ms (tl ranges))"

section \<open>The plan\<close>

text \<open>
  \<^verbatim>\<open>float64(NumTombstones)/float64(NumSeries+1) > 0.05\<close> in IEEE double precision: the sum wraps
  around, the conversions round to 53 bits (a zero divisor gives an infinity). The constant
  is \<open>7205759403792794 / 2^57\<close>; a quotient rounds (to nearest, ties to even) above it exactly
  when it exceeds the midpoint \<open>14411518807585589 / 2^58\<close> to the next double.
\<close>

definition manyTombstones :: "meta \<Rightarrow> bool" where
  "manyTombstones m \<longleftrightarrow>
     round53 (int (numTombstones m)) * 2 ^ 58
       > 14411518807585589 * round53 (int ((numSeries m + 1) mod 2 ^ 64))"

fun tombstoneLoop :: "int list \<Rightarrow> meta list \<Rightarrow> plan_error + meta list" where
  "tombstoneLoop ranges [] = Inr []"
| "tombstoneLoop ranges (m # ms) =
     (if ranges = [] then Inl IndexOutOfRange
      else if i64 (maxTime m - minTime m) < ranges ! (length ranges div 2) then Inr []
      else if manyTombstones m then Inr [m]
      else tombstoneLoop ranges ms)"

definition plan :: "int list \<Rightarrow> no_compact_map \<Rightarrow> meta list \<Rightarrow> plan_error + meta list" where
  "plan ranges marked ms =
     (let notExcluded = filter (\<lambda>m. marked (metaULID m) = None) ms;
          res = selectOverlappingMetas notExcluded
      in if res \<noteq> [] then Inr res
         else if ms = [] then Inl IndexOutOfRange
         else let notExcluded' = (if marked (metaULID (last ms)) = None
                                  then butlast notExcluded else notExcluded)
              in case selectMetas ranges marked (butlast ms) of
                   Inl e \<Rightarrow> Inl e
                 | Inr r \<Rightarrow> if r \<noteq> [] then Inr r
                            else tombstoneLoop ranges (rev notExcluded'))"

section \<open>Specification vocabulary\<close>

text \<open>Two half-open blocks overlap when the later starts before the earlier ends.\<close>

definition noOverlaps :: "meta list \<Rightarrow> bool" where
  "noOverlaps ms = sorted_wrt (\<lambda>a b. maxTime a \<le> minTime b) ms"

fun chained :: "int \<Rightarrow> meta list \<Rightarrow> bool" where
  "chained g [] = True"
| "chained g (m # ms) = (minTime m < g \<and> chained (max g (maxTime m)) ms)"

text \<open>
  A block fits a range when it ends within the aligned window of that size in which it starts. The
  windows around a block have \<^verbatim>\<open>int64\<close> bounds when the block starts at least one range away from
  the ends of the \<^verbatim>\<open>int64\<close> axis.
\<close>

definition fitsRange :: "int \<Rightarrow> meta \<Rightarrow> bool" where
  "fitsRange tr m \<longleftrightarrow> maxTime m \<le> tr * (minTime m div tr) + tr"

definition windowFits :: "int \<Rightarrow> meta \<Rightarrow> bool" where
  "windowFits tr m \<longleftrightarrow> MinInt64 + tr \<le> minTime m \<and> minTime m + tr \<le> MaxInt64"

definition goodPart :: "int \<Rightarrow> int \<Rightarrow> meta list \<Rightarrow> bool" where
  "goodPart iv highTime p \<longleftrightarrow>
     \<not> list_ex failed p \<and> 2 \<le> length p
     \<and> (i64 (maxTime (last p) - minTime (hd p)) = iv \<or> maxTime (last p) \<le> highTime)"

section \<open>Overlap detection\<close>

lemma overlapLoop_nonempty: "acc \<noteq> [] \<Longrightarrow> overlapLoop prev gmax acc ms \<noteq> []"
  by (induction prev gmax acc ms rule: overlapLoop.induct) (auto simp: Let_def)

lemma overlapLoop_empty_iff:
  "overlapLoop prev gmax [] ms = [] \<longleftrightarrow>
     (\<forall>m \<in> set ms. gmax \<le> minTime m) \<and> noOverlaps ms"
proof (induction ms arbitrary: prev gmax)
  case Nil
  then show ?case by (simp add: noOverlaps_def)
next
  case (Cons m ms)
  show ?case
  proof (cases "minTime m < gmax")
    case True
    then show ?thesis
      using overlapLoop_nonempty [of "[prev, m]"] by (auto simp: Let_def)
  next
    case False
    then show ?thesis
      by (auto simp: Cons.IH noOverlaps_def Let_def)
  qed
qed

lemma selectOverlappingMetas_empty_iff:
  "selectOverlappingMetas ms = [] \<longleftrightarrow> noOverlaps ms"
  by (cases ms) (auto simp: selectOverlappingMetas_def overlapLoop_empty_iff noOverlaps_def)

text \<open>
  A chain of overlaps: every block starts before the greatest end time \<open>g\<close> seen so far.
\<close>

lemma chained_earlier:
  "chained (maxTime p) ms \<Longrightarrow> i < length ms \<Longrightarrow>
     \<exists>j \<le> i. minTime (ms ! i) < maxTime ((p # ms) ! j)"
proof (induction ms arbitrary: p i)
  case Nil
  then show ?case by simp
next
  case (Cons m ms)
  define q where "q = (if maxTime p < maxTime m then m else p)"
  have q: "maxTime q = max (maxTime p) (maxTime m)" "q = m \<or> q = p"
    by (auto simp: q_def)
  show ?case
  proof (cases i)
    case 0
    then show ?thesis using Cons.prems by auto
  next
    case (Suc k)
    then obtain j where j: "j \<le> k" "minTime (ms ! k) < maxTime ((q # ms) ! j)"
      using Cons.IH [of q k] Cons.prems q by auto
    show ?thesis
    proof (cases j)
      case 0
      then have "minTime (ms ! k) < maxTime p \<or> minTime (ms ! k) < maxTime m"
        using j q by auto
      then show ?thesis
      proof
        assume "minTime (ms ! k) < maxTime p"
        then show ?thesis using Suc by (intro exI [of _ 0]) simp
      next
        assume "minTime (ms ! k) < maxTime m"
        then show ?thesis using Suc by (intro exI [of _ 1]) simp
      qed
    next
      case (Suc l)
      then show ?thesis using j \<open>i = Suc k\<close> by (intro exI [of _ "Suc j"]) simp
    qed
  qed
qed

lemma overlapLoop_collect:
  "acc \<noteq> [] \<Longrightarrow>
     \<exists>run post. ms = run @ post \<and> overlapLoop prev g acc ms = acc @ run \<and> chained g run
       \<and> (post \<noteq> [] \<longrightarrow> g \<le> minTime (hd post) \<and> (\<forall>x \<in> set run. maxTime x \<le> minTime (hd post)))"
proof (induction ms arbitrary: prev g acc)
  case Nil
  then show ?case by simp
next
  case (Cons m ms)
  show ?case
  proof (cases "minTime m < g")
    case True
    obtain run post where *: "ms = run @ post"
      "overlapLoop m (max g (maxTime m)) (acc @ [m]) ms = (acc @ [m]) @ run"
      "chained (max g (maxTime m)) run"
      "post \<noteq> [] \<longrightarrow> max g (maxTime m) \<le> minTime (hd post) \<and> (\<forall>x \<in> set run. maxTime x \<le> minTime (hd post))"
      using Cons.IH [of "acc @ [m]" m "max g (maxTime m)"] by auto
    have "overlapLoop prev g acc (m # ms) = acc @ (m # run)"
      using True Cons.prems * by (simp add: Let_def max_def split: if_splits)
    then show ?thesis
      using * True by (intro exI [of _ "m # run"] exI [of _ post]) auto
  next
    case False
    then show ?thesis
      using Cons.prems by (intro exI [of _ "[]"] exI [of _ "m # ms"]) (auto simp: Let_def)
  qed
qed

lemma overlapLoop_first:
  assumes "overlapLoop prev (maxTime prev) [] ms \<noteq> []" and "wf_block_times ms"
  shows "\<exists>pre p run post. prev # ms = pre @ p # run @ post \<and> run \<noteq> []
      \<and> overlapLoop prev (maxTime prev) [] ms = p # run \<and> noOverlaps (pre @ [p])
      \<and> chained (maxTime p) run
      \<and> (post \<noteq> [] \<longrightarrow> (\<forall>x \<in> set (p # run). maxTime x \<le> minTime (hd post)))"
  using assms
proof (induction ms arbitrary: prev)
  case Nil
  then show ?case by simp
next
  case (Cons m ms)
  show ?case
  proof (cases "minTime m < maxTime prev")
    case True
    obtain run post where *: "ms = run @ post"
      "overlapLoop m (max (maxTime prev) (maxTime m)) [prev, m] ms = [prev, m] @ run"
      "chained (max (maxTime prev) (maxTime m)) run"
      "post \<noteq> [] \<longrightarrow> max (maxTime prev) (maxTime m) \<le> minTime (hd post)
         \<and> (\<forall>x \<in> set run. maxTime x \<le> minTime (hd post))"
      using overlapLoop_collect [of "[prev, m]" ms m "max (maxTime prev) (maxTime m)"] by auto
    have "overlapLoop prev (maxTime prev) [] (m # ms) = prev # m # run"
      using True * by (simp add: Let_def max_def split: if_splits)
    then show ?thesis
      using * True
      by (intro exI [of _ "[]"] exI [of _ prev] exI [of _ "m # run"] exI [of _ post])
        (auto simp: noOverlaps_def)
  next
    case False
    then have le: "maxTime prev \<le> minTime m" by simp
    have wf: "minTime m \<le> maxTime m" "wf_block_times ms"
      using Cons.prems by (auto simp: wf_block_times_def)
    have "(if maxTime m > maxTime prev then maxTime m else maxTime prev) = maxTime m"
      using le wf by simp
    then have eq: "overlapLoop prev (maxTime prev) [] (m # ms) = overlapLoop m (maxTime m) [] ms"
      using le by (simp only: overlapLoop.simps Let_def not_less [symmetric]) simp
    obtain pre p run post where *: "m # ms = pre @ p # run @ post" "run \<noteq> []"
      "overlapLoop m (maxTime m) [] ms = p # run" "noOverlaps (pre @ [p])"
      "chained (maxTime p) run"
      "post \<noteq> [] \<longrightarrow> (\<forall>x \<in> set (p # run). maxTime x \<le> minTime (hd post))"
      using Cons.IH [of m] Cons.prems wf eq by auto
    have "hd (pre @ [p]) = m" using *(1) by (cases pre) auto
    moreover have "\<forall>x \<in> set (pre @ [p]). minTime m \<le> minTime x"
    proof
      fix x assume x: "x \<in> set (pre @ [p])"
      show "minTime m \<le> minTime x"
      proof (cases "pre @ [p]")
        case (Cons y ys)
        then have "y = m" using \<open>hd (pre @ [p]) = m\<close> by simp
        then show ?thesis using *(4) x wf Cons by (auto simp: noOverlaps_def)
      qed simp
    qed
    ultimately have "noOverlaps ((prev # pre) @ [p])"
      using *(4) le by (fastforce simp: noOverlaps_def)
    then show ?thesis
      using * eq by (intro exI [of _ "prev # pre"] exI [of _ p] exI [of _ run] exI [of _ post]) auto
  qed
qed

lemma selectOverlappingMetas_split:
  assumes "selectOverlappingMetas ms \<noteq> []" and "wf_block_times ms"
  obtains pre p run post where "ms = pre @ p # run @ post" "run \<noteq> []"
    "selectOverlappingMetas ms = p # run" "noOverlaps (pre @ [p])" "chained (maxTime p) run"
    "post \<noteq> [] \<longrightarrow> (\<forall>x \<in> set (p # run). maxTime x \<le> minTime (hd post))"
proof -
  obtain m rest where ms: "ms = m # rest" "rest \<noteq> []"
    using assms(1) by (auto simp: selectOverlappingMetas_def split: list.splits if_splits)
  then have "overlapLoop m (maxTime m) [] rest \<noteq> []" "wf_block_times rest"
    using assms by (auto simp: selectOverlappingMetas_def wf_block_times_def)
  then obtain pre p run post where "m # rest = pre @ p # run @ post" "run \<noteq> []"
    "overlapLoop m (maxTime m) [] rest = p # run" "noOverlaps (pre @ [p])" "chained (maxTime p) run"
    "post \<noteq> [] \<longrightarrow> (\<forall>x \<in> set (p # run). maxTime x \<le> minTime (hd post))"
    using overlapLoop_first [of m rest] by blast
  moreover have "selectOverlappingMetas ms = overlapLoop m (maxTime m) [] rest"
    using ms by (simp add: selectOverlappingMetas_def)
  ultimately show thesis using ms(1) by (intro that) simp_all
qed

text \<open>
  C9: vertical compaction picks the first maximal run of overlapping blocks: the result is a contiguous
  part of the group of at least two blocks, everything up to its first block is free of overlaps,
  each further block starts before an earlier one of the run ends, and the block after the run
  starts after all of the run have ended.
\<close>

theorem selectOverlappingMetas_run:
  assumes "selectOverlappingMetas ms \<noteq> []" and "wf_block_times ms"
  shows "\<exists>pre post. ms = pre @ selectOverlappingMetas ms @ post
      \<and> 2 \<le> length (selectOverlappingMetas ms)
      \<and> noOverlaps (pre @ [hd (selectOverlappingMetas ms)])
      \<and> (\<forall>i. 0 < i \<and> i < length (selectOverlappingMetas ms) \<longrightarrow>
           (\<exists>j < i. minTime (selectOverlappingMetas ms ! i) < maxTime (selectOverlappingMetas ms ! j)))
      \<and> (post \<noteq> [] \<longrightarrow>
           (\<forall>x \<in> set (selectOverlappingMetas ms). maxTime x \<le> minTime (hd post)))"
proof -
  obtain pre p run post where *: "ms = pre @ p # run @ post" "run \<noteq> []"
    "selectOverlappingMetas ms = p # run" "noOverlaps (pre @ [p])" "chained (maxTime p) run"
    "post \<noteq> [] \<longrightarrow> (\<forall>x \<in> set (p # run). maxTime x \<le> minTime (hd post))"
    using selectOverlappingMetas_split [OF assms] .
  have "\<exists>j < i. minTime ((p # run) ! i) < maxTime ((p # run) ! j)"
    if i: "0 < i" "i < length (p # run)" for i
  proof -
    obtain k where k: "i = Suc k" using i by (cases i) auto
    then obtain j where "j \<le> k" "minTime (run ! k) < maxTime ((p # run) ! j)"
      using chained_earlier [OF *(5), of k] i by auto
    then show ?thesis using k by (intro exI [of _ j]) simp
  qed
  moreover have "2 \<le> length (p # run)" using *(2) by (cases run) auto
  ultimately show ?thesis
    using * by (intro exI [of _ pre] exI [of _ post]) auto
qed

section \<open>Aligned ranges\<close>

lemma go_div_floor:
  assumes "0 < tr" and "t < 0"
  shows "go_div (t - tr + 1) tr = t div tr"
proof -
  have "go_div (t - tr + 1) tr = - ((- (t - tr + 1)) div tr)"
    using assms by (intro go_div_neg) auto
  also have "(- (t - tr + 1)) div tr = (- t - 1 + 1 * tr) div tr" by (simp add: algebra_simps)
  also have "\<dots> = 1 + (- t - 1) div tr" using assms(1) by (subst div_mult_self1) auto
  also have "(- t - 1) div tr = - (t div tr) - 1"
  proof -
    have "- t - 1 = (- (t div tr) - 1) * tr + (tr - 1 - t mod tr)"
      by (simp add: algebra_simps minus_mod_eq_mult_div [symmetric])
    moreover have "0 \<le> t mod tr" "t mod tr < tr" using assms(1) by simp_all
    moreover from this have "0 \<le> tr - 1 - t mod tr" "tr - 1 - t mod tr < tr" by linarith+
    ultimately show ?thesis
      by (metis add.commute div_mult_self1 div_pos_pos_trivial add_0 less_irrefl assms(1))
  qed
  finally show ?thesis by simp
qed

lemma aligned_bounds:
  "0 < tr \<Longrightarrow> tr * (t div tr) \<le> t \<and> t < tr * (t div tr) + tr" for t tr :: int
proof -
  assume "0 < tr"
  then have "0 \<le> t mod tr" "t mod tr < tr" by simp_all
  then show ?thesis using mult_div_mod_eq [of tr t] by linarith
qed

lemma div_bounds: "0 < tr \<Longrightarrow> min t 0 \<le> t div tr \<and> t div tr \<le> max t 0" for t tr :: int
proof (cases "0 \<le> t")
  case True
  assume tr: "0 < tr"
  have "t div tr \<le> t" using zdiv_mono2 [of t 1 tr] True tr by simp
  then show ?thesis using True tr by (simp add: pos_imp_zdiv_nonneg_iff)
next
  case False
  assume tr: "0 < tr"
  have "t \<le> t div tr" using zdiv_mono2_neg [of t 1 tr] False tr by simp
  then show ?thesis using False tr by (simp add: pos_imp_zdiv_neg_iff less_imp_le)
qed

lemma rangeStart_div:
  assumes "0 < tr" and "MinInt64 + tr \<le> t" and "t \<le> MaxInt64"
  shows "rangeStart t tr = tr * (t div tr)"
proof -
  note b = aligned_bounds [OF assms(1), of t] and d = div_bounds [OF assms(1), of t]
  have "MinInt64 \<le> min t 0" "max t 0 \<le> MaxInt64"
    using assms by (simp_all add: MinInt64_def MaxInt64_def)
  then have q: "i64 (t div tr) = t div tr" using d by (intro i64_id) linarith+
  have p: "i64 (tr * (t div tr)) = tr * (t div tr)" using b assms by (intro i64_id) linarith+
  show ?thesis
  proof (cases "t \<ge> 0")
    case True
    then show ?thesis using assms(1) p q by (simp add: rangeStart_def go_div_nonneg)
  next
    case False
    then have "i64 (t - tr + 1) = t - tr + 1"
      using assms by (intro i64_id) (simp_all add: MinInt64_def MaxInt64_def)
    then show ?thesis
      using False go_div_floor [OF assms(1), of t] p q by (simp add: rangeStart_def)
  qed
qed

lemma window_end:
  assumes "0 < tr" and "windowFits tr m"
  shows "rangeStart (minTime m) tr = tr * (minTime m div tr)"
    and "i64 (rangeStart (minTime m) tr + tr) = tr * (minTime m div tr) + tr"
proof -
  show s: "rangeStart (minTime m) tr = tr * (minTime m div tr)"
    using assms by (intro rangeStart_div) (auto simp: windowFits_def)
  show "i64 (rangeStart (minTime m) tr + tr) = tr * (minTime m div tr) + tr"
    unfolding s using assms aligned_bounds [OF assms(1), of "minTime m"]
    by (intro i64_id) (auto simp: windowFits_def)
qed

text \<open>Within the window of an earlier block, fitting that window and fitting one's own agree.\<close>

lemma fits_window:
  assumes "0 < tr" "s \<le> minTime m" and "maxTime m \<le> tr * (s div tr) + tr"
  shows "fitsRange tr m"
proof -
  have "tr * (s div tr) \<le> tr * (minTime m div tr)"
    using assms by (simp add: zdiv_mono1)
  then show ?thesis using assms(3) by (simp add: fitsRange_def)
qed

lemma splitByRange_fits:
  assumes "0 < tr" and "sorted_by_min_time ms" and "\<forall>m \<in> set ms. windowFits tr m"
  shows "concat (splitByRange ms tr) = filter (fitsRange tr) ms"
  using assms
proof (induction ms tr rule: splitByRange.induct)
  case (1 tr)
  then show ?case by simp
next
  case (2 m ms tr)
  let ?t0 = "rangeStart (minTime m) tr"
  let ?P = "\<lambda>x. \<not> maxTime x > i64 (?t0 + tr)"
  have srt: "sorted_by_min_time ms" "\<forall>x \<in> set ms. minTime m \<le> minTime x"
    using "2.prems" by (auto simp: sorted_by_min_time_Cons)
  have w: "i64 (?t0 + tr) = tr * (minTime m div tr) + tr"
    using "2.prems" by (intro window_end) auto
  show ?case
  proof (cases "maxTime m > i64 (?t0 + tr)")
    case True
    then show ?thesis
      using "2.IH"(1) [OF refl True] "2.prems" srt by (simp add: fitsRange_def w)
  next
    case False
    let ?rest = "dropWhile ?P ms"
    have sub: "set ?rest \<subseteq> set ms" by (meson set_dropWhileD subsetI)
    have "sorted_by_min_time ?rest"
      using srt(1) unfolding sorted_by_min_time_def
      by (metis sorted_wrt_append takeWhile_dropWhile_id)
    then have IH: "concat (splitByRange ?rest tr) = filter (fitsRange tr) ?rest"
      using "2.IH"(2) [OF refl False] "2.prems" sub by auto
    have "filter (fitsRange tr) (takeWhile ?P ms) = takeWhile ?P ms"
    proof (rule filter_True, rule ballI)
      fix x assume x: "x \<in> set (takeWhile ?P ms)"
      then have "x \<in> set ms" "?P x" by (auto dest: set_takeWhileD)
      then show "fitsRange tr x"
        using fits_window [of tr "minTime m" x] "2.prems"(1) srt w by auto
    qed
    moreover have "filter (fitsRange tr) ms
        = filter (fitsRange tr) (takeWhile ?P ms) @ filter (fitsRange tr) ?rest"
      by (metis filter_append takeWhile_dropWhile_id)
    moreover have "fitsRange tr m" using False by (simp add: fitsRange_def w)
    ultimately show ?thesis
      using False IH by (simp add: Let_def)
  qed
qed

lemma splitByRange_window:
  assumes "0 < tr" and "sorted_by_min_time ms" and "\<forall>m \<in> set ms. windowFits tr m"
    and "g \<in> set (splitByRange ms tr)"
  shows "g \<noteq> [] \<and> (\<exists>t0. tr dvd t0 \<and> (\<forall>x \<in> set g. t0 \<le> minTime x \<and> maxTime x \<le> t0 + tr))"
  using assms
proof (induction ms tr rule: splitByRange.induct)
  case (1 tr)
  then show ?case by simp
next
  case (2 m ms tr)
  let ?t0 = "rangeStart (minTime m) tr"
  let ?P = "\<lambda>x. \<not> maxTime x > i64 (?t0 + tr)"
  have srt: "sorted_by_min_time ms" "\<forall>x \<in> set ms. minTime m \<le> minTime x"
    using "2.prems" by (auto simp: sorted_by_min_time_Cons)
  have w: "i64 (?t0 + tr) = tr * (minTime m div tr) + tr"
    using "2.prems" by (intro window_end) auto
  have t0: "tr * (minTime m div tr) \<le> minTime m" using aligned_bounds "2.prems"(1) by blast
  show ?case
  proof (cases "maxTime m > i64 (?t0 + tr)")
    case True
    then show ?thesis using "2.IH"(1) [OF refl True] "2.prems" srt by simp
  next
    case False
    have rest: "sorted_by_min_time (dropWhile ?P ms)"
      using srt(1) unfolding sorted_by_min_time_def
      by (metis sorted_wrt_append takeWhile_dropWhile_id)
    have sub: "\<forall>x \<in> set (dropWhile ?P ms). windowFits tr x"
      using "2.prems"(3) by (auto dest: set_dropWhileD)
    show ?thesis
    proof (cases "g = m # takeWhile ?P ms")
      case True
      have "\<forall>x \<in> set g. tr * (minTime m div tr) \<le> minTime x \<and> maxTime x \<le> tr * (minTime m div tr) + tr"
        using True False t0 srt(2) w by (auto dest!: set_takeWhileD intro: order_trans)
      then show ?thesis using True by (intro conjI exI [of _ "tr * (minTime m div tr)"]) auto
    next
      case neq: False
      then show ?thesis
        using "2.IH"(2) [OF refl False] "2.prems" rest sub False by (simp add: Let_def)
    qed
  qed
qed

text \<open>
  C10: splitting a group, sorted by start time, by a positive range loses and duplicates nothing: the
  parts, in order, are exactly the blocks that end within the aligned window of that range in which
  they start, and each part is non-empty and lies in one aligned window. The blocks start at least
  one range away from the ends of the \<^verbatim>\<open>int64\<close> axis, so that no window bound wraps around.
\<close>

theorem splitByRange_concat:
  assumes "0 < tr" and "sorted_by_min_time ms"
    and "\<forall>m \<in> set ms. MinInt64 + tr \<le> minTime m \<and> minTime m + tr \<le> MaxInt64"
  shows "concat (splitByRange ms tr) = filter (\<lambda>m. maxTime m \<le> tr * (minTime m div tr) + tr) ms
    \<and> (\<forall>g \<in> set (splitByRange ms tr). g \<noteq> []
         \<and> (\<exists>t0. tr dvd t0 \<and> (\<forall>x \<in> set g. t0 \<le> minTime x \<and> maxTime x \<le> t0 + tr)))"
proof -
  have fits: "\<forall>m \<in> set ms. windowFits tr m" using assms(3) by (simp add: windowFits_def)
  have "fitsRange tr = (\<lambda>m. maxTime m \<le> tr * (minTime m div tr) + tr)"
    by (simp add: fun_eq_iff fitsRange_def)
  then show ?thesis
    using splitByRange_fits [OF assms(1,2) fits] splitByRange_window [OF assms(1,2) fits] by simp
qed

text \<open>
  At the ends of the axis the bound does wrap: a block in the last window of \<^verbatim>\<open>int64\<close> is skipped,
  although it fits.
\<close>

lemma splitByRange_wraps:
  "splitByRange [rawBlock 1 (2 ^ 63 - 10) (2 ^ 63 - 1)] 7200000 = []
   \<and> fitsRange 7200000 (rawBlock 1 (2 ^ 63 - 10) (2 ^ 63 - 1))"
  by code_simp

lemma concat_splitByRange_subseq: "subseq (concat (splitByRange ms tr)) ms"
proof (induction ms tr rule: splitByRange.induct)
  case (1 tr)
  then show ?case by simp
next
  case (2 m ms tr)
  let ?P = "\<lambda>x. \<not> maxTime x > i64 (rangeStart (minTime m) tr + tr)"
  show ?case
  proof (cases "maxTime m > i64 (rangeStart (minTime m) tr + tr)")
    case True
    then show ?thesis using 2 by (simp add: list_emb_Cons)
  next
    case False
    have "subseq (takeWhile ?P ms @ concat (splitByRange (dropWhile ?P ms) tr)) (takeWhile ?P ms @ dropWhile ?P ms)"
      using "2.IH"(2) [OF refl False] by (intro list_emb_append_mono) auto
    then show ?thesis using False by (simp add: Let_def)
  qed
qed

section \<open>Selected ranges\<close>

lemma unexcludedRun_Some:
  assumes "unexcludedRun marked cur p = Some r" and "\<forall>x \<in> set cur. marked (metaULID x) = None"
  shows "sublist r (cur @ p) \<and> 2 \<le> length r \<and> (\<forall>x \<in> set r. marked (metaULID x) = None)"
  using assms
proof (induction p arbitrary: cur)
  case Nil
  then show ?case by (simp split: if_splits)
next
  case (Cons m ms)
  show ?case
  proof (cases "marked (metaULID m) = None")
    case True
    then show ?thesis using Cons.IH [of "cur @ [m]"] Cons.prems by simp
  next
    case marked: False
    show ?thesis
    proof (cases "length cur > 1")
      case True
      then have "r = cur" using marked Cons.prems by (simp split: if_splits)
      then show ?thesis using True Cons.prems(2) sublist_appendI [of cur "[]" "m # ms"] by simp
    next
      case False
      then have "sublist r ms \<and> 2 \<le> length r \<and> (\<forall>x \<in> set r. marked (metaULID x) = None)"
        using marked Cons.prems Cons.IH [of "[]"] by (simp split: if_splits)
      moreover have "sublist ms (cur @ m # ms)"
        using sublist_appendI [of ms "cur @ [m]" "[]"] by simp
      ultimately show ?thesis using sublist_order.order_trans by blast
    qed
  qed
qed

lemma selectPart_Some:
  assumes "selectPart iv highTime marked ps = Some r"
  shows "\<exists>p \<in> set ps. goodPart iv highTime p \<and> sublist r p \<and> 2 \<le> length r
           \<and> (\<forall>x \<in> set r. marked (metaULID x) = None)"
  using assms
proof (induction ps)
  case Nil
  then show ?case by simp
next
  case (Cons p ps)
  show ?case
  proof (cases "goodPart iv highTime p \<and> unexcludedRun marked [] p = Some r")
    case True
    then show ?thesis using unexcludedRun_Some [of marked "[]" p r] by auto
  next
    case False
    then have "selectPart iv highTime marked ps = Some r"
      using Cons.prems by (auto simp: goodPart_def Let_def not_less split: if_splits option.splits)
    then show ?thesis using Cons.IH by auto
  qed
qed

lemma selectRange_Inr:
  assumes "selectRange highTime marked ms ivs = Inr r" and "r \<noteq> []"
  shows "\<exists>iv \<in> set ivs. iv \<noteq> 0 \<and> selectPart iv highTime marked (splitByRange ms iv) = Some r"
  using assms by (induction ivs) (auto split: if_splits option.splits)

lemma selectRange_subseq:
  assumes "selectRange highTime marked ms ivs = Inr r" and "r \<noteq> []"
  shows "subseq r ms"
proof -
  obtain iv where "selectPart iv highTime marked (splitByRange ms iv) = Some r"
    using selectRange_Inr [OF assms] by blast
  then obtain p where "p \<in> set (splitByRange ms iv)" "sublist r p"
    using selectPart_Some by blast
  then have "sublist r (concat (splitByRange ms iv))"
    by (meson sublist_concat sublist_order.order_trans)
  then show ?thesis
    by (meson concat_splitByRange_subseq sublist_imp_subseq subseq_order.order_trans)
qed

lemma selectMetas_unmarked:
  assumes "selectMetas ranges marked ms = Inr r" and "r \<noteq> []"
  shows "subseq r ms" and "\<forall>x \<in> set r. marked (metaULID x) = None" and "2 \<le> length r"
proof -
  have sel: "selectRange (minTime (last ms)) marked ms (tl ranges) = Inr r"
    using assms by (auto simp: selectMetas_def split: if_splits)
  then show "subseq r ms" using assms(2) by (rule selectRange_subseq)
  obtain iv where "selectPart iv (minTime (last ms)) marked (splitByRange ms iv) = Some r"
    using selectRange_Inr [OF sel assms(2)] by blast
  from selectPart_Some [OF this]
  show "\<forall>x \<in> set r. marked (metaULID x) = None" and "2 \<le> length r" by auto
qed

lemma tombstoneLoop_Inr:
  assumes "tombstoneLoop ranges ms = Inr r"
  shows "r = [] \<or> (\<exists>m \<in> set ms. r = [m] \<and> manyTombstones m
           \<and> ranges ! (length ranges div 2) \<le> i64 (maxTime m - minTime m))"
  using assms by (induction ms) (auto split: if_splits)

lemma tombstoneLoop_ok: "ranges \<noteq> [] \<Longrightarrow> \<exists>r. tombstoneLoop ranges ms = Inr r"
  by (induction ms) auto

lemma selectRange_ok: "0 \<notin> set ivs \<Longrightarrow> \<exists>r. selectRange highTime marked ms ivs = Inr r"
  by (induction ivs) (auto split: option.splits)

lemma selectMetas_ok: "0 \<notin> set (tl ranges) \<Longrightarrow> \<exists>r. selectMetas ranges marked ms = Inr r"
  using selectRange_ok by (simp add: selectMetas_def)

text \<open>The three ways a plan is made: vertically, over a range, or over one block with tombstones.\<close>

lemma plan_cases:
  assumes "plan ranges marked ms = Inr r" and "r \<noteq> []"
  obtains
    (overlap) "r = selectOverlappingMetas (filter (\<lambda>m. marked (metaULID m) = None) ms)"
  | (range) "noOverlaps (filter (\<lambda>m. marked (metaULID m) = None) ms)" "ms \<noteq> []"
      "selectMetas ranges marked (butlast ms) = Inr r"
  | (tombstones) m where "noOverlaps (filter (\<lambda>m. marked (metaULID m) = None) ms)" "ms \<noteq> []"
      "m \<in> set (butlast ms)" "marked (metaULID m) = None" "r = [m]" "manyTombstones m"
proof -
  let ?ne = "filter (\<lambda>m. marked (metaULID m) = None) ms"
  show thesis
  proof (cases "selectOverlappingMetas ?ne = []")
    case False
    then show thesis using assms overlap by (simp add: plan_def Let_def)
  next
    case True
    then have no: "noOverlaps ?ne" by (simp add: selectOverlappingMetas_empty_iff)
    have ne: "ms \<noteq> []" using assms True by (auto simp: plan_def Let_def)
    then obtain r' where sel: "selectMetas ranges marked (butlast ms) = Inr r'"
      using assms True by (auto simp: plan_def Let_def split: sum.splits)
    show thesis
    proof (cases "r' = []")
      case False
      then show thesis using range [OF no ne] assms True ne sel by (auto simp: plan_def Let_def)
    next
      case empty: True
      let ?ne' = "if marked (metaULID (last ms)) = None then butlast ?ne else ?ne"
      have "?ne' = filter (\<lambda>m. marked (metaULID m) = None) (butlast ms)"
        using ne by (cases ms rule: rev_cases) auto
      then have "tombstoneLoop ranges (rev (filter (\<lambda>m. marked (metaULID m) = None) (butlast ms))) = Inr r"
        using assms True ne sel empty by (simp add: plan_def Let_def)
      from tombstoneLoop_Inr [OF this] obtain m where
        "m \<in> set (butlast ms)" "marked (metaULID m) = None" "r = [m]" "manyTombstones m"
        using assms(2) by auto
      then show thesis using tombstones [OF no ne] by blast
    qed
  qed
qed

lemma overlapLoop_subset: "set (overlapLoop prev g acc ms) \<subseteq> insert prev (set acc \<union> set ms)"
  by (induction prev g acc ms rule: overlapLoop.induct) (auto simp: Let_def split: if_splits)

lemma selectOverlappingMetas_subset: "set (selectOverlappingMetas ms) \<subseteq> set ms"
proof (cases ms)
  case Nil
  then show ?thesis by (simp add: selectOverlappingMetas_def)
next
  case (Cons m rest)
  then show ?thesis
    using overlapLoop_subset [of m "maxTime m" "[]" rest]
    by (simp add: selectOverlappingMetas_def)
qed

lemma plan_unmarked:
  assumes "plan ranges marked ms = Inr r" and "x \<in> set r"
  shows "x \<in> set ms \<and> marked (metaULID x) = None"
proof -
  have "r \<noteq> []" using assms(2) by auto
  with assms(1) show ?thesis
  proof (cases rule: plan_cases)
    case overlap
    then show ?thesis
      using assms(2) selectOverlappingMetas_subset [of "filter (\<lambda>m. marked (metaULID m) = None) ms"] by auto
  next
    case range
    then show ?thesis
      using assms(2) selectMetas_unmarked(1,2) [OF range(3) \<open>r \<noteq> []\<close>] set_subseq [of r "butlast ms"]
      by (auto dest: in_set_butlastD)
  next
    case (tombstones m)
    then show ?thesis using assms(2) by (auto dest: in_set_butlastD)
  qed
qed

section \<open>Properties of the plan\<close>

lemma overlapLoop_sublist: "sublist (overlapLoop prev g [] ms) (prev # ms)"
proof (induction ms arbitrary: prev g)
  case Nil
  then show ?case by simp
next
  case (Cons m ms)
  let ?g = "if maxTime m > g then maxTime m else g"
  show ?case
  proof (cases "minTime m < g")
    case True
    obtain run post where "ms = run @ post" "overlapLoop m ?g [prev, m] ms = [prev, m] @ run"
      using overlapLoop_collect [of "[prev, m]" ms m ?g] by auto
    then show ?thesis
      using True sublist_appendI [of "prev # m # run" "[]" post] by (simp add: Let_def)
  next
    case False
    then have "overlapLoop prev g [] (m # ms) = overlapLoop m ?g [] ms" by (simp add: Let_def)
    moreover have "sublist (m # ms) (prev # m # ms)"
      using sublist_appendI [of "m # ms" "[prev]" "[]"] by simp
    ultimately show ?thesis using Cons.IH sublist_order.order_trans by metis
  qed
qed

lemma selectOverlappingMetas_sublist: "sublist (selectOverlappingMetas ms) ms"
  using overlapLoop_sublist by (simp add: selectOverlappingMetas_def split: list.split)

text \<open>C5: a plan is an order-preserving selection of the group's blocks and never contains a block marked no-compact, whatever the ranges and markers are.\<close>

theorem plan_safe:
  assumes "plan ranges marked ms = Inr r"
  shows "subseq r ms \<and> (\<forall>x \<in> set r. marked (metaULID x) = None)"
proof (cases "r = []")
  case True
  then show ?thesis by simp
next
  case False
  with assms have "subseq r ms"
  proof (cases rule: plan_cases)
    case overlap
    then have "sublist r (filter (\<lambda>m. marked (metaULID m) = None) ms)"
      using selectOverlappingMetas_sublist by simp
    then show ?thesis
      using sublist_imp_subseq subseq_filter_left subseq_order.order_trans by blast
  next
    case range
    then show ?thesis
      using selectMetas_unmarked(1) [OF range(3) False] subseq_take [of "length ms - 1" ms]
        subseq_order.order_trans by (metis butlast_conv_take)
  next
    case (tombstones m)
    then show ?thesis by (simp add: subseq_singleton_left in_set_butlastD)
  qed
  then show ?thesis using plan_unmarked [OF assms] by blast
qed

text \<open>
  On a non-empty group, with at least one configured range and no zero range, planning never panics
  (no index out of range, no division by zero).
\<close>

lemma plan_no_panic:
  assumes "ms \<noteq> []" and "ranges \<noteq> []" and "0 \<notin> set (tl ranges)"
  shows "\<exists>r. plan ranges marked ms = Inr r"
proof -
  obtain r where "selectMetas ranges marked (butlast ms) = Inr r"
    using selectMetas_ok [OF assms(3)] by blast
  then show ?thesis
    using assms(1,2) tombstoneLoop_ok [OF assms(2)] by (simp add: plan_def Let_def)
qed

lemma manyTombstones_5_percent:
  assumes "manyTombstones m" and "numTombstones m < 2 ^ 53" and "numSeries m + 1 < 2 ^ 53"
  shows "numSeries m + 1 < 20 * numTombstones m"
proof -
  have "int (numTombstones m) < 2 ^ 53" "int (numSeries m + 1) < 2 ^ 53"
    using assms(2,3) by (simp_all add: zless_nat_eq_int_zless)
  moreover have "(numSeries m + 1) mod 2 ^ 64 = numSeries m + 1" using assms(3) by simp
  ultimately have "14411518807585589 * int (numSeries m + 1) < int (numTombstones m) * 2 ^ 58"
    using assms(1) unfolding manyTombstones_def by (simp only: round53_id)
  then show ?thesis by simp
qed

text \<open>
  C6: for a group sorted by start time and without overlaps, with positive ranges and blocks that
  start at least one range away from the ends of the \<^verbatim>\<open>int64\<close> axis, a non-empty plan never takes
  the newest block, and is either at least two blocks, none with a failed compaction, that lie in one
  aligned window of a configured range, or a single block that passes the tombstone test, which
  means more than 5% tombstones when the counts are exact in a \<^verbatim>\<open>float64\<close>.
\<close>

theorem plan_horizontal:
  assumes "plan ranges marked ms = Inr r" and "r \<noteq> []"
    and "noOverlaps (filter (\<lambda>m. marked (metaULID m) = None) ms)"
    and "sorted_by_min_time ms" and "\<forall>iv \<in> set (tl ranges). 0 < iv"
    and "\<forall>iv \<in> set (tl ranges). \<forall>m \<in> set ms. MinInt64 + iv \<le> minTime m \<and> minTime m + iv \<le> MaxInt64"
  shows "subseq r (butlast ms)
    \<and> ((\<exists>iv \<in> set (tl ranges). \<exists>t0. iv dvd t0 \<and> 2 \<le> length r
          \<and> (\<forall>x \<in> set r. \<not> failed x \<and> t0 \<le> minTime x \<and> maxTime x \<le> t0 + iv))
       \<or> (\<exists>m. r = [m] \<and> manyTombstones m
            \<and> (numTombstones m < 2 ^ 53 \<and> numSeries m + 1 < 2 ^ 53 \<longrightarrow> numSeries m + 1 < 20 * numTombstones m)))"
  using assms(1,2)
proof (cases rule: plan_cases)
  case overlap
  then have "r = []" using assms(3) by (simp add: selectOverlappingMetas_empty_iff)
  then show ?thesis using assms(2) by simp
next
  case range
  let ?ms = "butlast ms"
  have srt: "sorted_by_min_time ?ms"
    using assms(4) sorted_wrt_take_drop(1) by (metis butlast_conv_take sorted_by_min_time_def)
  have "selectRange (minTime (last ?ms)) marked ?ms (tl ranges) = Inr r"
    using range(3) assms(2) by (auto simp: selectMetas_def split: if_splits)
  then obtain iv where iv: "iv \<in> set (tl ranges)"
    "selectPart iv (minTime (last ?ms)) marked (splitByRange ?ms iv) = Some r"
    using selectRange_Inr assms(2) by blast
  then obtain p where p: "p \<in> set (splitByRange ?ms iv)" "\<not> list_ex failed p" "sublist r p" "2 \<le> length r"
    using selectPart_Some unfolding goodPart_def by blast
  have "0 < iv" using iv assms(5) by blast
  moreover have "\<forall>m \<in> set ?ms. windowFits iv m"
    using iv(1) assms(6) by (auto simp: windowFits_def dest: in_set_butlastD)
  ultimately obtain t0 where "iv dvd t0" "\<forall>x \<in> set p. t0 \<le> minTime x \<and> maxTime x \<le> t0 + iv"
    using splitByRange_window [OF _ srt _ p(1)] by blast
  moreover have "set r \<subseteq> set p" using set_mono_sublist [OF p(3)] .
  moreover from this have "\<forall>x \<in> set r. \<not> failed x" using p(2) by (auto simp: list_ex_iff)
  ultimately show ?thesis
    using iv(1) p(4) selectMetas_unmarked(1) [OF range(3) assms(2)] by blast
next
  case (tombstones m)
  then show ?thesis using manyTombstones_5_percent by (simp add: subseq_singleton_left)
qed

section \<open>Concrete groups\<close>

theorem selectOverlappingMetas_run_witness:
  "\<exists>pre post run. selectOverlappingMetas
       [rawBlock 1 0 10, rawBlock 2 10 20, rawBlock 3 15 30, rawBlock 4 30 40] = run
     \<and> [rawBlock 1 0 10, rawBlock 2 10 20, rawBlock 3 15 30, rawBlock 4 30 40] = pre @ run @ post
     \<and> 2 \<le> length run \<and> noOverlaps (pre @ [hd run])"
proof -
  let ?ms = "[rawBlock 1 0 10, rawBlock 2 10 20, rawBlock 3 15 30, rawBlock 4 30 40]"
  have r: "selectOverlappingMetas ?ms = [rawBlock 2 10 20, rawBlock 3 15 30]" by code_simp
  have "selectOverlappingMetas ?ms \<noteq> []" "wf_block_times ?ms" by code_simp+
  from selectOverlappingMetas_run [OF this] show ?thesis unfolding r by auto
qed

theorem splitByRange_concat_witness:
  "concat (splitByRange [rawBlock 1 0 10, rawBlock 2 5 25, rawBlock 3 20 40] 20) =
     [rawBlock 1 0 10, rawBlock 3 20 40]"
proof -
  have "sorted_by_min_time [rawBlock 1 0 10, rawBlock 2 5 25, rawBlock 3 20 40]"
    "\<forall>m \<in> set [rawBlock 1 0 10, rawBlock 2 5 25, rawBlock 3 20 40].
       MinInt64 + 20 \<le> minTime m \<and> minTime m + 20 \<le> MaxInt64" by code_simp+
  from splitByRange_concat [OF _ this] show ?thesis
    by (simp add: rawBlock_def)
qed

theorem plan_safe_witness:
  "\<exists>r. plan [20, 40] (\<lambda>_. None) [rawBlock 1 0 20, rawBlock 2 20 40, rawBlock 3 60 80] = Inr r
     \<and> r \<noteq> [] \<and> subseq r [rawBlock 1 0 20, rawBlock 2 20 40, rawBlock 3 60 80]"
proof -
  have "plan [20, 40] (\<lambda>_. None) [rawBlock 1 0 20, rawBlock 2 20 40, rawBlock 3 60 80] =
      Inr [rawBlock 1 0 20, rawBlock 2 20 40]" by code_simp
  with plan_safe [OF this] show ?thesis by blast
qed

lemma plan_no_panic_witness:
  "\<exists>r. plan [20, 60, 240] (\<lambda>i. if i = 2 then Some \<lparr>ncID = 2, ncVersion = 1\<rparr> else None)
         [rawBlock 1 0 20, rawBlock 2 20 40] = Inr r"
  by (rule plan_no_panic) simp_all

theorem plan_horizontal_witness:
  "\<exists>r. plan [20, 40] (\<lambda>_. None) [rawBlock 1 0 20, rawBlock 2 20 40, rawBlock 3 60 80] = Inr r
     \<and> r \<noteq> [] \<and> subseq r (butlast [rawBlock 1 0 20, rawBlock 2 20 40, rawBlock 3 60 80])"
proof -
  let ?ms = "[rawBlock 1 0 20, rawBlock 2 20 40, rawBlock 3 60 80]"
  have p: "plan [20, 40] (\<lambda>_. None) ?ms = Inr [rawBlock 1 0 20, rawBlock 2 20 40]" by code_simp
  have no: "noOverlaps (filter (\<lambda>m. (\<lambda>_. None :: no_compact_mark option) (metaULID m) = None) ?ms)" by code_simp
  have srt: "sorted_by_min_time ?ms" by code_simp
  have rs: "\<forall>iv \<in> set (tl [20, 40]). 0 < (iv :: int)" by simp
  have w: "\<forall>iv \<in> set (tl [20, 40]). \<forall>m \<in> set ?ms. MinInt64 + iv \<le> minTime m \<and> minTime m + iv \<le> MaxInt64"
    by code_simp
  from plan_horizontal [OF p _ no srt rs w] p show ?thesis by auto
qed

end
