(* ===== verification/Index_Size_Filter.thy ===== *)
theory Index_Size_Filter
  imports Planner Block_Safety
begin

text \<open>
  The planner wrapper that keeps the estimated index of a compacted block below a limit
  (\<^verbatim>\<open>largeTotalIndexSizeFilter\<close> of \<^verbatim>\<open>pkg/compact/planner.go\<close>): it plans, and while the indexes of the
  plan add up to too much it marks the biggest one for no compaction, in the bucket and in its own
  copy of the markers, and plans again.
\<close>

section \<open>The headroom in double precision\<close>

text \<open>
  \<^verbatim>\<open>int64(float64(n) * 0.85)\<close>: the conversion and the product round to 53 bits, to nearest with ties
  to even; the constant is \<open>7656119366529843 / 2^53\<close>; the conversion back truncates.
\<close>

definition headroomLimit :: "int \<Rightarrow> int" where
  "headroomLimit n =
     (let p = round53 (round53 \<bar>n\<bar> * 7656119366529843) div 2 ^ 53
      in if n < 0 then - p else p)"

section \<open>The planning loop\<close>

datatype filter_error = PlanPanic plan_error | AttrFailed bkt_error | MarkFailed bkt_error | FilterOutOfFuel

definition fileIndexSize :: "meta \<Rightarrow> int" where
  "fileIndexSize m =
     foldl (\<lambda>s f. if relPath f = IndexFilename then sizeBytes f else s) (-1) (files (thanos m))"

definition planIndexSize ::
  "faults \<Rightarrow> (object \<Rightarrow> int) \<Rightarrow> meta \<Rightarrow> bucket \<Rightarrow> (bkt_error + int) \<times> bucket" where
  "planIndexSize flt sz m b =
     (if fileIndexSize m \<le> 0 then bkt_attributes flt sz (indexName (metaULID m)) b
      else (Inr (fileIndexSize m), b))"

text \<open>
  The loop over one plan: \<open>biggest\<close> is \<^verbatim>\<open>plan[biggestIndex]\<close>. It ends with the block to mark, or
  with \<open>None\<close> when the whole plan stays below the limit.
\<close>

fun scanPlan ::
  "faults \<Rightarrow> (object \<Rightarrow> int) \<Rightarrow> int \<Rightarrow> meta \<Rightarrow> int \<Rightarrow> int \<Rightarrow> meta list \<Rightarrow> bucket
     \<Rightarrow> (bkt_error + meta option) \<times> bucket" where
  "scanPlan flt sz limit biggest maxSize tot [] b = (Inr None, b)"
| "scanPlan flt sz limit biggest maxSize tot (p # ps) b =
     andThen (planIndexSize flt sz p b) (\<lambda>indexSize b.
       let biggest' = (if maxSize < indexSize then p else biggest);
           maxSize' = (if maxSize < indexSize then indexSize else maxSize);
           tot' = i64 (tot + indexSize)
       in if tot' \<ge> headroomLimit limit then (Inr (Some biggest'), b)
          else scanPlan flt sz limit biggest' maxSize' tot' ps b)"

fun filteredPlan ::
  "nat \<Rightarrow> faults \<Rightarrow> (object \<Rightarrow> int) \<Rightarrow> int \<Rightarrow> int list \<Rightarrow> no_compact_map \<Rightarrow> meta list \<Rightarrow> bucket
     \<Rightarrow> (filter_error + meta list) \<times> bucket" where
  "filteredPlan 0 flt sz limit ranges marked ms b = (Inl FilterOutOfFuel, b)"
| "filteredPlan (Suc k) flt sz limit ranges marked ms b =
     (case plan ranges marked ms of
        Inl e \<Rightarrow> (Inl (PlanPanic e), b)
      | Inr [] \<Rightarrow> (Inr [], b)
      | Inr (p # ps) \<Rightarrow>
          (case scanPlan flt sz limit p MinInt64 0 (p # ps) b of
             (Inl e, b) \<Rightarrow> (Inl (AttrFailed e), b)
           | (Inr None, b) \<Rightarrow> (Inr (p # ps), b)
           | (Inr (Some m), b) \<Rightarrow>
               (case MarkForNoCompact flt (metaULID m) b of
                  (Inl e, b) \<Rightarrow> (Inl (MarkFailed e), b)
                | (Inr _, b) \<Rightarrow>
                    filteredPlan k flt sz limit ranges
                      (marked(metaULID m \<mapsto> \<lparr>ncID = metaULID m, ncVersion = 1\<rparr>)) ms b)))"

definition Plan ::
  "faults \<Rightarrow> (object \<Rightarrow> int) \<Rightarrow> int \<Rightarrow> int list \<Rightarrow> no_compact_map \<Rightarrow> meta list \<Rightarrow> bucket
     \<Rightarrow> (filter_error + meta list) \<times> bucket" where
  "Plan flt sz limit ranges marked ms b =
     filteredPlan (Suc (length (filter (\<lambda>m. marked (metaULID m) = None) ms)))
       flt sz limit ranges marked ms b"

section \<open>Specification vocabulary\<close>

definition indexSizeIn :: "(object \<Rightarrow> int) \<Rightarrow> contents \<Rightarrow> meta \<Rightarrow> int" where
  "indexSizeIn sz c m =
     (if fileIndexSize m \<le> 0 then sz (the (map_of c (indexName (metaULID m)))) else fileIndexSize m)"

definition sameButMarks :: "contents \<Rightarrow> contents \<Rightarrow> bool" where
  "sameButMarks o0 c \<longleftrightarrow> (\<forall>n. (\<forall>j. n \<noteq> noCompactMarkName j) \<longrightarrow> map_of c n = map_of o0 n)"

text \<open>
  The indexes of a plan are small enough for the running total not to wrap around: none is negative,
  and none reaches \<^verbatim>\<open>MaxInt64\<close> when it is added to a total below the limit.
\<close>

definition smallIndexes :: "(object \<Rightarrow> int) \<Rightarrow> int \<Rightarrow> contents \<Rightarrow> meta list \<Rightarrow> bool" where
  "smallIndexes sz limit c ms \<longleftrightarrow>
     list_all (\<lambda>m. 0 \<le> indexSizeIn sz c m \<and> indexSizeIn sz c m \<le> MaxInt64
       \<and> indexSizeIn sz c m + headroomLimit limit \<le> MaxInt64) ms"

text \<open>
  What a returned plan \<open>x\<close> is: a plan of the wrapped planner for markers that extend the given ones
  by blocks that now carry a marker in the bucket, with indexes that add up to less than the limit
  unless the total wraps around.
\<close>

definition belowLimit :: "(object \<Rightarrow> int) \<Rightarrow> int \<Rightarrow> contents \<Rightarrow> meta list \<Rightarrow> bool" where
  "belowLimit sz limit c x \<longleftrightarrow>
     x = [] \<or> (smallIndexes sz limit c x \<longrightarrow> sum_list (map (indexSizeIn sz c) x) < headroomLimit limit)"

definition planOutcome ::
  "(object \<Rightarrow> int) \<Rightarrow> int \<Rightarrow> int list \<Rightarrow> no_compact_map \<Rightarrow> meta list \<Rightarrow> bucket \<Rightarrow> meta list
     \<Rightarrow> bucket \<Rightarrow> bool" where
  "planOutcome sz limit ranges marked ms b x b' \<longleftrightarrow>
     (\<exists>marked'. plan ranges marked' ms = Inr x \<and> marked \<subseteq>\<^sub>m marked'
        \<and> (\<forall>i. marked' i \<noteq> None \<and> marked i = None \<longrightarrow> has_object (objects b') (noCompactMarkName i)))
     \<and> belowLimit sz limit (objects b) x
     \<and> sameButMarks (objects b) (objects b')"

definition rawSize :: "object \<Rightarrow> int" where
  "rawSize x = (case x of Raw d \<Rightarrow> int (length d) | _ \<Rightarrow> 0)"

definition threeBlocks :: "meta list" where
  "threeBlocks = [rawBlock 1 0 20, rawBlock 2 20 40, rawBlock 3 40 60, rawBlock 4 60 80]"

definition threeIndexes :: bucket where
  "threeIndexes =
     \<lparr>objects = [(indexName 1, Raw ''abc''), (indexName 2, Raw ''abcd''), (indexName 3, Raw ''abcdefgh'')],
      opcount = 0, trace = []\<rparr>"

section \<open>One scan\<close>

lemma planIndexSize_result:
  assumes "planIndexSize flt sz m b = (r, b')"
  shows "objects b' = objects b" and "\<And>s. r = Inr s \<Longrightarrow> s = indexSizeIn sz (objects b) m"
  using assms
  by (auto simp: planIndexSize_def bkt_attributes_def indexSizeIn_def split: if_splits option.splits)

lemma scanPlan_result:
  assumes "scanPlan flt sz limit biggest maxSize tot ps b = (r, b')"
  shows "objects b' = objects b
    \<and> (r = Inr None \<longrightarrow> ps = []
         \<or> (smallIndexes sz limit (objects b) ps \<and> 0 \<le> tot \<and> (tot = 0 \<or> tot < headroomLimit limit)
            \<longrightarrow> tot + sum_list (map (indexSizeIn sz (objects b)) ps) < headroomLimit limit))
    \<and> (\<forall>m. r = Inr (Some m) \<longrightarrow> m \<in> insert biggest (set ps))"
  using assms
proof (induction ps arbitrary: biggest maxSize tot b)
  case Nil
  then show ?case by auto
next
  case (Cons p ps)
  obtain r1 b1 where r1: "planIndexSize flt sz p b = (r1, b1)" by fastforce
  note sz = planIndexSize_result [OF r1]
  show ?case
  proof (cases r1)
    case (Inl e)
    then show ?thesis using Cons.prems r1 sz(1) by (auto simp: andThen_def)
  next
    case (Inr s)
    define biggest' where "biggest' = (if maxSize < s then p else biggest)"
    define maxSize' where "maxSize' = (if maxSize < s then s else maxSize)"
    have s: "s = indexSizeIn sz (objects b) p" using sz(2) Inr by simp
    show ?thesis
    proof (cases "i64 (tot + s) \<ge> headroomLimit limit")
      case True
      then show ?thesis using Cons.prems r1 sz(1) Inr by (auto simp: andThen_def Let_def)
    next
      case False
      then have "scanPlan flt sz limit biggest' maxSize' (i64 (tot + s)) ps b1 = (r, b')"
        using Cons.prems r1 Inr by (simp add: andThen_def Let_def biggest'_def maxSize'_def)
      note IH = Cons.IH [OF this]
      have "tot + s + sum_list (map (indexSizeIn sz (objects b)) ps) < headroomLimit limit"
        if n: "r = Inr None" and small: "smallIndexes sz limit (objects b) (p # ps)"
          and t: "0 \<le> tot" "tot = 0 \<or> tot < headroomLimit limit"
      proof -
        have b: "0 \<le> s" "s \<le> MaxInt64" "s + headroomLimit limit \<le> MaxInt64"
          "smallIndexes sz limit (objects b1) ps"
          using small s sz(1) by (simp_all add: smallIndexes_def)
        have "i64 (tot + s) = tot + s"
          using b(1-3) t by (intro i64_id) (auto simp: MinInt64_def)
        then show ?thesis
          using IH n b(1,4) t False sz(1) by (cases ps) auto
      qed
      then show ?thesis
        using IH s sz(1) by (auto simp: biggest'_def add.assoc split: if_splits)
    qed
  qed
qed

lemma MarkForNoCompact_same:
  assumes "MarkForNoCompact flt i b = (r, b')"
  shows "sameButMarks (objects b) (objects b')"
    and "\<And>j. has_object (objects b) (noCompactMarkName j) \<Longrightarrow> has_object (objects b') (noCompactMarkName j)"
    and "\<And>x. r = Inr x \<Longrightarrow> has_object (objects b') (noCompactMarkName i)"
  using assms
  by (auto simp: sameButMarks_def MarkForNoCompact_def andThen_def bkt_exists_def bkt_upload_def
      map_of_put_object split: if_splits fault.splits prod.splits sum.splits)

lemma sameButMarks_trans:
  "sameButMarks a b \<Longrightarrow> sameButMarks b c \<Longrightarrow> sameButMarks a c"
  by (simp add: sameButMarks_def)

lemma indexSizeIn_same: "sameButMarks c c' \<Longrightarrow> indexSizeIn sz c' = indexSizeIn sz c"
  by (auto simp: sameButMarks_def indexSizeIn_def fun_eq_iff block_names file_names)

lemma belowLimit_same: "sameButMarks c c' \<Longrightarrow> belowLimit sz limit c' x = belowLimit sz limit c x"
  by (simp add: belowLimit_def smallIndexes_def indexSizeIn_same)

section \<open>The loop\<close>

lemma unmarked_shrinks:
  assumes "m \<in> set ms" and "marked (metaULID m) = None"
  shows "length (filter (\<lambda>x. (marked(metaULID m \<mapsto> k)) (metaULID x) = None) ms)
     < length (filter (\<lambda>x. marked (metaULID x) = None) ms)"
proof -
  have eq: "filter (\<lambda>x. (marked(metaULID m \<mapsto> k)) (metaULID x) = None) ms
      = filter (\<lambda>x. metaULID x \<noteq> metaULID m) (filter (\<lambda>x. marked (metaULID x) = None) ms)"
    by (auto intro!: filter_cong)
  show ?thesis unfolding eq
    by (rule length_filter_less [of m]) (use assms in auto)
qed

lemma filteredPlan_step:
  assumes "filteredPlan (Suc k) flt sz limit ranges marked ms b = (r, b')"
  obtains (stop) "(\<forall>x. r = Inr x \<longrightarrow> plan ranges marked ms = Inr x
        \<and> belowLimit sz limit (objects b) x)"
      "sameButMarks (objects b) (objects b')" "r \<noteq> Inl FilterOutOfFuel"
      "\<And>j. has_object (objects b) (noCompactMarkName j) \<Longrightarrow> has_object (objects b') (noCompactMarkName j)"
    | (again) m b1 where "m \<in> set ms" "marked (metaULID m) = None"
      "sameButMarks (objects b) (objects b1)"
      "has_object (objects b1) (noCompactMarkName (metaULID m))"
      "\<And>j. has_object (objects b) (noCompactMarkName j) \<Longrightarrow> has_object (objects b1) (noCompactMarkName j)"
      "filteredPlan k flt sz limit ranges
         (marked(metaULID m \<mapsto> \<lparr>ncID = metaULID m, ncVersion = 1\<rparr>)) ms b1 = (r, b')"
proof -
  have same: "sameButMarks c c" for c by (simp add: sameButMarks_def)
  consider e where "plan ranges marked ms = Inl e" | "plan ranges marked ms = Inr []"
    | (some) p ps where "plan ranges marked ms = Inr (p # ps)"
    by (metis old.sum.exhaust list.exhaust)
  then show thesis
  proof cases
    case (some p ps)
    obtain sr b1 where sr: "scanPlan flt sz limit p MinInt64 0 (p # ps) b = (sr, b1)" by fastforce
    note scan = scanPlan_result [OF sr]
    consider e where "sr = Inl e" | "sr = Inr None" | (mark) m where "sr = Inr (Some m)"
      by (metis old.sum.exhaust option.exhaust)
    then show thesis
    proof cases
      case (mark m)
      obtain mr b2 where mr: "MarkForNoCompact flt (metaULID m) b1 = (mr, b2)" by fastforce
      have m: "m \<in> set ms" "marked (metaULID m) = None"
        using plan_unmarked [OF some, of m] scan mark by auto
      note marks = MarkForNoCompact_same [OF mr]
      have ob: "objects b1 = objects b" using scan by simp
      show thesis
      proof (cases mr)
        case (Inl e)
        then show thesis
          using assms some sr mark mr marks(1,2) ob by (intro stop) (auto simp del: scanPlan.simps)
      next
        case (Inr x)
        then show thesis
          using assms some sr mark mr marks ob m
          by (intro again [of m b2]) (auto simp del: scanPlan.simps)
      qed
    qed (use assms some sr scan same in \<open>auto intro!: stop simp: belowLimit_def simp del: scanPlan.simps\<close>)
  qed (use assms same in \<open>auto intro!: stop simp: belowLimit_def\<close>)
qed

lemma filteredPlan_fuel:
  assumes "length (filter (\<lambda>m. marked (metaULID m) = None) ms) < k"
  shows "fst (filteredPlan k flt sz limit ranges marked ms b) \<noteq> Inl FilterOutOfFuel"
  using assms
proof (induction k arbitrary: marked b)
  case 0
  then show ?case by simp
next
  case (Suc k)
  obtain r b' where r: "filteredPlan (Suc k) flt sz limit ranges marked ms b = (r, b')" by fastforce
  from r show ?case
  proof (cases rule: filteredPlan_step)
    case stop
    then show ?thesis by (simp add: r del: filteredPlan.simps)
  next
    case (again m b1)
    have "length (filter (\<lambda>x. (marked(metaULID m \<mapsto> \<lparr>ncID = metaULID m, ncVersion = 1\<rparr>)) (metaULID x) = None) ms) < k"
      using Suc.prems unmarked_shrinks [where m = m and marked = marked and ms = ms
          and k = "\<lparr>ncID = metaULID m, ncVersion = 1\<rparr>"] again(1,2) by linarith
    from Suc.IH [OF this, of b1] show ?thesis unfolding again(6) r by simp
  qed
qed

lemma filteredPlan_outcome:
  assumes "filteredPlan k flt sz limit ranges marked ms b = (Inr x, b')"
  shows "planOutcome sz limit ranges marked ms b x b'
    \<and> (\<forall>j. has_object (objects b) (noCompactMarkName j) \<longrightarrow> has_object (objects b') (noCompactMarkName j))"
  using assms
proof (induction k arbitrary: marked b)
  case 0
  then show ?case by simp
next
  case (Suc k)
  from Suc.prems show ?case
  proof (cases rule: filteredPlan_step)
    case stop
    then show ?thesis by (auto simp: planOutcome_def intro!: exI [of _ marked])
  next
    case (again m b1)
    let ?marked = "marked(metaULID m \<mapsto> \<lparr>ncID = metaULID m, ncVersion = 1\<rparr>)"
    note IH = Suc.IH [OF again(6)]
    obtain marked' where m': "plan ranges marked' ms = Inr x" "?marked \<subseteq>\<^sub>m marked'"
      "\<forall>i. marked' i \<noteq> None \<and> ?marked i = None \<longrightarrow> has_object (objects b') (noCompactMarkName i)"
      using IH unfolding planOutcome_def by blast
    have "marked \<subseteq>\<^sub>m ?marked" using again(2) by (auto simp: map_le_def)
    then have le: "marked \<subseteq>\<^sub>m marked'" using m'(2) map_le_trans by blast
    have own: "has_object (objects b') (noCompactMarkName (metaULID m))" using IH again(4) by blast
    have "has_object (objects b') (noCompactMarkName i)" if "marked' i \<noteq> None" "marked i = None" for i
      using m'(3) that own by (cases "i = metaULID m") auto
    then show ?thesis
      using IH again(3,5) m'(1) le belowLimit_same [OF again(3), of sz limit x] sameButMarks_trans
      unfolding planOutcome_def by metis
  qed
qed

text \<open>
  C17: the index-size filter ends after at most one round more than there are unmarked blocks (its loop
  never runs out of that fuel), and a plan it returns is a plan of the wrapped planner, under markers
  that only add blocks which now have a no-compact mark in the bucket; no object other than such
  marks changes. The index sizes of a non-empty plan add up to less than 85% of the limit (in
  \<^verbatim>\<open>float64\<close> arithmetic), provided that each is non-negative and that adding it to a total below
  that limit does not exceed \<^verbatim>\<open>MaxInt64\<close>.
\<close>

theorem Plan_bounded:
  "case Plan flt sz limit ranges marked ms b of
     (Inl e, b') \<Rightarrow> e \<noteq> FilterOutOfFuel
   | (Inr x, b') \<Rightarrow>
       (\<exists>marked'. plan ranges marked' ms = Inr x \<and> marked \<subseteq>\<^sub>m marked'
          \<and> (\<forall>i. marked' i \<noteq> None \<and> marked i = None \<longrightarrow> has_object (objects b') (noCompactMarkName i)))
       \<and> (x \<noteq> [] \<and> (\<forall>m \<in> set x. 0 \<le> indexSizeIn sz (objects b) m \<and> indexSizeIn sz (objects b) m \<le> MaxInt64
             \<and> indexSizeIn sz (objects b) m + headroomLimit limit \<le> MaxInt64)
          \<longrightarrow> sum_list (map (indexSizeIn sz (objects b)) x) < headroomLimit limit)
       \<and> sameButMarks (objects b) (objects b')"
proof -
  obtain r b' where r: "Plan flt sz limit ranges marked ms b = (r, b')" by fastforce
  have "r \<noteq> Inl FilterOutOfFuel"
    using filteredPlan_fuel [of marked ms "Suc (length (filter (\<lambda>m. marked (metaULID m) = None) ms))"
        flt sz limit ranges b] r by (simp add: Plan_def del: filteredPlan.simps)
  then show ?thesis
    using filteredPlan_outcome [of _ flt sz limit ranges marked ms b _ b'] r
    by (auto simp: Plan_def planOutcome_def belowLimit_def smallIndexes_def list_all_iff
        split: sum.splits simp del: filteredPlan.simps)
qed

theorem Plan_bounded_witness:
  "sum_list (map (indexSizeIn rawSize (objects threeIndexes)) [rawBlock 1 0 20, rawBlock 2 20 40])
     < headroomLimit 10
   \<and> has_object (objects (snd (Plan (\<lambda>_. NoFault) rawSize 10 [20, 60] (\<lambda>_. None) threeBlocks threeIndexes)))
       (noCompactMarkName 3)"
proof -
  let ?r = "Plan (\<lambda>_. NoFault) rawSize 10 [20, 60] (\<lambda>_. None) threeBlocks threeIndexes"
  have "fst ?r = Inr [rawBlock 1 0 20, rawBlock 2 20 40]" by code_simp
  moreover have "has_object (objects (snd ?r)) (noCompactMarkName 3)" by code_simp
  moreover have "\<forall>m \<in> set [rawBlock 1 0 20, rawBlock 2 20 40].
      0 \<le> indexSizeIn rawSize (objects threeIndexes) m \<and> indexSizeIn rawSize (objects threeIndexes) m \<le> MaxInt64
      \<and> indexSizeIn rawSize (objects threeIndexes) m + headroomLimit 10 \<le> MaxInt64" by code_simp
  ultimately show ?thesis
    using Plan_bounded [where flt = "\<lambda>_. NoFault" and sz = rawSize and limit = 10 and ranges = "[20, 60]"
        and marked = "\<lambda>_. None" and ms = threeBlocks and b = threeIndexes]
    by (cases ?r) (simp del: set_simps)
qed

text \<open>
  Without that proviso the total wraps around: two indexes of \<open>2^62\<close> bytes are found below the limit
  of \<open>2^63 - 1\<close> bytes.
\<close>

lemma Plan_wraps:
  "fst (Plan (\<lambda>_. NoFault) (\<lambda>_. 2 ^ 62) (2 ^ 63 - 1) [20, 40] (\<lambda>_. None) [rawBlock 1 0 20, rawBlock 2 20 40, rawBlock 3 60 80]
     threeIndexes) = Inr [rawBlock 1 0 20, rawBlock 2 20 40]"
  by code_simp

end
