(* ===== verification/Compact_Groups.thy ===== *)
theory Compact_Groups
  imports Meta_Fetcher Index_Size_Filter
begin

text \<open>
  The bookkeeping of the compactor (\<^verbatim>\<open>pkg/compact\<close>): the classes of its errors, the grouping of
  blocks, the garbage collection of superseded blocks, retention, and the deletion of marked and of
  partially uploaded blocks.
\<close>

section \<open>Errors\<close>

text \<open>
  Errors by the wrappers the compactor distinguishes. \<open>WrapErr\<close> is \<^verbatim>\<open>errors.Wrap\<close>, which \<^verbatim>\<open>errors.Cause\<close>
  looks through; the wrappers of the compactor itself are opaque to it.
\<close>

datatype go_error =
    BaseErr | WrapErr go_error | HaltErr go_error | RetryErr go_error | Issue347Err go_error ulid
  | MultiErr "go_error list"

fun errorCause :: "go_error \<Rightarrow> go_error" where
  "errorCause (WrapErr e) = errorCause e"
| "errorCause e = e"

definition isHalt :: "go_error \<Rightarrow> bool" where
  "isHalt e = (case errorCause e of HaltErr _ \<Rightarrow> True | _ \<Rightarrow> False)"

definition isRetry :: "go_error \<Rightarrow> bool" where
  "isRetry e = (case errorCause e of RetryErr _ \<Rightarrow> True | _ \<Rightarrow> False)"

definition IsIssue347Error :: "go_error \<Rightarrow> bool" where
  "IsIssue347Error e = (case errorCause e of Issue347Err _ _ \<Rightarrow> True | _ \<Rightarrow> False)"

definition IsHaltError :: "go_error \<Rightarrow> bool" where
  "IsHaltError e = (case errorCause e of MultiErr es \<Rightarrow> list_ex isHalt es | _ \<Rightarrow> isHalt e)"

definition IsRetryError :: "go_error \<Rightarrow> bool" where
  "IsRetryError e = (case errorCause e of MultiErr es \<Rightarrow> list_all isRetry es | _ \<Rightarrow> isRetry e)"

definition retry :: "go_error \<Rightarrow> go_error" where
  "retry e = (if IsHaltError e then e else RetryErr e)"

definition multiAdd :: "go_error list \<Rightarrow> go_error \<Rightarrow> go_error list" where
  "multiAdd es e = (case e of MultiErr fs \<Rightarrow> es @ fs | _ \<Rightarrow> es @ [e])"

section \<open>Groups\<close>

function showDigits :: "int \<Rightarrow> string" where
  "showDigits n =
     (if n < 10 then [char_of (48 + n)] else showDigits (n div 10) @ [char_of (48 + n mod 10)])"
  by pat_completeness auto
termination
  by (relation "measure nat") auto

declare showDigits.simps [simp del]

definition showInt :: "int \<Rightarrow> string" where
  "showInt k = (if k < 0 then CHR ''-'' # showDigits (- k) else showDigits k)"

text \<open>The hash of a label set is a function of the Prometheus library.\<close>

definition defaultGroupKey :: "(labels \<Rightarrow> 64 word) \<Rightarrow> int \<Rightarrow> labels \<Rightarrow> string" where
  "defaultGroupKey hash res lbls = showInt res @ ''@'' @ showDigits (uint (hash lbls))"

definition DefaultGroupKey :: "(labels \<Rightarrow> 64 word) \<Rightarrow> thanos_meta \<Rightarrow> string" where
  "DefaultGroupKey hash t = defaultGroupKey hash (resolution t) (labels_from_map (extLabels t))"

record compact_group =
  groupKey :: string
  groupLabels :: labels
  groupResolution :: int
  groupMetas :: "meta list"

definition NewGroup :: "string \<Rightarrow> labels \<Rightarrow> int \<Rightarrow> compact_group" where
  "NewGroup key lbls res = \<lparr>groupKey = key, groupLabels = lbls, groupResolution = res, groupMetas = []\<rparr>"

datatype group_error = LabelsDoNotMatch | ResolutionDoesNotMatch

definition AppendMeta :: "compact_group \<Rightarrow> meta \<Rightarrow> group_error + compact_group" where
  "AppendMeta g m =
     (if groupLabels g \<noteq> labels_from_map (extLabels (thanos m)) then Inl LabelsDoNotMatch
      else if groupResolution g \<noteq> resolution (thanos m) then Inl ResolutionDoesNotMatch
      else Inr (g\<lparr>groupMetas := sort_slice (\<lambda>a b. minTime a < minTime b) (groupMetas g @ [m])\<rparr>))"

definition groupIDs :: "compact_group \<Rightarrow> ulid list" where
  "groupIDs g = sort_slice (\<lambda>a b. a < b) (map metaULID (groupMetas g))"

definition groupMinTime :: "compact_group \<Rightarrow> int" where
  "groupMinTime g = (case groupMetas g of m # _ \<Rightarrow> minTime m | [] \<Rightarrow> MaxInt64)"

definition groupMaxTime :: "compact_group \<Rightarrow> int" where
  "groupMaxTime g = foldl (\<lambda>mx m. if maxTime m > mx then maxTime m else mx) MinInt64 (groupMetas g)"

text \<open>The map of groups by key, in the order in which the groups were created.\<close>

fun updateGroup ::
  "string \<Rightarrow> meta \<Rightarrow> compact_group list \<Rightarrow> (group_error + compact_group list) option" where
  "updateGroup key m [] = None"
| "updateGroup key m (g # gs) =
     (if groupKey g = key then Some (map_sum id (\<lambda>g'. g' # gs) (AppendMeta g m))
      else map_option (map_sum id (\<lambda>gs'. g # gs')) (updateGroup key m gs))"

definition addToGroups ::
  "(labels \<Rightarrow> 64 word) \<Rightarrow> compact_group list \<Rightarrow> meta \<Rightarrow> group_error + compact_group list" where
  "addToGroups hash gs m =
     (let key = DefaultGroupKey hash (thanos m)
      in case updateGroup key m gs of
           Some r \<Rightarrow> r
         | None \<Rightarrow>
             map_sum id (\<lambda>g. gs @ [g])
               (AppendMeta (NewGroup key (labels_from_map (extLabels (thanos m))) (resolution (thanos m))) m))"

fun groupLoop ::
  "(labels \<Rightarrow> 64 word) \<Rightarrow> compact_group list \<Rightarrow> meta list \<Rightarrow> group_error + compact_group list" where
  "groupLoop hash gs [] = Inr gs"
| "groupLoop hash gs (m # ms) =
     (case addToGroups hash gs m of Inl e \<Rightarrow> Inl e | Inr gs' \<Rightarrow> groupLoop hash gs' ms)"

definition Groups :: "(labels \<Rightarrow> 64 word) \<Rightarrow> meta_map \<Rightarrow> group_error + compact_group list" where
  "Groups hash blocks =
     map_sum id (sort_slice (\<lambda>a b. groupKey a < groupKey b)) (groupLoop hash [] (map snd blocks))"

section \<open>Synchronisation and garbage collection\<close>

text \<open>The syncer with what its duplicate and deletion-mark filters remember of the last fetch.\<close>

record syncer =
  syBlocks :: meta_map
  syPartial :: "(ulid \<times> meta_error) list"
  syDuplicates :: "ulid list"
  syMarks :: "(ulid \<times> deletion_mark) list"
  syNoCompact :: "(ulid \<times> no_compact_mark) list"

record sync_conf =
  scProcess :: "labels \<Rightarrow> labels"
  scIdString :: "ulid \<Rightarrow> string"
  scNow :: "64 word"
  scConsistencyDelay :: "64 word"
  scNowNs :: int
  scIgnoreDelayNs :: int
  scReplicaLabels :: "string list"

text \<open>
  The fetcher that \<^verbatim>\<open>cmd/thanos/compact.go\<close> gives the syncer: its filters in their order, then the
  removal of replica labels, which also changes the cached metadata. The last three components of a
  result are what the duplicate, deletion-mark and no-compact filters remember.
\<close>

type_synonym fetched =
  "meta_map \<times> (ulid \<times> meta_error) list \<times> ulid list \<times> (ulid \<times> deletion_mark) list \<times> (ulid \<times> no_compact_mark) list"

definition compactorFetch ::
  "faults \<Rightarrow> sync_conf \<Rightarrow> base_fetcher \<times> bucket \<Rightarrow> (go_error + fetched) \<times> base_fetcher \<times> bucket" where
  "compactorFetch flt conf st =
     (case fetchMetadata flt st of
        (Inl e, st) \<Rightarrow> (Inl BaseErr, st)
      | (Inr resp, f, b) \<Rightarrow>
          let ms = filter (\<lambda>(i, m). scProcess conf
                     ((''__block_id'', scIdString conf i) # extLabels (thanos m)) \<noteq> []) (metas resp);
              ms = filter (\<lambda>(i, m). \<not> tooFresh (scNow conf) (scConsistencyDelay conf) i m) ms
          in case ignoreDeletionMarkFilter flt (scNowNs conf) (scIgnoreDelayNs conf) ms b of
               (Inl e, b) \<Rightarrow> (Inl (WrapErr BaseErr), f, b)
             | (Inr (ms, marks), b) \<Rightarrow>
                 (case dedupFilter ms of (ms, dups) \<Rightarrow>
                  (case gatherNoCompactMarkFilter flt ms b of
                     (Inl e, b) \<Rightarrow> (Inl (WrapErr BaseErr), f, b)
                   | (Inr (ms, ncs), b) \<Rightarrow>
                       let ms = replicaLabelRemover (scReplicaLabels conf) ms; f = writeBack ms f
                       in if metaErrs resp \<noteq> [] then (Inl (WrapErr BaseErr), f, b)
                          else (Inr (ms, partial resp, dups, marks, ncs), f, b))))"

definition SyncMetas ::
  "faults \<Rightarrow> sync_conf \<Rightarrow> syncer \<Rightarrow> base_fetcher \<times> bucket
     \<Rightarrow> (go_error + syncer) \<times> base_fetcher \<times> bucket" where
  "SyncMetas flt conf sy st =
     (case compactorFetch flt conf st of
        (Inl e, st) \<Rightarrow> (Inl (retry e), st)
      | (Inr (ms, part, dups, marks, ncs), st) \<Rightarrow>
          (Inr (sy\<lparr>syBlocks := ms, syPartial := part, syDuplicates := dups, syMarks := marks,
                   syNoCompact := ncs\<rparr>), st))"

fun markGarbage ::
  "faults \<Rightarrow> int \<Rightarrow> ulid list \<Rightarrow> meta_map \<Rightarrow> bucket \<Rightarrow> (go_error option \<times> meta_map) \<times> bucket" where
  "markGarbage flt now [] blocks b = ((None, blocks), b)"
| "markGarbage flt now (i # is) blocks b =
     (case MarkForDeletion flt now i b of
        (Inl e, b) \<Rightarrow> ((Some (retry (WrapErr BaseErr)), blocks), b)
      | (Inr _, b) \<Rightarrow> markGarbage flt now is (delete_meta i blocks) b)"

definition garbageIDs :: "syncer \<Rightarrow> ulid list" where
  "garbageIDs sy = filter (\<lambda>i. map_of (syMarks sy) i = None) (syDuplicates sy)"

definition GarbageCollect ::
  "faults \<Rightarrow> int \<Rightarrow> syncer \<Rightarrow> bucket \<Rightarrow> (go_error option \<times> syncer) \<times> bucket" where
  "GarbageCollect flt now sy b =
     (case markGarbage flt now (garbageIDs sy) (syBlocks sy) b of
        ((e, blocks), b) \<Rightarrow> ((e, sy\<lparr>syBlocks := blocks\<rparr>), b))"

section \<open>Retention and cleaning\<close>

text \<open>
  Retention durations and the current time are in nanoseconds; the end of a block is rounded down to
  whole seconds.
\<close>

definition beyondRetention :: "(int \<Rightarrow> int) \<Rightarrow> int \<Rightarrow> meta \<Rightarrow> bool" where
  "beyondRetention retentionByResolution now m \<longleftrightarrow>
     retentionByResolution (resolution (thanos m)) \<noteq> 0
     \<and> now > go_div (maxTime m) 1000 * 1000000000 + retentionByResolution (resolution (thanos m))"

fun ApplyRetentionPolicyByResolution ::
  "faults \<Rightarrow> (int \<Rightarrow> int) \<Rightarrow> int \<Rightarrow> meta_map \<Rightarrow> bucket \<Rightarrow> (bkt_error + unit) \<times> bucket" where
  "ApplyRetentionPolicyByResolution flt retentionByResolution now [] b = (Inr (), b)"
| "ApplyRetentionPolicyByResolution flt retentionByResolution now ((i, m) # ms) b =
     (if beyondRetention retentionByResolution now m
      then andThen (MarkForDeletion flt (now div 1000000000) i b)
             (\<lambda>_. ApplyRetentionPolicyByResolution flt retentionByResolution now ms)
      else ApplyRetentionPolicyByResolution flt retentionByResolution now ms b)"

definition PartialUploadThresholdAge :: "64 word" where
  "PartialUploadThresholdAge = 2 * 24 * 60 * 60 * 1000"

fun BestEffortCleanAbortedPartialUploads ::
  "faults \<Rightarrow> 64 word \<Rightarrow> (ulid \<times> meta_error) list \<Rightarrow> bucket \<Rightarrow> bucket" where
  "BestEffortCleanAbortedPartialUploads flt now [] b = b"
| "BestEffortCleanAbortedPartialUploads flt now ((i, _) # ps) b =
     (if now - ulid_time i \<le> PartialUploadThresholdAge
      then BestEffortCleanAbortedPartialUploads flt now ps b
      else BestEffortCleanAbortedPartialUploads flt now ps (snd (deleteBlock flt i b)))"

fun DeleteMarkedBlocks ::
  "faults \<Rightarrow> int \<Rightarrow> int \<Rightarrow> (ulid \<times> deletion_mark) list \<Rightarrow> bucket \<Rightarrow> (bkt_error + unit) \<times> bucket" where
  "DeleteMarkedBlocks flt now deleteDelay [] b = (Inr (), b)"
| "DeleteMarkedBlocks flt now deleteDelay ((_, mk) # ms) b =
     (if expired now deleteDelay mk
      then andThen (deleteBlock flt (dmID mk) b) (\<lambda>_. DeleteMarkedBlocks flt now deleteDelay ms)
      else DeleteMarkedBlocks flt now deleteDelay ms b)"

definition wfGroup :: "(labels \<Rightarrow> 64 word) \<Rightarrow> compact_group \<Rightarrow> bool" where
  "wfGroup hash g \<longleftrightarrow>
     sorted_by_min_time (groupMetas g)
     \<and> groupKey g = defaultGroupKey hash (groupResolution g) (groupLabels g)
     \<and> (\<forall>m \<in> set (groupMetas g). labels_from_map (extLabels (thanos m)) = groupLabels g
          \<and> resolution (thanos m) = groupResolution g)"

definition groupedMetas :: "compact_group list \<Rightarrow> meta multiset" where
  "groupedMetas gs = mset (concat (map groupMetas gs))"

definition ownNames :: "contents \<Rightarrow> bool" where
  "ownNames c \<longleftrightarrow> (\<forall>i m. stored c i m \<longrightarrow> metaULID m = i)"

definition compactedBucket :: bucket where
  "compactedBucket =
     \<lparr>objects = [(metaName 1, MetaJSON (rawBlock 1 0 10)), (metaName 2, MetaJSON (rawBlock 2 10 20)),
                 (metaName 5, MetaJSON ((rawBlock 5 0 20)\<lparr>sources := [1, 2]\<rparr>))],
      opcount = 0, trace = []\<rparr>"

definition plainSync :: sync_conf where
  "plainSync = \<lparr>scProcess = (\<lambda>l. l), scIdString = (\<lambda>_. ''''), scNow = 0, scConsistencyDelay = 0,
     scNowNs = 0, scIgnoreDelayNs = 0, scReplicaLabels = []\<rparr>"

definition emptySyncer :: syncer where
  "emptySyncer = \<lparr>syBlocks = [], syPartial = [], syDuplicates = [], syMarks = [], syNoCompact = []\<rparr>"

definition removesOnly :: "ulid set \<Rightarrow> contents \<Rightarrow> contents \<Rightarrow> bool" where
  "removesOnly S o0 c \<longleftrightarrow> (\<forall>n. (\<forall>i \<in> S. \<not> strict_prefix [Id i] n) \<longrightarrow> map_of c n = map_of o0 n)"

definition blockGone :: "ulid \<Rightarrow> contents \<Rightarrow> bool" where
  "blockGone i c \<longleftrightarrow> (\<forall>n. strict_prefix [Id i] n \<longrightarrow> \<not> has_object c n)"

definition expiredIDs :: "int \<Rightarrow> int \<Rightarrow> (ulid \<times> deletion_mark) list \<Rightarrow> ulid set" where
  "expiredIDs now delay ms = {dmID mk | i mk. (i, mk) \<in> set ms \<and> expired now delay mk}"

section \<open>Error classes\<close>

lemma isHalt_not_isRetry: "isHalt e \<Longrightarrow> \<not> isRetry e"
  by (auto simp: isHalt_def isRetry_def split: go_error.splits)

text \<open>
  The error classes the compactor loop decides on are consistent: no error calls for both halting
  and retrying, marking an error for retry keeps a halt error a halt error and makes every other
  error retriable, and a collection of group errors halts as soon as one of them does.
\<close>

lemma error_classes:
  "\<not> (IsHaltError (MultiErr (multiAdd es e)) \<and> IsRetryError (MultiErr (multiAdd es e)))
   \<and> (IsHaltError (retry e) \<longleftrightarrow> IsHaltError e)
   \<and> (IsRetryError (retry e) \<or> IsHaltError (retry e))
   \<and> (isHalt e \<longrightarrow> IsHaltError (MultiErr (multiAdd es e)))"
proof -
  have "\<not> (list_ex isHalt xs \<and> list_all isRetry xs)" for xs
    using isHalt_not_isRetry by (auto simp: list_ex_iff list_all_iff)
  then have "\<not> (IsHaltError (MultiErr xs) \<and> IsRetryError (MultiErr xs))" for xs
    by (simp add: IsHaltError_def IsRetryError_def)
  moreover have "IsHaltError (retry e) \<longleftrightarrow> IsHaltError e"
    by (auto simp: retry_def) (simp add: IsHaltError_def isHalt_def)
  moreover have "IsRetryError (retry e) \<or> IsHaltError (retry e)"
    by (simp add: retry_def IsRetryError_def isRetry_def)
  moreover have "isHalt e \<longrightarrow> IsHaltError (MultiErr (multiAdd es e))"
    by (cases e) (auto simp: multiAdd_def IsHaltError_def isHalt_def)
  ultimately show ?thesis by blast
qed

lemma error_classes_witness:
  "isHalt (HaltErr BaseErr) \<and> IsHaltError (MultiErr (multiAdd [RetryErr BaseErr] (HaltErr BaseErr)))"
  using error_classes [of "[RetryErr BaseErr]" "HaltErr BaseErr"] by (simp add: isHalt_def)

section \<open>Grouping\<close>

lemma AppendMeta_wf:
  assumes "AppendMeta g m = Inr g'" and "wfGroup hash g"
  shows "wfGroup hash g' \<and> groupKey g' = groupKey g \<and> groupMetas g' \<noteq> []
    \<and> mset (groupMetas g') = add_mset m (mset (groupMetas g))"
  using assms sorted_by_min_time_sort [of "groupMetas g @ [m]"]
  by (auto simp: AppendMeta_def wfGroup_def split: if_splits dest: arg_cong [of _ _ length])

lemma updateGroup_wf:
  assumes "updateGroup key m gs = Some (Inr gs')" and "\<forall>g \<in> set gs. wfGroup hash g \<and> groupMetas g \<noteq> []"
  shows "(\<forall>g \<in> set gs'. wfGroup hash g \<and> groupMetas g \<noteq> []) \<and> map groupKey gs' = map groupKey gs
    \<and> groupedMetas gs' = add_mset m (groupedMetas gs)"
  using assms
proof (induction key m gs arbitrary: gs' rule: updateGroup.induct)
  case (1 key m)
  then show ?case by simp
next
  case (2 key m g gs)
  show ?case
  proof (cases "groupKey g = key")
    case True
    then obtain g' where "AppendMeta g m = Inr g'" "gs' = g' # gs"
      using "2.prems"(1) by (cases "AppendMeta g m") auto
    then show ?thesis
      using AppendMeta_wf [of g m g' hash] "2.prems"(2) by (auto simp: groupedMetas_def)
  next
    case False
    then obtain gs1 where "updateGroup key m gs = Some (Inr gs1)" "gs' = g # gs1"
      using "2.prems"(1) by (cases "updateGroup key m gs"; cases "the (updateGroup key m gs)") auto
    then show ?thesis using "2.IH" [OF False] "2.prems"(2) by (auto simp: groupedMetas_def)
  qed
qed

lemma updateGroup_None: "updateGroup key m gs = None \<longleftrightarrow> key \<notin> groupKey ` set gs"
  by (induction gs) auto

lemma addToGroups_wf:
  assumes "addToGroups hash gs m = Inr gs'"
    and "\<forall>g \<in> set gs. wfGroup hash g \<and> groupMetas g \<noteq> []" and "distinct (map groupKey gs)"
  shows "(\<forall>g \<in> set gs'. wfGroup hash g \<and> groupMetas g \<noteq> []) \<and> distinct (map groupKey gs')
    \<and> groupedMetas gs' = add_mset m (groupedMetas gs)"
proof (cases "updateGroup (DefaultGroupKey hash (thanos m)) m gs")
  case None
  let ?g0 = "NewGroup (DefaultGroupKey hash (thanos m)) (labels_from_map (extLabels (thanos m))) (resolution (thanos m))"
  obtain g where g: "AppendMeta ?g0 m = Inr g" "gs' = gs @ [g]"
    using assms(1) None by (cases "AppendMeta ?g0 m") (auto simp: addToGroups_def Let_def)
  have "wfGroup hash ?g0"
    by (simp add: wfGroup_def NewGroup_def DefaultGroupKey_def sorted_by_min_time_def)
  note one = AppendMeta_wf [OF g(1) this]
  then have "groupKey g \<notin> groupKey ` set gs"
    using None updateGroup_None [of "DefaultGroupKey hash (thanos m)" m gs] by (simp add: NewGroup_def)
  then show ?thesis using one g(2) assms(2,3) by (auto simp: groupedMetas_def NewGroup_def)
next
  case (Some r)
  then have "updateGroup (DefaultGroupKey hash (thanos m)) m gs = Some (Inr gs')"
    using assms(1) by (simp add: addToGroups_def Let_def)
  from updateGroup_wf [OF this assms(2)] show ?thesis using assms(3) by simp
qed

lemma groupLoop_wf:
  assumes "groupLoop hash gs ms = Inr gs'"
    and "\<forall>g \<in> set gs. wfGroup hash g \<and> groupMetas g \<noteq> []" and "distinct (map groupKey gs)"
  shows "(\<forall>g \<in> set gs'. wfGroup hash g \<and> groupMetas g \<noteq> []) \<and> distinct (map groupKey gs')
    \<and> groupedMetas gs' = groupedMetas gs + mset ms"
  using assms
proof (induction hash gs ms rule: groupLoop.induct)
  case (1 hash gs)
  then show ?case by simp
next
  case (2 hash gs m ms)
  obtain gs1 where gs1: "addToGroups hash gs m = Inr gs1"
    using "2.prems"(1) by (cases "addToGroups hash gs m") auto
  note one = addToGroups_wf [OF gs1 "2.prems"(2,3)]
  show ?case using "2.IH" [OF gs1] "2.prems"(1) gs1 one by simp
qed

interpretation by_group_key: slice_order "\<lambda>(a :: compact_group) b. groupKey a < groupKey b"
  by (rule slice_order_key)

text \<open>
  C18: grouping is a partition: when it succeeds, every block is in exactly one group; a group is not
  empty, is ordered by start time, and all its blocks share its labels and resolution; blocks with the
  same labels and resolution are in the same group; and the groups are ordered by distinct keys.
\<close>

theorem Groups_partition:
  assumes "Groups hash blocks = Inr gs"
  shows "mset (concat (map groupMetas gs)) = mset (map snd blocks)
    \<and> (\<forall>g \<in> set gs. groupMetas g \<noteq> [] \<and> sorted_by_min_time (groupMetas g)
         \<and> (\<forall>m \<in> set (groupMetas g). labels_from_map (extLabels (thanos m)) = groupLabels g
              \<and> resolution (thanos m) = groupResolution g))
    \<and> (\<forall>g \<in> set gs. \<forall>h \<in> set gs. groupLabels g = groupLabels h \<and> groupResolution g = groupResolution h \<longrightarrow> g = h)
    \<and> sorted_wrt (\<lambda>g h. groupKey g < groupKey h) gs"
proof -
  obtain hs where hs: "groupLoop hash [] (map snd blocks) = Inr hs"
    and gs: "gs = sort_slice (\<lambda>a b. groupKey a < groupKey b) hs"
    using assms by (cases "groupLoop hash [] (map snd blocks)") (auto simp: Groups_def)
  have wf: "\<forall>g \<in> set hs. wfGroup hash g \<and> groupMetas g \<noteq> []" "distinct (map groupKey hs)"
    "groupedMetas hs = mset (map snd blocks)"
    using groupLoop_wf [OF hs] by (auto simp: groupedMetas_def)
  have "mset (map groupKey gs) = mset (map groupKey hs)" by (simp add: gs)
  then have dist: "distinct (map groupKey gs)" using wf(2) mset_eq_imp_distinct_iff by blast
  have "mset (map groupMetas gs) = mset (map groupMetas hs)" by (simp add: gs)
  then have "mset (concat (map groupMetas gs)) = mset (concat (map groupMetas hs))"
    unfolding mset_concat by (metis mset_map sum_mset_sum_list)
  then have parts: "mset (concat (map groupMetas gs)) = mset (map snd blocks)"
    using wf(3) by (simp add: groupedMetas_def)
  have inj: "g = h" if "g \<in> set gs" "h \<in> set gs" "groupKey g = groupKey h" for g h
    using that dist by (auto simp: distinct_map inj_on_def)
  have "sorted_wrt (\<lambda>g h. groupKey g < groupKey h) gs"
  proof -
    have "sorted_wrt (\<lambda>g h. \<not> groupKey h < groupKey g) gs"
      unfolding gs by (rule by_group_key.sorted_sort_slice)
    moreover have "sorted_wrt (\<lambda>g h. groupKey g \<noteq> groupKey h) gs"
      using dist by (auto simp: sorted_wrt_iff_nth_less distinct_conv_nth)
    ultimately show ?thesis by (simp add: sorted_wrt_iff_nth_less) (meson linorder_neqE)
  qed
  moreover have "\<forall>g \<in> set gs. \<forall>h \<in> set gs.
      groupLabels g = groupLabels h \<and> groupResolution g = groupResolution h \<longrightarrow> g = h"
    using wf(1) inj by (auto simp: gs wfGroup_def)
  ultimately show ?thesis using parts wf(1) by (auto simp: gs wfGroup_def)
qed

theorem Groups_partition_witness:
  "case Groups (\<lambda>_. 5) [(1, rawBlock 1 10 20), (2, rawBlock 2 0 10), (3, (rawBlock 3 0 10)\<lparr>thanos := (thanos (rawBlock 3 0 10))\<lparr>resolution := 300000\<rparr>\<rparr>)]
   of Inl _ \<Rightarrow> False | Inr gs \<Rightarrow> mset (concat (map groupMetas gs)) =
     {#rawBlock 1 10 20, rawBlock 2 0 10, (rawBlock 3 0 10)\<lparr>thanos := (thanos (rawBlock 3 0 10))\<lparr>resolution := 300000\<rparr>\<rparr>#}
     \<and> map groupKey gs = [''0@5'', ''300000@5'']"
proof -
  let ?b = "[(1, rawBlock 1 10 20), (2, rawBlock 2 0 10), (3, (rawBlock 3 0 10)\<lparr>thanos := (thanos (rawBlock 3 0 10))\<lparr>resolution := 300000\<rparr>\<rparr>)]"
  let ?g = "Groups (\<lambda>_. 5) ?b"
  have "?g = Inr (projr ?g)" "map groupKey (projr ?g) = [''0@5'', ''300000@5'']" by code_simp+
  from Groups_partition [OF this(1)] this(2) show ?thesis
    by (subst \<open>?g = Inr (projr ?g)\<close>) simp
qed

section \<open>Garbage collection\<close>

lemma runs_markGarbage:
  assumes "set is \<subseteq> S"
  shows "runs (marksOnly S o0) (\<lambda>c. \<forall>j \<in> D. has_object c (deletionMarkName j))
     (markGarbage flt now is blocks)
     (\<lambda>r c. fst r = None \<longrightarrow> (\<forall>j \<in> D \<union> set is. has_object c (deletionMarkName j)))"
  using assms
proof (induction "is" arbitrary: D blocks)
  case Nil
  then show ?case by (simp add: runs_def)
next
  case (Cons i "is")
  let ?D = "\<lambda>D c. \<forall>j \<in> D. has_object c (deletionMarkName j)"
  have "runs (marksOnly S o0) (?D D)
      (\<lambda>b. case MarkForDeletion flt now i b of
         (Inl e, b) \<Rightarrow> ((Some (retry (WrapErr BaseErr)), blocks), b)
       | (Inr x, b) \<Rightarrow> markGarbage flt now is (delete_meta i blocks) b)
      (\<lambda>r c. fst r = None \<longrightarrow> ?D (D \<union> set (i # is)) c)"
  proof (rule runs_case [OF runs_MarkForDeletion])
    show "i \<in> S" using Cons.prems by simp
  next
    fix e :: bkt_error
    show "runs (marksOnly S o0)
        (\<lambda>c. ?D D c \<and> ((\<exists>x. (Inl e :: bkt_error + bool) = Inr x) \<longrightarrow> has_object c (deletionMarkName i)))
        (\<lambda>b. ((Some (retry (WrapErr BaseErr)), blocks), b))
        (\<lambda>r c. fst r = None \<longrightarrow> ?D (D \<union> set (i # is)) c)"
      by (rule runs_return) simp
  next
    fix x :: bool
    show "runs (marksOnly S o0)
        (\<lambda>c. ?D D c \<and> ((\<exists>y. (Inr x :: bkt_error + bool) = Inr y) \<longrightarrow> has_object c (deletionMarkName i)))
        (markGarbage flt now is (delete_meta i blocks))
        (\<lambda>r c. fst r = None \<longrightarrow> ?D (D \<union> set (i # is)) c)"
      by (rule runs_conseq [OF Cons.IH [of "insert i D" "delete_meta i blocks"]]) (use Cons.prems in auto)
  qed
  then show ?case by simp
qed

lemma GarbageCollect_marks:
  "\<exists>new. trace (snd (GarbageCollect flt now sy b)) = new @ trace b
     \<and> (\<forall>c \<in> set new. marksOnly (set (garbageIDs sy)) (objects b) c)"
  and "fst (fst (GarbageCollect flt now sy b)) = None \<Longrightarrow> i \<in> set (garbageIDs sy) \<Longrightarrow>
     has_object (objects (snd (GarbageCollect flt now sy b))) (deletionMarkName i)"
proof -
  let ?r = "markGarbage flt now (garbageIDs sy) (syBlocks sy) b"
  have eq: "snd (GarbageCollect flt now sy b) = snd ?r" "fst (fst (GarbageCollect flt now sy b)) = fst (fst ?r)"
    by (auto simp: GarbageCollect_def split: prod.splits)
  note runs = runs_markGarbage [of "garbageIDs sy" "set (garbageIDs sy)" "objects b" "{}" flt now "syBlocks sy"]
  note d = runsD [OF runs, of b, OF subset_refl marksOnly_refl]
  show "\<exists>new. trace (snd (GarbageCollect flt now sy b)) = new @ trace b
     \<and> (\<forall>c \<in> set new. marksOnly (set (garbageIDs sy)) (objects b) c)"
    using d(3) unfolding eq by simp
  show "has_object (objects (snd (GarbageCollect flt now sy b))) (deletionMarkName i)"
    if "fst (fst (GarbageCollect flt now sy b)) = None" "i \<in> set (garbageIDs sy)"
    using d(2) that unfolding eq by simp
qed

text \<open>Blocks live in directories named by their own ULID.\<close>

lemma keyed_filter: "keyed ms \<Longrightarrow> keyed (filter P ms)"
  by (auto simp: keyed_def distinct_map_filter)

lemma fetchMetadata_keyed:
  assumes "fetchMetadata flt (f, b) = (Inr resp, f', b')" and "coherentBy sameButLabels f (objects b)"
    and "ownNames (objects b)"
  shows "keyed (metas resp)"
    and "\<And>i m. (i, m) \<in> set (metas resp) \<Longrightarrow> label_view.storedBy (objects b) i m"
    and "coherentBy sameButLabels f' (objects b)" and "objects b' = objects b"
proof -
  note view = label_view.fetchMetadata_agrees [OF assms(2,1)]
  show st: "label_view.storedBy (objects b) i m" if "(i, m) \<in> set (metas resp)" for i m
    using view that by blast
  have "metaULID m = i" if im: "(i, m) \<in> set (metas resp)" for i m
  proof -
    obtain m' where m': "stored (objects b) i m'" "sameButLabels m m'"
      using st [OF im] unfolding label_view.storedBy_def by blast
    then have "metaULID m' = i" using assms(3) unfolding ownNames_def by blast
    then show ?thesis using sameButLabelsD(1) [OF m'(2)] by simp
  qed
  then show "keyed (metas resp)" using view by (auto simp: keyed_def)
  show "coherentBy sameButLabels f' (objects b)" "objects b' = objects b" using view by auto
qed

lemma ignoreDeletionMarkFilter_filters:
  "ignoreDeletionMarkFilter flt now delay ms b = (Inr (kept, marks), b') \<Longrightarrow> \<exists>P. kept = filter P ms"
  by (auto simp: ignoreDeletionMarkFilter_def split: prod.splits option.splits)

lemma sources_replicaLabelRemover:
  "(j, k) \<in> set ms \<Longrightarrow> \<exists>k'. (j, k') \<in> set (replicaLabelRemover ls ms) \<and> sources k' = sources k
     \<and> resolution (thanos k') = resolution (thanos k)"
  by (force simp: replicaLabelRemover_def)

text \<open>One successful synchronisation, step by step.\<close>

lemma SyncMetas_steps:
  assumes "SyncMetas flt conf sy0 (f, b) = (Inr sy, f', b')"
    and "coherentBy sameButLabels f (objects b)" and "ownNames (objects b)"
  obtains ms2 ms3 where "keyed ms2" "\<forall>(i, m) \<in> set ms2. label_view.storedBy (objects b) i m"
    "dedupFilter ms2 = (ms3, syDuplicates sy)" "syBlocks sy = replicaLabelRemover (scReplicaLabels conf) ms3"
    "coherentBy sameButLabels f' (objects b)"
proof -
  obtain resp f1 b1 where fm: "fetchMetadata flt (f, b) = (Inr resp, f1, b1)"
    using assms(1) by (auto simp: SyncMetas_def compactorFetch_def split: prod.splits sum.splits)
  note keyed = fetchMetadata_keyed [OF fm assms(2,3)]
  define ms1 where "ms1 = filter (\<lambda>(i, m). \<not> tooFresh (scNow conf) (scConsistencyDelay conf) i m)
      (filter (\<lambda>(i, m). scProcess conf ((''__block_id'', scIdString conf i) # extLabels (thanos m)) \<noteq> [])
         (metas resp))"
  obtain ms2 marks b2 where ig: "ignoreDeletionMarkFilter flt (scNowNs conf) (scIgnoreDelayNs conf) ms1 b1
      = (Inr (ms2, marks), b2)"
    using assms(1) fm
    by (auto simp: SyncMetas_def compactorFetch_def ms1_def Let_def split: prod.splits sum.splits)
  obtain ms3 dups where dd: "dedupFilter ms2 = (ms3, dups)" by fastforce
  obtain r b3 where nc: "gatherNoCompactMarkFilter flt ms3 b2 = (r, b3)" by fastforce
  have nce: "\<exists>ncs. r = Inr (ms3, ncs)" if "\<nexists>e. r = Inl e"
    using nc that by (auto simp: gatherNoCompactMarkFilter_def split: prod.splits option.splits)
  have eq: "SyncMetas flt conf sy0 (f, b) =
      (case (case r of
               Inl e \<Rightarrow> (Inl (WrapErr BaseErr), f1, b3)
             | Inr (ms, ncs) \<Rightarrow>
                 let ms = replicaLabelRemover (scReplicaLabels conf) ms; f = writeBack ms f1
                 in if metaErrs resp \<noteq> [] then (Inl (WrapErr BaseErr), f, b3)
                    else (Inr (ms, partial resp, dups, marks, ncs), f, b3)) of
         (Inl e, st) \<Rightarrow> (Inl (retry e), st)
       | (Inr (ms, part, dups, marks, ncs), st) \<Rightarrow>
           (Inr (sy0\<lparr>syBlocks := ms, syPartial := part, syDuplicates := dups, syMarks := marks,
                   syNoCompact := ncs\<rparr>), st))"
    unfolding SyncMetas_def compactorFetch_def using fm ig dd nc
    by (simp add: ms1_def Let_def split: sum.split)
  have "\<nexists>e. r = Inl e" using assms(1) eq by auto
  then obtain ncs where r: "r = Inr (ms3, ncs)" using nce by blast
  have sy: "syBlocks sy = replicaLabelRemover (scReplicaLabels conf) ms3" "syDuplicates sy = dups"
    and f': "f' = writeBack (replicaLabelRemover (scReplicaLabels conf) ms3) f1"
    using assms(1) eq r by (auto simp: Let_def split: if_splits)
  obtain P where P: "ms2 = filter P ms1" using ignoreDeletionMarkFilter_filters [OF ig] by blast
  have sub: "set ms2 \<subseteq> set (metas resp)" unfolding P ms1_def by auto
  have k2: "keyed ms2" unfolding P ms1_def by (intro keyed_filter keyed(1))
  have st2: "\<forall>(i, m) \<in> set ms2. label_view.storedBy (objects b) i m" using sub keyed(2) by blast
  have "set ms3 \<subseteq> set ms2" using dedupFilter_covering [OF k2 dd] set_subseq by blast
  then have "\<forall>(i, m) \<in> set ms3. label_view.storedBy (objects b) i m" using st2 by blast
  then have "coherentBy sameButLabels f' (objects b)"
    unfolding f' by (intro writeBack_coherent keyed(3) storedBy_remover)
  then show thesis using k2 st2 dd sy by (intro that [of ms2 ms3]) auto
qed

lemma SyncMetas_coherent:
  assumes "SyncMetas flt conf sy0 (f, b) = (Inr sy, f', b')"
    and "coherentBy sameButLabels f (objects b)" and "ownNames (objects b)"
  shows "coherentBy sameButLabels f' (objects b)"
  using SyncMetas_steps [OF assms] .

lemma SyncMetas_duplicates:
  assumes "SyncMetas flt conf sy0 (f, b) = (Inr sy, f', b')"
    and "coherentBy sameButLabels f (objects b)" and "ownNames (objects b)" and "i \<in> set (syDuplicates sy)"
  shows "\<exists>m j k k'. stored (objects b) i m \<and> stored (objects b) j k' \<and> (j, k) \<in> set (syBlocks sy) \<and> j \<noteq> i
    \<and> sources k = sources k' \<and> resolution (thanos k) = resolution (thanos m)
    \<and> set (sources m) \<subseteq> set (sources k)"
proof -
  obtain ms2 ms3 where ms: "keyed ms2" "\<forall>(i, m) \<in> set ms2. label_view.storedBy (objects b) i m"
    "dedupFilter ms2 = (ms3, syDuplicates sy)" "syBlocks sy = replicaLabelRemover (scReplicaLabels conf) ms3"
    using SyncMetas_steps [OF assms(1-3)] by metis
  note cov = dedupFilter_covering [OF ms(1,3)]
  obtain m where m: "(i, m) \<in> set ms2" "(i, m) \<notin> set ms3"
    using cov assms(4) by force
  then obtain j k where k: "(j, k) \<in> set ms3" "resolution (thanos k) = resolution (thanos m)"
    "set (sources m) \<subseteq> set (sources k)"
    using cov by blast
  have k2: "(j, k) \<in> set ms2" using cov k(1) set_subseq by blast
  have ij: "j \<noteq> i" using \<open>keyed ms2\<close> k2 m k(1) by (auto simp: keyed_def dest: eq_key_imp_eq_value)
  obtain k1 where k1: "(j, k1) \<in> set (syBlocks sy)" "sources k1 = sources k"
    "resolution (thanos k1) = resolution (thanos k)"
    using sources_replicaLabelRemover [OF k(1)] ms(4) by auto
  obtain m' where m': "stored (objects b) i m'" "sameButLabels m m'"
    using ms(2) m(1) unfolding label_view.storedBy_def by blast
  obtain k' where k': "stored (objects b) j k'" "sameButLabels k k'"
    using ms(2) k2 unfolding label_view.storedBy_def by blast
  note same = sameButLabelsD [OF m'(2)] sameButLabelsD [OF k'(2)]
  show ?thesis
    using m'(1) k'(1) k1 ij k same by (intro exI [of _ m'] exI [of _ j] exI [of _ k1] exI [of _ k']) simp
qed

text \<open>
  C12: garbage collection never endangers data: after a successful synchronisation, in every state of the
  bucket during garbage collection, under any faults, a block that has just received a deletion mark
  has another block in the synchronised set, of the same resolution, whose sources include all of
  its sources; nothing but such marks is written. The caches of the fetcher agree with the bucket
  except for external labels when the synchronisation starts (as they do when it ends), and every
  block lies in the directory of its own ULID.
\<close>

theorem GarbageCollect_safe:
  assumes "SyncMetas flt conf sy0 (f, b0) = (Inr sy, f', b)"
    and "coherentBy sameButLabels f (objects b0)" and "ownNames (objects b0)"
  shows "\<exists>new. trace (snd (GarbageCollect flt' now sy b)) = new @ trace b \<and>
    (\<forall>c \<in> set new.
       (\<forall>n. has_object (objects b) n \<longrightarrow> map_of c n = map_of (objects b) n)
       \<and> (\<forall>i. has_object c (deletionMarkName i) \<and> \<not> has_object (objects b) (deletionMarkName i) \<longrightarrow>
            (\<exists>m j k. stored (objects b0) i m \<and> (j, k) \<in> set (syBlocks sy) \<and> j \<noteq> i
               \<and> resolution (thanos k) = resolution (thanos m) \<and> set (sources m) \<subseteq> set (sources k))))"
proof -
  obtain new where new: "trace (snd (GarbageCollect flt' now sy b)) = new @ trace b"
    "\<forall>c \<in> set new. marksOnly (set (garbageIDs sy)) (objects b) c"
    using GarbageCollect_marks(1) by blast
  have "\<exists>m j k. stored (objects b0) i m \<and> (j, k) \<in> set (syBlocks sy) \<and> j \<noteq> i
      \<and> resolution (thanos k) = resolution (thanos m) \<and> set (sources m) \<subseteq> set (sources k)"
    if "c \<in> set new" "has_object c (deletionMarkName i)" "\<not> has_object (objects b) (deletionMarkName i)" for c i
  proof -
    have "i \<in> set (garbageIDs sy)" using marksOnly_new new(2) that by blast
    then have "i \<in> set (syDuplicates sy)" by (simp add: garbageIDs_def)
    from SyncMetas_duplicates [OF assms this] show ?thesis by blast
  qed
  moreover have "map_of c n = map_of (objects b) n" if "c \<in> set new" "has_object (objects b) n" for c n
    using new(2) that unfolding marksOnly_def by blast
  ultimately show ?thesis using new(1) by blast
qed

theorem GarbageCollect_safe_witness:
  "let r = SyncMetas (\<lambda>_. NoFault) plainSync emptySyncer (emptyFetcher, compactedBucket);
       sy = projr (fst r); b = snd (snd r); g = GarbageCollect (\<lambda>_. NoFault) 7 sy b
   in has_object (objects (snd g)) (deletionMarkName 1)
      \<and> (\<exists>m j k. stored (objects compactedBucket) 1 m \<and> (j, k) \<in> set (syBlocks sy) \<and> j \<noteq> 1
           \<and> resolution (thanos k) = resolution (thanos m) \<and> set (sources m) \<subseteq> set (sources k))"
proof -
  let ?r = "SyncMetas (\<lambda>_. NoFault) plainSync emptySyncer (emptyFetcher, compactedBucket)"
  let ?sy = "projr (fst ?r)"
  let ?b = "snd (snd ?r)"
  let ?g = "GarbageCollect (\<lambda>_. NoFault) 7 ?sy ?b"
  have "fst ?r = Inr ?sy" by code_simp
  then have r: "?r = (Inr ?sy, fst (snd ?r), ?b)" by (metis prod.collapse)
  have coh: "coherentBy sameButLabels emptyFetcher (objects compactedBucket)"
    by (simp add: coherentBy_def emptyFetcher_def diskRead_def)
  have own: "ownNames (objects compactedBucket)"
    by (auto simp: ownNames_def stored_def compactedBucket_def metaName_def rawBlock_def split: if_splits)
  have ev: "has_object (objects (snd ?g)) (deletionMarkName 1)" "\<not> has_object (objects ?b) (deletionMarkName 1)"
    "hd (trace (snd ?g)) = objects (snd ?g)" "length (trace ?b) < length (trace (snd ?g))"
    by code_simp+
  obtain new where new: "trace (snd ?g) = new @ trace ?b"
    "\<forall>c \<in> set new. \<forall>i. has_object c (deletionMarkName i) \<and> \<not> has_object (objects ?b) (deletionMarkName i) \<longrightarrow>
       (\<exists>m j k. stored (objects compactedBucket) i m \<and> (j, k) \<in> set (syBlocks ?sy) \<and> j \<noteq> i
           \<and> resolution (thanos k) = resolution (thanos m) \<and> set (sources m) \<subseteq> set (sources k))"
    using GarbageCollect_safe [OF r coh own, of "\<lambda>_. NoFault" 7] by blast
  have "objects (snd ?g) \<in> set new"
    using ev(3,4) new(1) by (cases new) auto
  then have "\<exists>m j k. stored (objects compactedBucket) 1 m \<and> (j, k) \<in> set (syBlocks ?sy) \<and> j \<noteq> 1
           \<and> resolution (thanos k) = resolution (thanos m) \<and> set (sources m) \<subseteq> set (sources k)"
    using new(2) ev(1,2) by blast
  then show ?thesis unfolding Let_def using ev(1) by blast
qed

section \<open>Retention and cleaning\<close>

lemma runs_retention:
  assumes "{i. \<exists>m. (i, m) \<in> set ms \<and> beyondRetention ret now m} \<subseteq> S"
  shows "runs (marksOnly S o0) (\<lambda>c. \<forall>j \<in> D. has_object c (deletionMarkName j))
     (ApplyRetentionPolicyByResolution flt ret now ms)
     (\<lambda>r c. r = Inr () \<longrightarrow>
        (\<forall>j \<in> D \<union> {i. \<exists>m. (i, m) \<in> set ms \<and> beyondRetention ret now m}. has_object c (deletionMarkName j)))"
  using assms
proof (induction ms arbitrary: D)
  case Nil
  then show ?case by (simp add: runs_def)
next
  case (Cons im ms)
  obtain i m where im: "im = (i, m)" by fastforce
  let ?D = "\<lambda>D c. \<forall>j \<in> D. has_object c (deletionMarkName j)"
  let ?T = "\<lambda>ms. {i. \<exists>m. (i, m) \<in> set ms \<and> beyondRetention ret now m}"
  have T: "?T (im # ms) = (if beyondRetention ret now m then insert i (?T ms) else ?T ms)"
    by (auto simp: im)
  have sub: "?T ms \<subseteq> S" using Cons.prems by auto
  show ?case
  proof (cases "beyondRetention ret now m")
    case False
    then show ?thesis unfolding T using Cons.IH [OF sub, of D] by (simp add: im)
  next
    case True
    have "runs (marksOnly S o0) (?D D)
      (\<lambda>b. andThen (MarkForDeletion flt (now div 1000000000) i b)
         (\<lambda>_. ApplyRetentionPolicyByResolution flt ret now ms))
      (\<lambda>r c. r = Inr () \<longrightarrow> ?D (D \<union> insert i (?T ms)) c)"
    proof (rule runs_andThen [OF runs_MarkForDeletion])
      show "i \<in> S" using Cons.prems True im by auto
    next
      fix x :: bool
      show "runs (marksOnly S o0)
         (\<lambda>c. ?D D c \<and> ((\<exists>y. (Inr x :: bkt_error + bool) = Inr y) \<longrightarrow> has_object c (deletionMarkName i)))
         (ApplyRetentionPolicyByResolution flt ret now ms)
         (\<lambda>r c. r = Inr () \<longrightarrow> ?D (D \<union> insert i (?T ms)) c)"
        by (rule runs_conseq [OF Cons.IH [OF sub, of "insert i D"]]) auto
    qed auto
    then show ?thesis unfolding T using True by (simp add: im)
  qed
qed

text \<open>
  C19: retention only ever marks blocks that ended longer ago than the retention of their resolution,
  never one whose resolution has no retention, in every state under any faults; and when it succeeds
  every block beyond retention is marked.
\<close>

theorem ApplyRetentionPolicyByResolution_exact:
  "\<exists>new. trace (snd (ApplyRetentionPolicyByResolution flt ret now ms b)) = new @ trace b \<and>
     (\<forall>c \<in> set new. \<forall>i. has_object c (deletionMarkName i) \<and> \<not> has_object (objects b) (deletionMarkName i) \<longrightarrow>
        (\<exists>m. (i, m) \<in> set ms \<and> ret (resolution (thanos m)) \<noteq> 0
           \<and> now > go_div (maxTime m) 1000 * 1000000000 + ret (resolution (thanos m))))
   \<and> (fst (ApplyRetentionPolicyByResolution flt ret now ms b) = Inr () \<longrightarrow>
        (\<forall>(i, m) \<in> set ms. beyondRetention ret now m \<longrightarrow>
           has_object (objects (snd (ApplyRetentionPolicyByResolution flt ret now ms b))) (deletionMarkName i)))"
proof -
  let ?S = "{i. \<exists>m. (i, m) \<in> set ms \<and> beyondRetention ret now m}"
  note d = runsD [OF runs_retention [OF subset_refl, of ms ret now "objects b" "{}" flt] marksOnly_refl]
  obtain new where new: "trace (snd (ApplyRetentionPolicyByResolution flt ret now ms b)) = new @ trace b"
    "\<forall>c \<in> set new. marksOnly ?S (objects b) c" using d(3) by auto
  have "\<exists>m. (i, m) \<in> set ms \<and> ret (resolution (thanos m)) \<noteq> 0
       \<and> now > go_div (maxTime m) 1000 * 1000000000 + ret (resolution (thanos m))"
    if "c \<in> set new" "has_object c (deletionMarkName i)" "\<not> has_object (objects b) (deletionMarkName i)" for c i
  proof -
    have "i \<in> ?S" using marksOnly_new new(2) that by blast
    then show ?thesis by (auto simp: beyondRetention_def)
  qed
  then show ?thesis using new(1) d(2) by fastforce
qed

theorem ApplyRetentionPolicyByResolution_exact_witness:
  "has_object (objects (snd (ApplyRetentionPolicyByResolution (\<lambda>_. NoFault) (\<lambda>_. 10000000000) 100000000000
     [(1, rawBlock 1 0 20000), (2, rawBlock 2 0 95000)] compactedBucket))) (deletionMarkName 1)"
proof -
  have "fst (ApplyRetentionPolicyByResolution (\<lambda>_. NoFault) (\<lambda>_. 10000000000) 100000000000
     [(1, rawBlock 1 0 20000), (2, rawBlock 2 0 95000)] compactedBucket) = Inr ()"
    "beyondRetention (\<lambda>_. 10000000000) 100000000000 (rawBlock 1 0 20000)" by code_simp+
  then show ?thesis
    using ApplyRetentionPolicyByResolution_exact [of "\<lambda>_. NoFault" "\<lambda>_. 10000000000" 100000000000
        "[(1, rawBlock 1 0 20000), (2, rawBlock 2 0 95000)]" compactedBucket]
    by (auto simp del: ApplyRetentionPolicyByResolution.simps)
qed

lemma removesOnly_step:
  assumes "removesOnly S o0 o1" and "deletionInv i o1 c" and "i \<in> S"
  shows "removesOnly S o0 c"
proof -
  have "map_of c n = map_of o1 n" if "\<not> strict_prefix [Id i] n" for n
    using assms(2) that unfolding deletionInv_def by blast
  then show ?thesis using assms(1,3) unfolding removesOnly_def by metis
qed

lemma blockGone_step: "blockGone j o1 \<Longrightarrow> deletionInv i o1 c \<Longrightarrow> blockGone j c"
  unfolding blockGone_def deletionInv_def by blast

lemma runs_deleteBlock_only:
  assumes "i \<in> S"
  shows "runs (removesOnly S o0) (\<lambda>c. \<forall>j \<in> D. blockGone j c) (deleteBlock flt i)
     (\<lambda>r c. (\<forall>j \<in> D. blockGone j c) \<and> (r = Inr () \<longrightarrow> blockGone i c))"
  unfolding runs_def
proof (intro allI impI)
  fix b :: bucket
  assume *: "removesOnly S o0 (objects b) \<and> (\<forall>j \<in> D. blockGone j (objects b))"
  let ?r = "deleteBlock flt i b"
  have "deletionInv i (objects b) (objects b)" by (simp add: deletionInv_refl)
  note del = runsD [OF runs_deleteBlock this refl, of flt]
  obtain new where new: "trace (snd ?r) = new @ trace b" "\<forall>c \<in> set new. deletionInv i (objects b) c"
    using del(3) by blast
  then have "\<forall>c \<in> set new. removesOnly S o0 c" using removesOnly_step * assms by blast
  moreover have "removesOnly S o0 (objects (snd ?r))" using removesOnly_step del(1) * assms by blast
  moreover have "\<forall>j \<in> D. blockGone j (objects (snd ?r))" using blockGone_step del(1) * by blast
  moreover have "fst ?r = Inr () \<longrightarrow> blockGone i (objects (snd ?r))"
    using del(2) unfolding blockGone_def by blast
  ultimately show "removesOnly S o0 (objects (snd ?r))
      \<and> ((\<forall>j \<in> D. blockGone j (objects (snd ?r))) \<and> (fst ?r = Inr () \<longrightarrow> blockGone i (objects (snd ?r))))
      \<and> (\<exists>new. trace (snd ?r) = new @ trace b \<and> (\<forall>c \<in> set new. removesOnly S o0 c))"
    using new(1) by blast
qed

lemma expiredIDs_Cons:
  "expiredIDs now delay ((i, mk) # ms) =
     (if expired now delay mk then insert (dmID mk) (expiredIDs now delay ms) else expiredIDs now delay ms)"
  by (auto simp: expiredIDs_def)

lemma runs_DeleteMarkedBlocks:
  assumes "expiredIDs now delay ms \<subseteq> S"
  shows "runs (removesOnly S o0) (\<lambda>c. \<forall>j \<in> D. blockGone j c) (DeleteMarkedBlocks flt now delay ms)
     (\<lambda>r c. r = Inr () \<longrightarrow> (\<forall>j \<in> D \<union> expiredIDs now delay ms. blockGone j c))"
  using assms
proof (induction ms arbitrary: D)
  case Nil
  then show ?case by (simp add: runs_def expiredIDs_def)
next
  case (Cons im ms)
  obtain i mk where im: "im = (i, mk)" by fastforce
  have sub: "expiredIDs now delay ms \<subseteq> S" using Cons.prems by (auto simp: im expiredIDs_Cons split: if_splits)
  show ?case
  proof (cases "expired now delay mk")
    case False
    then show ?thesis using Cons.IH [OF sub, of D] by (simp add: im expiredIDs_Cons)
  next
    case True
    have "runs (removesOnly S o0) (\<lambda>c. \<forall>j \<in> D. blockGone j c)
      (\<lambda>b. andThen (deleteBlock flt (dmID mk) b) (\<lambda>_. DeleteMarkedBlocks flt now delay ms))
      (\<lambda>r c. r = Inr () \<longrightarrow> (\<forall>j \<in> D \<union> insert (dmID mk) (expiredIDs now delay ms). blockGone j c))"
    proof (rule runs_andThen [OF runs_deleteBlock_only])
      show "dmID mk \<in> S" using Cons.prems True by (simp add: im expiredIDs_Cons)
    next
      fix x :: unit
      show "runs (removesOnly S o0)
        (\<lambda>c. (\<forall>j \<in> D. blockGone j c) \<and> ((Inr x :: bkt_error + unit) = Inr () \<longrightarrow> blockGone (dmID mk) c))
        (DeleteMarkedBlocks flt now delay ms)
        (\<lambda>r c. r = Inr () \<longrightarrow> (\<forall>j \<in> D \<union> insert (dmID mk) (expiredIDs now delay ms). blockGone j c))"
        by (rule runs_conseq [OF Cons.IH [OF sub, of "insert (dmID mk) D"]]) auto
    qed auto
    then show ?thesis using True by (simp add: im expiredIDs_Cons)
  qed
qed

text \<open>
  C20: the cleaner deletes nothing but blocks whose deletion mark is older than the delay: every other
  object is unchanged in every state of the bucket under any faults, and on success all those blocks
  are completely gone.
\<close>

theorem DeleteMarkedBlocks_exact:
  "\<exists>new. trace (snd (DeleteMarkedBlocks flt now delay ms b)) = new @ trace b \<and>
     (\<forall>c \<in> set new. \<forall>n.
        (\<forall>(i, mk) \<in> set ms. expired now delay mk \<longrightarrow> \<not> strict_prefix [Id (dmID mk)] n) \<longrightarrow>
        map_of c n = map_of (objects b) n)
   \<and> (fst (DeleteMarkedBlocks flt now delay ms b) = Inr () \<longrightarrow>
        (\<forall>(i, mk) \<in> set ms. \<forall>n. expired now delay mk \<and> strict_prefix [Id (dmID mk)] n \<longrightarrow>
           \<not> has_object (objects (snd (DeleteMarkedBlocks flt now delay ms b))) n))"
proof -
  let ?S = "expiredIDs now delay ms"
  have refl: "removesOnly ?S (objects b) (objects b)" by (simp add: removesOnly_def)
  note d = runsD [OF runs_DeleteMarkedBlocks [OF subset_refl, of now delay ms "objects b" "{}" flt] refl]
  obtain new where new: "trace (snd (DeleteMarkedBlocks flt now delay ms b)) = new @ trace b"
    "\<forall>c \<in> set new. removesOnly ?S (objects b) c" using d(3) by auto
  have "map_of c n = map_of (objects b) n"
    if "c \<in> set new" "\<forall>(i, mk) \<in> set ms. expired now delay mk \<longrightarrow> \<not> strict_prefix [Id (dmID mk)] n" for c n
  proof -
    have "\<forall>i \<in> ?S. \<not> strict_prefix [Id i] n" using that(2) by (auto simp: expiredIDs_def)
    then show ?thesis using new(2) that(1) unfolding removesOnly_def by blast
  qed
  moreover have "\<not> has_object (objects (snd (DeleteMarkedBlocks flt now delay ms b))) n"
    if "fst (DeleteMarkedBlocks flt now delay ms b) = Inr ()" "(i, mk) \<in> set ms" "expired now delay mk"
      "strict_prefix [Id (dmID mk)] n" for i mk n
  proof -
    have "dmID mk \<in> ?S" using that(2,3) by (auto simp: expiredIDs_def)
    then show ?thesis using d(2) that(1,4) by (simp add: blockGone_def)
  qed
  ultimately show ?thesis using new(1) by blast
qed

theorem DeleteMarkedBlocks_exact_witness:
  "\<not> has_object (objects (snd (DeleteMarkedBlocks (\<lambda>_. NoFault) 1000000000000 500000000000
       [(1, \<lparr>dmID = 1, dmVersion = 1, deletionTime = 100\<rparr>), (2, \<lparr>dmID = 2, dmVersion = 1, deletionTime = 900\<rparr>)]
       markedBucket))) (metaName 1)"
proof -
  let ?ms = "[(1, \<lparr>dmID = 1, dmVersion = 1, deletionTime = 100\<rparr>), (2, \<lparr>dmID = 2, dmVersion = 1, deletionTime = 900\<rparr>)]"
  have "fst (DeleteMarkedBlocks (\<lambda>_. NoFault) 1000000000000 500000000000 ?ms markedBucket) = Inr ()"
    "expired 1000000000000 500000000000 \<lparr>dmID = 1, dmVersion = 1, deletionTime = 100\<rparr>" by code_simp+
  then show ?thesis
    using DeleteMarkedBlocks_exact [of "\<lambda>_. NoFault" 1000000000000 500000000000 ?ms markedBucket]
    by (auto simp del: DeleteMarkedBlocks.simps)
qed

text \<open>
  The age of a partial upload is a difference of unsigned times, too: an upload in progress whose ULID
  lies in the future of the compactor's clock counts as older than the threshold and is deleted.
\<close>

lemma partial_future_deleted:
  assumes "now < ulid_time i" and "unat (ulid_time i) - unat now + unat PartialUploadThresholdAge < 2 ^ 64"
  shows "BestEffortCleanAbortedPartialUploads flt now [(i, e)] b = snd (deleteBlock flt i b)"
proof -
  have "unat (now - ulid_time i) = 2 ^ 64 + unat now - unat (ulid_time i)"
    using assms(1) by (simp add: unat_sub_if_size word_size word_less_nat_alt)
  moreover have "unat now < unat (ulid_time i)" using assms(1) by (simp add: word_less_nat_alt)
  ultimately have "\<not> now - ulid_time i \<le> PartialUploadThresholdAge"
    unfolding word_le_nat_alt using assms(2) by linarith
  then show ?thesis by simp
qed

end
