(* ===== verification/Index_Health.thy ===== *)
theory Index_Health
  imports Block_Meta
begin

text \<open>
  The checks of a block index before and after compaction and the repair of its chunk sequences
  (\<^verbatim>\<open>pkg/block/index.go\<close>). An index file is what its reader yields: the series in the order of the
  postings, \<open>None\<close> where a series cannot be read, and whether the walk over the postings failed.
  The comparison of label sets is a function of the Prometheus library and a parameter.
\<close>

record chunk_meta =
  chunkRef :: nat
  chunkMin :: int
  chunkMax :: int
  chunkData :: string

type_synonym index_series = "labels \<times> chunk_meta list"

record index_file =
  indexSeries :: "index_series option list"
  walkFailed :: bool

section \<open>Counters\<close>

record min_max_sum =
  mmsSum :: int
  mmsMin :: int
  mmsMax :: int
  mmsCnt :: int

definition newMinMaxSum :: min_max_sum where
  "newMinMaxSum = \<lparr>mmsSum = 0, mmsMin = MaxInt64, mmsMax = MinInt64, mmsCnt = 0\<rparr>"

definition mmsAdd :: "int \<Rightarrow> min_max_sum \<Rightarrow> min_max_sum" where
  "mmsAdd v n =
     \<lparr>mmsSum = mmsSum n + v, mmsMin = (if mmsMin n > v then v else mmsMin n),
      mmsMax = (if mmsMax n < v then v else mmsMax n), mmsCnt = mmsCnt n + 1\<rparr>"

definition mmsAvg :: "min_max_sum \<Rightarrow> int" where
  "mmsAvg n = (if mmsCnt n = 0 then 0 else go_div (mmsSum n) (mmsCnt n))"

record health_stats =
  TotalSeries :: nat
  OutOfOrderSeries :: nat
  OutOfOrderChunks :: nat
  DuplicatedChunks :: nat
  OutsideChunks :: nat
  CompleteOutsideChunks :: nat
  Issue347OutsideChunks :: nat
  OutOfOrderLabels :: nat
  TotalChunks :: nat
  SingleSampleSeries :: nat
  SingleSampleChunks :: nat
  chunkDuration :: min_max_sum
  chunkSize :: min_max_sum
  seriesLife :: min_max_sum
  seriesLifeWithoutSingle :: min_max_sum
  seriesChunks :: min_max_sum

definition emptyStats :: health_stats where
  "emptyStats = \<lparr>TotalSeries = 0, OutOfOrderSeries = 0, OutOfOrderChunks = 0, DuplicatedChunks = 0,
     OutsideChunks = 0, CompleteOutsideChunks = 0, Issue347OutsideChunks = 0, OutOfOrderLabels = 0,
     TotalChunks = 0, SingleSampleSeries = 0, SingleSampleChunks = 0, chunkDuration = newMinMaxSum, chunkSize = newMinMaxSum,
     seriesLife = newMinMaxSum, seriesLifeWithoutSingle = newMinMaxSum, seriesChunks = newMinMaxSum\<rparr>"

definition PrometheusIssue5372Err :: "health_stats \<Rightarrow> bool" where
  "PrometheusIssue5372Err st \<longleftrightarrow> OutOfOrderLabels st > 0"

definition Issue347OutsideChunksErr :: "health_stats \<Rightarrow> bool" where
  "Issue347OutsideChunksErr st \<longleftrightarrow> Issue347OutsideChunks st > 0"

definition CriticalErr :: "health_stats \<Rightarrow> bool" where
  "CriticalErr st \<longleftrightarrow>
     OutOfOrderSeries st > 0
     \<or> int (OutsideChunks st) - (int (CompleteOutsideChunks st) + int (Issue347OutsideChunks st)) > 0
     \<or> CompleteOutsideChunks st > 0"

definition AnyErr :: "health_stats \<Rightarrow> bool" where
  "AnyErr st \<longleftrightarrow> CriticalErr st \<or> Issue347OutsideChunksErr st \<or> PrometheusIssue5372Err st"

section \<open>The walk over an index\<close>

datatype index_error =
    OpenFailed | ReadSeries | EmptyLabelSet | SeriesOutOfOrder | EmptyChunks

fun countUnorderedLabels :: "label \<Rightarrow> labels \<Rightarrow> nat" where
  "countUnorderedLabels l0 [] = 0"
| "countUnorderedLabels l0 (l # ls) = (if fst l < fst l0 then 1 else 0) + countUnorderedLabels l ls"

definition addChunk ::
  "int \<Rightarrow> int \<Rightarrow> chunk_meta \<Rightarrow> chunk_meta list \<Rightarrow> health_stats \<Rightarrow> health_stats" where
  "addChunk mint maxt c rest st =
     (let dur = chunkMax c - chunkMin c;
          st = st\<lparr>TotalChunks := TotalChunks st + 1, chunkDuration := mmsAdd dur (chunkDuration st)\<rparr>;
          st = (if dur = 0 then st\<lparr>SingleSampleChunks := SingleSampleChunks st + 1\<rparr> else st);
          st = (if 2 \<le> length rest
                then st\<lparr>chunkSize := mmsAdd (int (chunkRef (hd rest)) - int (chunkRef c)) (chunkSize st)\<rparr>
                else st)
      in if chunkMin c < mint \<or> chunkMax c > maxt
         then let st = st\<lparr>OutsideChunks := OutsideChunks st + 1\<rparr>
              in if chunkMin c > maxt \<or> chunkMax c < mint
                 then st\<lparr>CompleteOutsideChunks := CompleteOutsideChunks st + 1\<rparr>
                 else if chunkMin c = maxt
                 then st\<lparr>Issue347OutsideChunks := Issue347OutsideChunks st + 1\<rparr>
                 else st
         else st)"

text \<open>
  The loop over the chunks of a series; \<open>rest\<close> above are the chunks after \<^verbatim>\<open>chks[i]\<close>, \<open>prev\<close> is \<^verbatim>\<open>chks[i-1]\<close>, the counters \<open>ooo\<close> and \<open>life\<close> are those
  of the series.
\<close>

fun chunkLoop ::
  "int \<Rightarrow> int \<Rightarrow> chunk_meta option \<Rightarrow> nat \<Rightarrow> int \<Rightarrow> health_stats \<Rightarrow> chunk_meta list
     \<Rightarrow> nat \<times> int \<times> health_stats" where
  "chunkLoop mint maxt prev ooo life st [] = (ooo, life, st)"
| "chunkLoop mint maxt prev ooo life st (c # cs) =
     (let st = addChunk mint maxt c cs st; life = life + (chunkMax c - chunkMin c)
      in case prev of
           None \<Rightarrow> chunkLoop mint maxt (Some c) ooo life st cs
         | Some c0 \<Rightarrow>
             if chunkMin c > chunkMax c0 then chunkLoop mint maxt (Some c) ooo life st cs
             else if chunkMin c = chunkMin c0 \<and> chunkMax c = chunkMax c0
             then chunkLoop mint maxt (Some c) ooo life
                    (st\<lparr>DuplicatedChunks := DuplicatedChunks st + 1\<rparr>) cs
             else chunkLoop mint maxt (Some c) (ooo + 1) life st cs)"

definition addSeries :: "int \<Rightarrow> int \<Rightarrow> index_series \<Rightarrow> health_stats \<Rightarrow> health_stats" where
  "addSeries mint maxt s st =
     (case s of (lset, chks) \<Rightarrow>
      let st = st\<lparr>OutOfOrderLabels := OutOfOrderLabels st + countUnorderedLabels (hd lset) (tl lset)\<rparr>
      in case chunkLoop mint maxt None 0 0 st chks of (ooo, life, st) \<Rightarrow>
           let st = (if ooo > 0
                     then st\<lparr>OutOfOrderSeries := OutOfOrderSeries st + 1,
                             OutOfOrderChunks := OutOfOrderChunks st + ooo\<rparr>
                     else st);
               st = st\<lparr>seriesChunks := mmsAdd (int (length chks)) (seriesChunks st),
                       seriesLife := mmsAdd life (seriesLife st)\<rparr>
           in if life = 0 then st\<lparr>SingleSampleSeries := SingleSampleSeries st + 1\<rparr>
              else st\<lparr>seriesLifeWithoutSingle := mmsAdd life (seriesLifeWithoutSingle st)\<rparr>)"

text \<open>\<open>lastSet\<close> is \<open>None\<close> before the first series; the comparison treats it as an empty label set.\<close>

fun seriesLoop ::
  "(labels \<Rightarrow> labels \<Rightarrow> int) \<Rightarrow> int \<Rightarrow> int \<Rightarrow> labels option \<Rightarrow> health_stats \<Rightarrow> index_series option list
     \<Rightarrow> index_error + health_stats" where
  "seriesLoop cmp mint maxt lastSet st [] = Inr st"
| "seriesLoop cmp mint maxt lastSet st (None # ss) = Inl ReadSeries"
| "seriesLoop cmp mint maxt lastSet st (Some (lset, chks) # ss) =
     (let st = st\<lparr>TotalSeries := TotalSeries st + 1\<rparr>
      in if lset = [] then Inl EmptyLabelSet
         else if (case lastSet of None \<Rightarrow> False | Some l0 \<Rightarrow> cmp l0 lset \<ge> 0) then Inl SeriesOutOfOrder
         else if chks = [] then Inl EmptyChunks
         else seriesLoop cmp mint maxt (Some lset) (addSeries mint maxt (lset, chks) st) ss)"

text \<open>
  \<open>None\<close> stands for an index that cannot be opened or whose postings or symbols cannot be read before the
  walk starts. When the walk over the postings fails, the sources wrap the variable of an earlier, successful call:
  the failure is lost and the counters so far are returned without an error.
\<close>

definition GatherIndexHealthStats ::
  "(labels \<Rightarrow> labels \<Rightarrow> int) \<Rightarrow> index_file option \<Rightarrow> int \<Rightarrow> int \<Rightarrow> index_error + health_stats" where
  "GatherIndexHealthStats cmp fn mint maxt =
     (case fn of
        None \<Rightarrow> Inl OpenFailed
      | Some f \<Rightarrow> seriesLoop cmp mint maxt None emptyStats (indexSeries f))"

definition VerifyIndex ::
  "(labels \<Rightarrow> labels \<Rightarrow> int) \<Rightarrow> index_file option \<Rightarrow> int \<Rightarrow> int \<Rightarrow> bool" where
  "VerifyIndex cmp fn mint maxt =
     (case GatherIndexHealthStats cmp fn mint maxt of Inl _ \<Rightarrow> False | Inr st \<Rightarrow> \<not> AnyErr st)"

section \<open>Repair\<close>

datatype ignore_error = NonSequentialTimes | NonSequentialData

type_synonym ignore_fn = "int \<Rightarrow> int \<Rightarrow> chunk_meta option \<Rightarrow> chunk_meta \<Rightarrow> ignore_error + bool"

definition IgnoreCompleteOutsideChunk :: ignore_fn where
  "IgnoreCompleteOutsideChunk mint maxt prev cur = Inr (chunkMin cur > maxt \<or> chunkMax cur < mint)"

definition IgnoreIssue347OutsideChunk :: ignore_fn where
  "IgnoreIssue347OutsideChunk mint maxt prev cur = Inr (chunkMin cur = maxt)"

text \<open>The Castagnoli checksum of the standard library is a parameter.\<close>

definition IgnoreDuplicateOutsideChunk :: "(string \<Rightarrow> 32 word) \<Rightarrow> ignore_fn" where
  "IgnoreDuplicateOutsideChunk crc mint maxt prev cur =
     (case prev of
        None \<Rightarrow> Inr False
      | Some l \<Rightarrow>
          if chunkMin cur > chunkMax l then Inr False
          else if chunkMin cur \<noteq> chunkMin l \<or> chunkMax cur \<noteq> chunkMax l then Inl NonSequentialTimes
          else if crc (chunkData l) \<noteq> crc (chunkData cur) then Inl NonSequentialData
          else Inr True)"

fun anyIgnores ::
  "ignore_fn list \<Rightarrow> int \<Rightarrow> int \<Rightarrow> chunk_meta option \<Rightarrow> chunk_meta \<Rightarrow> ignore_error + bool" where
  "anyIgnores [] mint maxt prev c = Inr False"
| "anyIgnores (f # fs) mint maxt prev c =
     (case f mint maxt prev c of
        Inl e \<Rightarrow> Inl e
      | Inr True \<Rightarrow> Inr True
      | Inr False \<Rightarrow> anyIgnores fs mint maxt prev c)"

fun sanitizeLoop ::
  "ignore_fn list \<Rightarrow> int \<Rightarrow> int \<Rightarrow> chunk_meta option \<Rightarrow> chunk_meta list
     \<Rightarrow> ignore_error + chunk_meta list" where
  "sanitizeLoop fs mint maxt prev [] = Inr []"
| "sanitizeLoop fs mint maxt prev (c # cs) =
     (case anyIgnores fs mint maxt prev c of
        Inl e \<Rightarrow> Inl e
      | Inr True \<Rightarrow> sanitizeLoop fs mint maxt prev cs
      | Inr False \<Rightarrow> map_sum id (\<lambda>r. c # r) (sanitizeLoop fs mint maxt (Some c) cs))"

definition sanitizeChunkSequence ::
  "chunk_meta list \<Rightarrow> int \<Rightarrow> int \<Rightarrow> ignore_fn list \<Rightarrow> ignore_error + chunk_meta list" where
  "sanitizeChunkSequence chks mint maxt fs =
     sanitizeLoop fs mint maxt None (sort_slice (\<lambda>a b. chunkMin a < chunkMin b) chks)"

text \<open>The functions the verifier repairs a block with, in its order.\<close>

definition repairFns :: "(string \<Rightarrow> 32 word) \<Rightarrow> ignore_fn list" where
  "repairFns crc =
     [IgnoreCompleteOutsideChunk, IgnoreDuplicateOutsideChunk crc, IgnoreIssue347OutsideChunk]"

section \<open>Specification vocabulary\<close>

definition sameChunk :: "(string \<Rightarrow> 32 word) \<Rightarrow> chunk_meta \<Rightarrow> chunk_meta \<Rightarrow> bool" where
  "sameChunk crc a b \<longleftrightarrow>
     chunkMin a = chunkMin b \<and> chunkMax a = chunkMax b \<and> crc (chunkData a) = crc (chunkData b)"

definition mkChunk :: "int \<Rightarrow> int \<Rightarrow> string \<Rightarrow> chunk_meta" where
  "mkChunk mint maxt d = \<lparr>chunkRef = 0, chunkMin = mint, chunkMax = maxt, chunkData = d\<rparr>"

definition chunkInside :: "int \<Rightarrow> int \<Rightarrow> chunk_meta \<Rightarrow> bool" where
  "chunkInside mint maxt c \<longleftrightarrow> mint \<le> chunkMin c \<and> chunkMax c \<le> maxt"

text \<open>Consecutive chunks follow each other or cover exactly the same time range.\<close>

definition chunkFollows :: "chunk_meta \<Rightarrow> chunk_meta \<Rightarrow> bool" where
  "chunkFollows a b \<longleftrightarrow> chunkMax a < chunkMin b \<or> chunkMin a = chunkMin b \<and> chunkMax a = chunkMax b"

fun consecutive :: "('a \<Rightarrow> 'a \<Rightarrow> bool) \<Rightarrow> 'a list \<Rightarrow> bool" where
  "consecutive P [] = True"
| "consecutive P [x] = True"
| "consecutive P (x # y # xs) = (P x y \<and> consecutive P (y # xs))"

definition sound :: "int \<Rightarrow> int \<Rightarrow> index_series \<Rightarrow> bool" where
  "sound mint maxt s \<longleftrightarrow>
     fst s \<noteq> [] \<and> snd s \<noteq> [] \<and> list_all (chunkInside mint maxt) (snd s) \<and> consecutive chunkFollows (snd s)"

text \<open>A block that passes both checks the compactor makes of an input block.\<close>

definition healthy :: "health_stats \<Rightarrow> bool" where
  "healthy st \<longleftrightarrow> \<not> CriticalErr st \<and> \<not> Issue347OutsideChunksErr st"

text \<open>The counters the checks read, as the number of chunks outside and of series out of order.\<close>

definition badCount :: "health_stats \<Rightarrow> nat" where
  "badCount st = OutsideChunks st + OutOfOrderSeries st"

definition wfStats :: "health_stats \<Rightarrow> bool" where
  "wfStats st \<longleftrightarrow> CompleteOutsideChunks st + Issue347OutsideChunks st \<le> OutsideChunks st"

definition outside :: "int \<Rightarrow> int \<Rightarrow> chunk_meta list \<Rightarrow> nat" where
  "outside mint maxt cs = length (filter (\<lambda>c. \<not> chunkInside mint maxt c) cs)"

section \<open>Health\<close>

lemma healthy_iff: "wfStats st \<Longrightarrow> healthy st \<longleftrightarrow> badCount st = 0"
  by (auto simp: healthy_def CriticalErr_def Issue347OutsideChunksErr_def badCount_def wfStats_def)

lemma addChunk_counts:
  "OutOfOrderSeries (addChunk mint maxt c rest st) = OutOfOrderSeries st"
  "OutsideChunks (addChunk mint maxt c rest st) =
     OutsideChunks st + (if chunkInside mint maxt c then 0 else 1)"
  "wfStats st \<Longrightarrow> wfStats (addChunk mint maxt c rest st)"
  by (auto simp: addChunk_def Let_def chunkInside_def wfStats_def)

lemma chunkLoop_counts:
  assumes "chunkLoop mint maxt prev ooo life st cs = (ooo', life', st')"
  shows "OutOfOrderSeries st' = OutOfOrderSeries st
    \<and> OutsideChunks st' = OutsideChunks st + outside mint maxt cs
    \<and> (wfStats st \<longrightarrow> wfStats st')
    \<and> ooo \<le> ooo'
    \<and> (ooo' = ooo \<longleftrightarrow> consecutive chunkFollows (case prev of None \<Rightarrow> cs | Some p \<Rightarrow> p # cs))"
  using assms
proof (induction mint maxt prev ooo life st cs arbitrary: ooo' life' st' rule: chunkLoop.induct)
  case (1 mint maxt prev ooo life st)
  then show ?case by (auto simp: outside_def split: option.splits)
next
  case (2 mint maxt prev ooo life st c cs)
  define st1 where "st1 = addChunk mint maxt c cs st"
  define l1 where "l1 = life + (chunkMax c - chunkMin c)"
  have wfd: "wfStats (s\<lparr>DuplicatedChunks := k\<rparr>) = wfStats s" for s k by (simp add: wfStats_def)
  note base = addChunk_counts [where mint = mint and maxt = maxt and c = c and rest = cs and st = st, folded st1_def]
  note IH = "2.IH" [OF st1_def l1_def]
  consider (first) "prev = None" | (next_chunk) p where "prev = Some p" "chunkMin c > chunkMax p"
    | (dup) p where "prev = Some p" "\<not> chunkMin c > chunkMax p" "chunkMin c = chunkMin p \<and> chunkMax c = chunkMax p"
    | (ooo) p where "prev = Some p" "\<not> chunkMin c > chunkMax p" "\<not> (chunkMin c = chunkMin p \<and> chunkMax c = chunkMax p)"
    by (cases prev) blast+
  then show ?case
  proof cases
    case first
    then have "chunkLoop mint maxt (Some c) ooo l1 st1 cs = (ooo', life', st')"
      using "2.prems" by (simp add: Let_def st1_def l1_def)
    from IH(1) [OF first this] show ?thesis using base first by (auto simp: outside_def)
  next
    case (next_chunk p)
    then have "chunkLoop mint maxt (Some c) ooo l1 st1 cs = (ooo', life', st')"
      using "2.prems" by (simp add: Let_def st1_def l1_def)
    from IH(2) [OF next_chunk this] show ?thesis
      using base next_chunk by (auto simp: outside_def chunkFollows_def)
  next
    case (dup p)
    then have "chunkLoop mint maxt (Some c) ooo l1 (st1\<lparr>DuplicatedChunks := DuplicatedChunks st1 + 1\<rparr>) cs = (ooo', life', st')"
      using "2.prems" by (simp add: Let_def st1_def l1_def)
    from IH(3) [OF dup this] show ?thesis
      using base dup by (auto simp: outside_def chunkFollows_def wfd)
  next
    case (ooo p)
    then have "chunkLoop mint maxt (Some c) (ooo + 1) l1 st1 cs = (ooo', life', st')"
      using "2.prems" by (auto simp: Let_def st1_def l1_def split: if_splits)
    from IH(4) [OF ooo this] show ?thesis
      using base ooo by (auto simp: outside_def chunkFollows_def)
  qed
qed

lemma addSeries_counts:
  assumes "lset \<noteq> []" and "chks \<noteq> []"
  shows "wfStats st \<Longrightarrow> wfStats (addSeries mint maxt (lset, chks) st)"
    and "badCount (addSeries mint maxt (lset, chks) st) =
      badCount st + outside mint maxt chks + (if consecutive chunkFollows chks then 0 else 1)"
proof -
  let ?st = "st\<lparr>OutOfOrderLabels := OutOfOrderLabels st + countUnorderedLabels (hd lset) (tl lset)\<rparr>"
  obtain ooo life st' where cl: "chunkLoop mint maxt None 0 0 ?st chks = (ooo, life, st')"
    using prod_cases3 by blast
  note counts = chunkLoop_counts [OF cl]
  show "wfStats (addSeries mint maxt (lset, chks) st)" if "wfStats st"
    using counts that cl by (simp add: addSeries_def Let_def wfStats_def)
  show "badCount (addSeries mint maxt (lset, chks) st) =
      badCount st + outside mint maxt chks + (if consecutive chunkFollows chks then 0 else 1)"
    using counts cl by (auto simp: addSeries_def Let_def badCount_def)
qed

lemma sound_iff:
  "sound mint maxt (lset, chks) \<longleftrightarrow>
     lset \<noteq> [] \<and> chks \<noteq> [] \<and> outside mint maxt chks + (if consecutive chunkFollows chks then 0 else 1) = 0"
  by (auto simp: sound_def outside_def filter_empty_conv list_all_iff)

lemma seriesLoop_healthy:
  assumes "seriesLoop cmp mint maxt lastSet st ss = Inr st'" and "wfStats st"
  shows "wfStats st' \<and> badCount st \<le> badCount st'
    \<and> (badCount st' = badCount st \<longleftrightarrow> (\<forall>s \<in> set ss. \<exists>x. s = Some x \<and> sound mint maxt x))
    \<and> consecutive (\<lambda>a b. cmp a b < 0)
        ((case lastSet of None \<Rightarrow> [] | Some l \<Rightarrow> [l]) @ map (fst \<circ> the) ss)"
  using assms
proof (induction cmp mint maxt lastSet st ss rule: seriesLoop.induct)
  case (1 cmp mint maxt lastSet st)
  then show ?case by (auto split: option.splits)
next
  case (2 cmp mint maxt lastSet st ss)
  then show ?case by simp
next
  case (3 cmp mint maxt lastSet st lset chks ss)
  let ?st = "st\<lparr>TotalSeries := TotalSeries st + 1\<rparr>"
  have ne: "lset \<noteq> []" "chks \<noteq> []" and ord: "\<not> (case lastSet of None \<Rightarrow> False | Some l0 \<Rightarrow> cmp l0 lset \<ge> 0)"
    and rest: "seriesLoop cmp mint maxt (Some lset) (addSeries mint maxt (lset, chks) ?st) ss = Inr st'"
    using "3.prems"(1) by (auto simp: Let_def split: if_splits)
  have wf: "wfStats ?st" "badCount ?st = badCount st"
    using "3.prems"(2) by (auto simp: wfStats_def badCount_def)
  note one = addSeries_counts [OF ne, where st = ?st and mint = mint and maxt = maxt]
  note IH = "3.IH" [OF refl ne(1) ord ne(2) rest one(1) [OF wf(1)]]
  show ?case
    using IH one(2) wf(2) ord ne
    by (cases lastSet) (auto simp: sound_iff split: if_splits)
qed

text \<open>
  C21: the index check the compactor makes of every input block is exact: when the walk returns counters,
  they pass the critical and the issue-347 check if and only if every series has labels and chunks,
  every chunk lies in the time range of the block, and each chunk starts after the one before it ends
  or covers exactly the same range; and the label sets are strictly increasing.
\<close>

theorem GatherIndexHealthStats_exact:
  assumes "GatherIndexHealthStats cmp (Some f) mint maxt = Inr st"
  shows "(\<not> CriticalErr st \<and> \<not> Issue347OutsideChunksErr st \<longleftrightarrow>
      (\<forall>s \<in> set (indexSeries f). \<exists>x. s = Some x \<and> sound mint maxt x))
    \<and> consecutive (\<lambda>a b. cmp a b < 0) (map (fst \<circ> the) (indexSeries f))"
proof -
  have "seriesLoop cmp mint maxt None emptyStats (indexSeries f) = Inr st"
    using assms by (simp add: GatherIndexHealthStats_def)
  from seriesLoop_healthy [OF this] show ?thesis
    using healthy_iff [of st] by (auto simp: emptyStats_def wfStats_def badCount_def healthy_def)
qed

text \<open>A failed walk over the postings is not reported.\<close>

lemma GatherIndexHealthStats_swallows:
  "GatherIndexHealthStats cmp (Some (f\<lparr>walkFailed := True\<rparr>)) mint maxt =
   GatherIndexHealthStats cmp (Some f) mint maxt"
  by (simp add: GatherIndexHealthStats_def)

section \<open>Repair\<close>

interpretation by_chunk_min: slice_order "\<lambda>(a :: chunk_meta) b. chunkMin a < chunkMin b"
  by (rule slice_order_key)

lemma repairFns_keep:
  "anyIgnores (repairFns crc) mint maxt prev c = Inr False \<Longrightarrow>
     chunkMin c \<le> maxt \<and> mint \<le> chunkMax c \<and> chunkMin c \<noteq> maxt
     \<and> (\<forall>p. prev = Some p \<longrightarrow> chunkMax p < chunkMin c)"
  by (auto simp: repairFns_def IgnoreCompleteOutsideChunk_def IgnoreDuplicateOutsideChunk_def
      IgnoreIssue347OutsideChunk_def split: option.splits if_splits bool.splits)

lemma repairFns_drop:
  "anyIgnores (repairFns crc) mint maxt prev c = Inr True \<Longrightarrow>
     chunkMin c > maxt \<or> chunkMax c < mint \<or> chunkMin c = maxt
     \<or> (\<exists>p. prev = Some p \<and> sameChunk crc p c)"
  by (auto simp: repairFns_def IgnoreCompleteOutsideChunk_def IgnoreDuplicateOutsideChunk_def
      IgnoreIssue347OutsideChunk_def sameChunk_def split: option.splits if_splits bool.splits)

lemma sanitizeLoop_Cons:
  assumes "sanitizeLoop fs mint maxt prev (c # cs) = Inr r"
  obtains (drop) "anyIgnores fs mint maxt prev c = Inr True" "sanitizeLoop fs mint maxt prev cs = Inr r"
    | (keep) r' where "anyIgnores fs mint maxt prev c = Inr False"
        "sanitizeLoop fs mint maxt (Some c) cs = Inr r'" "r = c # r'"
  using assms
  by (cases "anyIgnores fs mint maxt prev c"; cases "sanitizeLoop fs mint maxt (Some c) cs")
    (auto split: bool.splits)

lemma sanitizeLoop_sound:
  assumes "sanitizeLoop (repairFns crc) mint maxt prev cs = Inr r"
    and "\<forall>c \<in> set cs. chunkMin c \<le> chunkMax c"
  shows "set r \<subseteq> set cs
    \<and> (\<forall>c \<in> set r. chunkMin c \<le> maxt \<and> mint \<le> chunkMax c \<and> chunkMin c \<noteq> maxt)
    \<and> sorted_wrt (\<lambda>a b. chunkMax a < chunkMin b) ((case prev of None \<Rightarrow> [] | Some p \<Rightarrow> [p]) @ r)
    \<and> (\<forall>c \<in> set cs - set r. chunkMin c > maxt \<or> chunkMax c < mint \<or> chunkMin c = maxt
          \<or> (\<exists>d \<in> set r \<union> set_option prev. sameChunk crc d c))"
  using assms
proof (induction cs arbitrary: prev r)
  case Nil
  then show ?case by (auto split: option.splits)
next
  case (Cons c cs)
  have wf: "\<forall>c \<in> set cs. chunkMin c \<le> chunkMax c" "chunkMin c \<le> chunkMax c" using Cons.prems(2) by auto
  from Cons.prems(1) show ?case
  proof (cases rule: sanitizeLoop_Cons)
    case drop
    show ?thesis using Cons.IH [OF drop(2) wf(1)] repairFns_drop [OF drop(1)] by auto
  next
    case (keep r')
    note IH = Cons.IH [OF keep(2) wf(1)] and k = repairFns_keep [OF keep(1)]
    have "sorted_wrt (\<lambda>a b. chunkMax a < chunkMin b) ((case prev of None \<Rightarrow> [] | Some p \<Rightarrow> [p]) @ c # r')"
      using IH k wf(2) by (cases prev) force+
    moreover have "\<forall>x \<in> set (c # cs) - set (c # r'). chunkMin x > maxt \<or> chunkMax x < mint \<or> chunkMin x = maxt
        \<or> (\<exists>d \<in> set (c # r') \<union> set_option prev. sameChunk crc d x)"
      using IH by auto
    ultimately show ?thesis using IH k keep(3) by auto
  qed
qed

text \<open>
  C22: repairing the chunks of a series leaves a strictly ordered sequence: when it reports no error, and no
  chunk ends before it starts, the kept chunks are chunks of the input that do not overlap each other and
  each of them intersects the time range of the block, its end excluded (a chunk may still reach beyond
  either end); every dropped chunk does not, or has the time range and the checksum of a kept chunk.
\<close>

theorem sanitizeChunkSequence_sound:
  assumes "sanitizeChunkSequence chks mint maxt (repairFns crc) = Inr r"
    and "\<forall>c \<in> set chks. chunkMin c \<le> chunkMax c"
  shows "set r \<subseteq> set chks
    \<and> sorted_wrt (\<lambda>a b. chunkMax a < chunkMin b) r
    \<and> (\<forall>c \<in> set r. chunkMin c < maxt \<and> mint \<le> chunkMax c)
    \<and> (\<forall>c \<in> set chks - set r. chunkMin c \<ge> maxt \<or> chunkMax c < mint
          \<or> (\<exists>d \<in> set r. sameChunk crc d c))"
proof -
  have "sanitizeLoop (repairFns crc) mint maxt None (sort_slice (\<lambda>a b. chunkMin a < chunkMin b) chks) = Inr r"
    using assms(1) by (simp add: sanitizeChunkSequence_def)
  note L = sanitizeLoop_sound [OF this]
  have wf: "\<forall>c \<in> set (sort_slice (\<lambda>a b. chunkMin a < chunkMin b) chks). chunkMin c \<le> chunkMax c"
    using assms(2) by simp
  have "set r \<subseteq> set chks" "sorted_wrt (\<lambda>a b. chunkMax a < chunkMin b) r" using L [OF wf] by simp_all
  moreover have "chunkMin c < maxt \<and> mint \<le> chunkMax c" if "c \<in> set r" for c
    using L [OF wf] that by (simp add: order.strict_iff_order)
  moreover have "chunkMin c \<ge> maxt \<or> chunkMax c < mint \<or> (\<exists>d \<in> set r. sameChunk crc d c)"
    if "c \<in> set chks - set r" for c
  proof -
    have "c \<in> set (sort_slice (\<lambda>a b. chunkMin a < chunkMin b) chks) - set r" using that by simp
    then have "chunkMin c > maxt \<or> chunkMax c < mint \<or> chunkMin c = maxt
        \<or> (\<exists>d \<in> set r \<union> set_option None. sameChunk crc d c)" using L [OF wf] by blast
    then show ?thesis by (elim disjE) auto
  qed
  ultimately show ?thesis by blast
qed

theorem sanitizeChunkSequence_sound_witness:
  "sorted_wrt (\<lambda>a b. chunkMax a < chunkMin b) [mkChunk 0 4 ''a'', mkChunk 5 9 ''b'']"
proof -
  have "sanitizeChunkSequence
      [mkChunk 5 9 ''b'', mkChunk 0 4 ''a'', mkChunk 5 9 ''b'', mkChunk 10 12 ''c'', mkChunk 30 31 ''d''] 0 10
      (repairFns (\<lambda>_. 0)) = Inr [mkChunk 0 4 ''a'', mkChunk 5 9 ''b'']" by code_simp
  from sanitizeChunkSequence_sound [OF this] show ?thesis by (simp add: mkChunk_def)
qed

theorem GatherIndexHealthStats_exact_witness:
  "\<exists>st. GatherIndexHealthStats (\<lambda>_ _. 0) (Some \<lparr>indexSeries =
       [Some ([(''a'', ''1'')], [mkChunk 0 4 ''a'', mkChunk 5 9 ''b''])], walkFailed = False\<rparr>) 0 10 = Inr st
     \<and> \<not> CriticalErr st \<and> \<not> Issue347OutsideChunksErr st
     \<and> sound 0 10 ([(''a'', ''1'')], [mkChunk 0 4 ''a'', mkChunk 5 9 ''b''])"
proof -
  let ?f = "\<lparr>indexSeries = [Some ([(''a'', ''1'')], [mkChunk 0 4 ''a'', mkChunk 5 9 ''b''])], walkFailed = False\<rparr>"
  let ?g = "GatherIndexHealthStats (\<lambda>_ _. 0) (Some ?f) 0 10"
  have g: "?g = Inr (projr ?g)" "\<not> CriticalErr (projr ?g)" "\<not> Issue347OutsideChunksErr (projr ?g)"
    by code_simp+
  from GatherIndexHealthStats_exact [OF g(1)] g(2,3)
  have "sound 0 10 ([(''a'', ''1'')], [mkChunk 0 4 ''a'', mkChunk 5 9 ''b''])" by simp
  with g show ?thesis by (intro exI [of _ "projr ?g"]) blast
qed

end
