(* ===== verification/Block_Download.thy ===== *)
theory Block_Download
  imports Block_Safety
begin

text \<open>
  Downloading a block (\<^verbatim>\<open>pkg/block/block.go\<close> \<^verbatim>\<open>Download\<close>, \<^verbatim>\<open>pkg/objstore/objstore.go\<close> \<^verbatim>\<open>DownloadDir\<close> and
  \<^verbatim>\<open>DownloadFile\<close>) into a directory that holds nothing yet. The local disk is taken to work, so the
  directory is the list of the objects fetched into it; as it starts out empty, and the file lists of
  \<^verbatim>\<open>upload\<close> carry no hashes, no file is skipped because of a matching hash.
\<close>

type_synonym block_files = "(obj_name \<times> object) list"

datatype download_error = DownloadBucket bkt_error | DownloadMeta

definition DownloadFile :: "faults \<Rightarrow> obj_name \<Rightarrow> bucket \<Rightarrow> (bkt_error + obj_name \<times> object) \<times> bucket" where
  "DownloadFile flt src b = andThen (bkt_get flt src b) (\<lambda>x b. (Inr (src, x), b))"

text \<open>The fuel bounds the depth of the recursion, as in \<open>deleteDirRec\<close>.\<close>

function (sequential) downloadDir ::
    "nat \<Rightarrow> faults \<Rightarrow> (obj_name \<Rightarrow> bool) \<Rightarrow> obj_name \<Rightarrow> bucket \<Rightarrow> (bkt_error + block_files) \<times> bucket"
  and downloadEntries ::
    "nat \<Rightarrow> faults \<Rightarrow> (obj_name \<Rightarrow> bool) \<Rightarrow> entry list \<Rightarrow> bucket \<Rightarrow> (bkt_error + block_files) \<times> bucket"
where
  "downloadDir 0 flt ignored dir b = (Inl OutOfFuel, b)"
| "downloadDir (Suc k) flt ignored dir b =
     andThen (bkt_iter flt dir b) (\<lambda>es. downloadEntries k flt ignored es)"
| "downloadEntries k flt ignored [] b = (Inr [], b)"
| "downloadEntries k flt ignored (EDir d # es) b =
     andThen (downloadDir k flt ignored d b) (\<lambda>xs b.
       andThen (downloadEntries k flt ignored es b) (\<lambda>ys b. (Inr (xs @ ys), b)))"
| "downloadEntries k flt ignored (EFile n # es) b =
     (if ignored n then downloadEntries k flt ignored es b
      else andThen (DownloadFile flt n b) (\<lambda>x b.
             andThen (downloadEntries k flt ignored es b) (\<lambda>ys b. (Inr (x # ys), b))))"
  by pat_completeness auto
termination
  by (relation "measures
      [\<lambda>x. case x of Inl (k, _) \<Rightarrow> k | Inr (k, _) \<Rightarrow> k,
       \<lambda>x. case x of Inl _ \<Rightarrow> 0 | Inr (_, _, _, es, _) \<Rightarrow> Suc (length es)]") auto

definition Download ::
  "faults \<Rightarrow> ulid \<Rightarrow> bucket \<Rightarrow> (download_error + meta \<times> block_files) \<times> bucket" where
  "Download flt i b =
     (case DownloadFile flt (metaName i) b of
        (Inl e, b) \<Rightarrow> (Inl (DownloadBucket e), b)
      | (Inr (_, MetaJSON m), b) \<Rightarrow>
          if metaVersion m \<noteq> 1 then (Inl DownloadMeta, b)
          else (case downloadDir (Suc (max_depth (objects b))) flt (\<lambda>n. n = metaName i) [Id i] b of
                  (Inl e, b) \<Rightarrow> (Inl (DownloadBucket e), b)
                | (Inr fs, b) \<Rightarrow> (Inr (m, fs), b))
      | (Inr _, b) \<Rightarrow> (Inl DownloadMeta, b))"

section \<open>Operations that only read\<close>

definition readonly :: "(bucket \<Rightarrow> 'r \<times> bucket) \<Rightarrow> bool" where
  "readonly f \<longleftrightarrow>
     (\<forall>b. objects (snd (f b)) = objects b
        \<and> (\<exists>new. trace (snd (f b)) = new @ trace b \<and> (\<forall>c \<in> set new. c = objects b)))"

definition downloaded :: "(obj_name \<Rightarrow> bool) \<Rightarrow> (obj_name \<Rightarrow> bool) \<Rightarrow> contents \<Rightarrow> block_files \<Rightarrow> bool" where
  "downloaded wanted ignored c fs \<longleftrightarrow>
     (\<forall>n x. (n, x) \<in> set fs \<longleftrightarrow> wanted n \<and> \<not> ignored n \<and> map_of c n = Some x)"

lemma readonly_objects: "readonly f \<Longrightarrow> objects (snd (f b)) = objects b"
  by (simp add: readonly_def)

lemma readonly_runs: "readonly f \<Longrightarrow> runs I P f (\<lambda>_. P)"
  by (fastforce simp: readonly_def runs_def)

lemma readonly_return: "readonly (\<lambda>b. (x, b))"
  by (simp add: readonly_def)

lemma readonly_ops:
  "readonly (bkt_get flt n)" "readonly (bkt_iter flt n)" "readonly (bkt_exists flt n)"
  "readonly (bkt_attributes flt sz n)"
  by (auto simp: readonly_def bkt_get_def bkt_iter_def bkt_exists_def bkt_attributes_def)

lemma readonly_case:
  assumes "readonly f" and "\<And>e. readonly (g e)" and "\<And>x. readonly (h x)"
  shows "readonly (\<lambda>b. case f b of (Inl e, b) \<Rightarrow> g e b | (Inr x, b) \<Rightarrow> h x b)"
proof -
  have step: "objects (snd (k (snd (f b)))) = objects b
      \<and> (\<exists>new. trace (snd (k (snd (f b)))) = new @ trace b \<and> (\<forall>c \<in> set new. c = objects b))"
    if "readonly k" for k :: "bucket \<Rightarrow> 'c \<times> bucket" and b :: bucket
  proof -
    obtain n1 where n1: "trace (snd (f b)) = n1 @ trace b" "\<forall>c \<in> set n1. c = objects b"
      and o1: "objects (snd (f b)) = objects b" using assms(1) unfolding readonly_def by blast
    obtain n2 where "trace (snd (k (snd (f b)))) = n2 @ trace (snd (f b))"
        "\<forall>c \<in> set n2. c = objects (snd (f b))" "objects (snd (k (snd (f b)))) = objects (snd (f b))"
      using \<open>readonly k\<close> unfolding readonly_def by blast
    then show ?thesis using n1 o1 by (auto intro!: exI [of _ "n2 @ n1"])
  qed
  show ?thesis
    unfolding readonly_def
    using step assms(2,3) by (auto split: prod.splits sum.splits) (metis snd_conv)+
qed

lemma readonly_andThen:
  assumes "readonly f" and "\<And>x. readonly (k x)"
  shows "readonly (\<lambda>b. andThen (f b) k)"
  unfolding andThen_def by (rule readonly_case) (auto intro: assms readonly_return)

lemma readonly_DownloadFile: "readonly (DownloadFile flt n)"
  unfolding DownloadFile_def by (rule readonly_andThen) (rule readonly_ops readonly_return)+

lemma readonly_downloadEntries:
  assumes "\<And>d. readonly (downloadDir k flt ignored d)"
  shows "readonly (downloadEntries k flt ignored es)"
proof (induction es)
  case Nil
  then show ?case by (simp add: readonly_def)
next
  case (Cons e es)
  have tail: "readonly (\<lambda>b. andThen (downloadEntries k flt ignored es b) (\<lambda>ys b. (Inr (f ys), b)))" for f
    by (rule readonly_andThen [OF Cons]) (rule readonly_return)
  show ?case
  proof (cases e)
    case (EDir d)
    have "readonly (\<lambda>b. andThen (downloadDir k flt ignored d b) (\<lambda>xs b.
        andThen (downloadEntries k flt ignored es b) (\<lambda>ys b. (Inr (xs @ ys), b))))"
      by (rule readonly_andThen [OF assms]) (rule tail)
    then show ?thesis using EDir by simp
  next
    case (EFile n)
    have "readonly (\<lambda>b. andThen (DownloadFile flt n b) (\<lambda>x b.
        andThen (downloadEntries k flt ignored es b) (\<lambda>ys b. (Inr (x # ys), b))))"
      by (rule readonly_andThen [OF readonly_DownloadFile]) (rule tail)
    then show ?thesis using Cons EFile by (cases "ignored n") (simp_all add: readonly_def)
  qed
qed

lemma readonly_downloadDir: "readonly (downloadDir k flt ignored dir)"
proof (induction k arbitrary: dir)
  case 0
  then show ?case by (simp add: readonly_def)
next
  case (Suc k)
  from readonly_andThen [OF readonly_ops(2) readonly_downloadEntries [OF Suc], of flt dir] show ?case
    by simp
qed

section \<open>What a download fetches\<close>

lemma downloadEntries_exact:
  assumes rec: "\<And>d b fs. fst (downloadDir k flt ignored d b) = Inr fs \<Longrightarrow>
      downloaded (strict_prefix d) ignored (objects b) fs"
  shows "fst (downloadEntries k flt ignored es b) = Inr fs \<Longrightarrow>
     downloaded (\<lambda>n. EFile n \<in> set es \<or> (\<exists>d. EDir d \<in> set es \<and> strict_prefix d n)) ignored (objects b) fs"
proof (induction es arbitrary: b fs)
  case Nil
  then show ?case by (simp add: downloaded_def)
next
  case (Cons e es)
  show ?case
  proof (cases e)
    case (EDir d)
    with Cons.prems obtain xs b1 ys where
      xs: "downloadDir k flt ignored d b = (Inr xs, b1)"
      and ys: "fst (downloadEntries k flt ignored es b1) = Inr ys" and fs: "fs = xs @ ys"
      by (auto simp: andThen_def split: prod.splits sum.splits)
    have "objects b1 = objects b" using readonly_objects [OF readonly_downloadDir, of k flt ignored d b] xs by simp
    then show ?thesis
      using rec [of d b xs] Cons.IH [OF ys] xs EDir fs unfolding downloaded_def by auto
  next
    case (EFile m)
    show ?thesis
    proof (cases "ignored m")
      case True
      then show ?thesis using Cons.IH [of b fs] Cons.prems EFile unfolding downloaded_def by auto
    next
      case False
      with Cons.prems EFile obtain x b1 ys where
        x: "DownloadFile flt m b = (Inr x, b1)"
        and ys: "fst (downloadEntries k flt ignored es b1) = Inr ys" and fs: "fs = x # ys"
        by (auto simp: andThen_def split: prod.splits sum.splits)
      have "objects b1 = objects b" using readonly_objects [OF readonly_DownloadFile, of flt m b] x by simp
      moreover have "fst x = m" "map_of (objects b) m = Some (snd x)"
        using x by (auto simp: DownloadFile_def andThen_def bkt_get_def split: if_splits option.splits)
      ultimately show ?thesis
        using Cons.IH [OF ys] EFile fs False unfolding downloaded_def by (cases x) auto
    qed
  qed
qed

lemma list_dir_below:
  assumes "has_object c n"
  shows "EFile n \<in> set (list_dir dir c) \<or> (\<exists>d. EDir d \<in> set (list_dir dir c) \<and> strict_prefix d n)
    \<longleftrightarrow> strict_prefix dir n"
proof
  assume "EFile n \<in> set (list_dir dir c) \<or> (\<exists>d. EDir d \<in> set (list_dir dir c) \<and> strict_prefix d n)"
  then show "strict_prefix dir n"
    by (auto simp: EFile_list_dir EDir_list_dir strict_prefix_def prefix_def)
next
  assume "strict_prefix dir n"
  then obtain s t where n: "n = dir @ s # t"
    by (metis prefixE strict_prefix_def append_Nil2 neq_Nil_conv)
  show "EFile n \<in> set (list_dir dir c) \<or> (\<exists>d. EDir d \<in> set (list_dir dir c) \<and> strict_prefix d n)"
  proof (cases t)
    case Nil
    then show ?thesis using assms n by (simp add: EFile_list_dir)
  next
    case (Cons a list)
    then have "strict_prefix (dir @ [s]) n" using n by (simp add: strict_prefix_def prefix_def)
    then show ?thesis using assms by (auto simp: EDir_list_dir)
  qed
qed

lemma downloadDir_exact:
  "fst (downloadDir k flt ignored dir b) = Inr fs \<Longrightarrow> downloaded (strict_prefix dir) ignored (objects b) fs"
proof (induction k arbitrary: dir b fs)
  case 0
  then show ?case by simp
next
  case (Suc k)
  then obtain b1 where b1: "fst (downloadEntries k flt ignored (list_dir dir (objects b)) b1) = Inr fs"
    "objects b1 = objects b"
    by (auto simp: andThen_def bkt_iter_def split: if_splits)
  have "downloaded (\<lambda>n. EFile n \<in> set (list_dir dir (objects b))
      \<or> (\<exists>d. EDir d \<in> set (list_dir dir (objects b)) \<and> strict_prefix d n)) ignored (objects b) fs"
    using downloadEntries_exact [OF Suc.IH b1(1)] b1(2) by simp
  then show ?case
    using list_dir_below [where c = "objects b" and dir = dir] unfolding downloaded_def has_object_def by fastforce
qed

text \<open>Without faults, and with enough fuel for the depth of the bucket, a download does not fail.\<close>

lemma downloadEntries_total:
  assumes nf: "\<And>k. flt k = NoFault"
    and rec: "\<And>d b'. EDir d \<in> set es \<Longrightarrow> objects b' = c \<Longrightarrow> \<exists>fs. fst (downloadDir k flt ignored d b') = Inr fs"
    and here: "\<And>n. EFile n \<in> set es \<Longrightarrow> has_object c n"
  shows "objects b = c \<Longrightarrow> \<exists>fs. fst (downloadEntries k flt ignored es b) = Inr fs"
  using rec here
proof (induction es arbitrary: b)
  case Nil
  then show ?case by simp
next
  case (Cons e es)
  have tail: "\<exists>fs. fst (downloadEntries k flt ignored es b1) = Inr fs" if "objects b1 = c" for b1
    by (rule Cons.IH [OF that]) (use Cons.prems in auto)
  show ?case
  proof (cases e)
    case (EDir d)
    then obtain xs where xs: "fst (downloadDir k flt ignored d b) = Inr xs"
      using Cons.prems(1) Cons.prems(2) [of d b] by auto
    obtain ys where "fst (downloadEntries k flt ignored es (snd (downloadDir k flt ignored d b))) = Inr ys"
      using tail readonly_objects [OF readonly_downloadDir, of k flt ignored d b] Cons.prems(1) by auto
    then show ?thesis using xs EDir by (auto simp: andThen_def split: prod.splits sum.splits)
  next
    case (EFile n)
    then have "has_object (objects b) n" using Cons.prems by auto
    then obtain x where x: "fst (DownloadFile flt n b) = Inr x"
      by (auto simp: DownloadFile_def andThen_def bkt_get_def nf has_object_def)
    obtain ys where "fst (downloadEntries k flt ignored es (snd (DownloadFile flt n b))) = Inr ys"
      using tail readonly_objects [OF readonly_DownloadFile, of flt n b] Cons.prems(1) by auto
    then show ?thesis using x tail [OF Cons.prems(1)] EFile
      by (auto simp: andThen_def split: prod.splits sum.splits)
  qed
qed

lemma downloadDir_total:
  assumes nf: "\<And>k. flt k = NoFault"
  shows "depth_le l (objects b) \<Longrightarrow> 0 < k \<Longrightarrow> l \<le> length dir + k \<Longrightarrow>
     \<exists>fs. fst (downloadDir k flt ignored dir b) = Inr fs"
proof (induction k arbitrary: dir b)
  case 0
  then show ?case by simp
next
  case (Suc k)
  have "\<exists>fs. fst (downloadEntries k flt ignored (list_dir dir (objects b)) b1) = Inr fs"
    if b1: "objects b1 = objects b" for b1
  proof (rule downloadEntries_total [OF nf])
    fix d and b2 :: bucket
    assume d: "EDir d \<in> set (list_dir dir (objects b))" and b2: "objects b2 = objects b"
    from d obtain s n where n: "d = dir @ [s]" "has_object (objects b) n" "strict_prefix d n"
      by (auto simp: EDir_list_dir)
    then have "length d < length n" by (meson prefix_length_less)
    moreover have "length n \<le> l" using n(2) Suc.prems(1) by (simp add: depth_le_def)
    ultimately show "\<exists>fs. fst (downloadDir k flt ignored d b2) = Inr fs"
      using Suc.prems n(1) b2 by (intro Suc.IH) auto
  qed (use b1 in \<open>auto simp: EFile_list_dir\<close>)
  then show ?case using nf [of "opcount b"] by (auto simp: andThen_def bkt_iter_def)
qed

section \<open>Upload and download\<close>

definition putChunks :: "ulid \<Rightarrow> (string \<times> string) list \<Rightarrow> contents \<Rightarrow> contents" where
  "putChunks i cs = fold (\<lambda>(n, d). put_object (chunkName i n) (Raw d)) cs"

lemma uploadDir_objects:
  "fst (uploadDir flt i cs b) = Inr () \<Longrightarrow> objects (snd (uploadDir flt i cs b)) = putChunks i cs (objects b)"
proof (induction cs arbitrary: b)
  case Nil
  then show ?case by (simp add: putChunks_def)
next
  case (Cons c cs)
  then show ?case
    by (cases c) (auto simp: putChunks_def andThen_def bkt_upload_def split: fault.splits)
qed

lemma bkt_upload_objects:
  "fst (bkt_upload flt n x b) = Inr u \<Longrightarrow> objects (snd (bkt_upload flt n x b)) = put_object n x (objects b)"
  by (auto simp: bkt_upload_def split: fault.splits)

lemma orElse_cleanUp_Inr:
  "fst (orElse r (cleanUp flt i)) = Inr u \<Longrightarrow> fst r = Inr u \<and> orElse r (cleanUp flt i) = (Inr u, snd r)"
  by (cases r) (auto simp: orElse_def cleanUp_def split: sum.splits prod.splits)

lemma andThen_Inr: "fst (andThen r k) = Inr y \<Longrightarrow> \<exists>x. fst r = Inr x \<and> andThen r k = k x (snd r)"
  by (cases r) (auto simp: andThen_def split: sum.splits)

lemma uploadObjects_objects:
  assumes ok: "fst (uploadObjects flt i m cs ix b) = Inr ()"
  shows "objects (snd (uploadObjects flt i m cs ix b)) =
    put_object (metaName i) (MetaJSON m) (put_object (indexName i) (Raw ix)
      (putChunks i cs (put_object (debugMetaName i) (MetaJSON m) (objects b))))"
proof -
  let ?r1 = "bkt_upload flt (debugMetaName i) (MetaJSON m) b"
  let ?r2 = "uploadDir flt i cs (snd ?r1)"
  let ?r3 = "bkt_upload flt (indexName i) (Raw ix) (snd ?r2)"
  let ?r4 = "bkt_upload flt (metaName i) (MetaJSON m) (snd ?r3)"
  from andThen_Inr [OF ok [unfolded uploadObjects_def]]
  have r1: "fst ?r1 = Inr ()" and "orElse ?r1 (cleanUp flt i) = (Inr (), snd ?r1)"
    using orElse_cleanUp_Inr [of ?r1 flt i "()"] by auto
  then have U1: "uploadObjects flt i m cs ix b =
      andThen (orElse ?r2 (cleanUp flt i)) (\<lambda>_ b.
      andThen (orElse (bkt_upload flt (indexName i) (Raw ix) b) (cleanUp flt i)) (\<lambda>_ b.
        orElse (bkt_upload flt (metaName i) (MetaJSON m) b) (\<lambda>e b. (Inl (MetaUploadFailed e), b))))"
    by (simp add: uploadObjects_def andThen_def)
  from andThen_Inr [OF ok [unfolded U1]]
  have r2: "fst ?r2 = Inr ()" and "orElse ?r2 (cleanUp flt i) = (Inr (), snd ?r2)"
    using orElse_cleanUp_Inr [of ?r2 flt i "()"] by auto
  then have U2: "uploadObjects flt i m cs ix b =
      andThen (orElse ?r3 (cleanUp flt i)) (\<lambda>_ b.
        orElse (bkt_upload flt (metaName i) (MetaJSON m) b) (\<lambda>e b. (Inl (MetaUploadFailed e), b)))"
    by (simp add: U1 andThen_def)
  from andThen_Inr [OF ok [unfolded U2]]
  have r3: "fst ?r3 = Inr ()" and "orElse ?r3 (cleanUp flt i) = (Inr (), snd ?r3)"
    using orElse_cleanUp_Inr [of ?r3 flt i "()"] by auto
  then have U3: "uploadObjects flt i m cs ix b = orElse ?r4 (\<lambda>e b. (Inl (MetaUploadFailed e), b))"
    by (simp add: U2 andThen_def)
  then have "fst ?r4 = Inr ()" "uploadObjects flt i m cs ix b = (Inr (), snd ?r4)"
    using ok by (auto simp: orElse_def split: prod.splits sum.splits)
  with r1 r2 r3 show ?thesis by (simp add: bkt_upload_objects uploadDir_objects)
qed

lemma map_of_putChunks:
  "distinct (map fst cs) \<Longrightarrow> map_of (putChunks i cs c) n = Some x \<longleftrightarrow>
     (\<exists>f d. (f, d) \<in> set cs \<and> n = chunkName i f \<and> x = Raw d)
     \<or> (\<forall>f \<in> fst ` set cs. n \<noteq> chunkName i f) \<and> map_of c n = Some x"
proof (induction cs arbitrary: c)
  case Nil
  then show ?case by (simp add: putChunks_def)
next
  case (Cons e cs)
  obtain f d where e: "e = (f, d)" by fastforce
  have "putChunks i (e # cs) c = putChunks i cs (put_object (chunkName i f) (Raw d) c)"
    by (simp add: putChunks_def e)
  moreover have "f \<notin> fst ` set cs" "distinct (map fst cs)" using Cons.prems e by auto
  ultimately show ?case
    using Cons.IH [of "put_object (chunkName i f) (Raw d) c"] e
    by (auto simp: map_of_put_object chunkName_eq)
qed

text \<open>
  C23: what is uploaded can be downloaded again: after a successful upload of a block whose directory was
  not in the bucket, whatever went wrong on the way, a download without faults returns, and it returns
  the uploaded \<^verbatim>\<open>meta.json\<close>, extended by the file list, with exactly the index and the chunk files of
  the block; no other file is fetched.
\<close>

theorem upload_download:
  assumes "lbId lb = Some i" and "lbMeta lb = Some m" and "lbChunks lb = Some cs" and "lbIndex lb = Some ix"
    and "distinct (map fst cs)" and "metaVersion m = 1"
    and fresh: "\<And>n. strict_prefix [Id i] n \<Longrightarrow> \<not> has_object (objects b) n"
    and up: "upload flt chk lb b = (Inr (), b')" and nf: "\<And>k. flt' k = NoFault"
  shows "\<exists>fl fs. fst (Download flt' i b') = Inr (m\<lparr>thanos := (thanos m)\<lparr>files := fl\<rparr>\<rparr>, fs)
    \<and> gatherFileStats lb = Some fl
    \<and> (\<forall>n x. (n, x) \<in> set fs \<longleftrightarrow>
          n = indexName i \<and> x = Raw ix \<or> (\<exists>f d. (f, d) \<in> set cs \<and> n = chunkName i f \<and> x = Raw d))"
proof -
  obtain fl where fl: "gatherFileStats lb = Some fl" using assms(3,4) by (simp add: gatherFileStats_def)
  let ?m = "m\<lparr>thanos := (thanos m)\<lparr>files := fl\<rparr>\<rparr>"
  have "uploadObjects flt i ?m cs ix b = (Inr (), b')"
    using up fl assms(1-4) by (auto simp: upload_def split: if_splits)
  then have b': "objects b' = put_object (metaName i) (MetaJSON ?m) (put_object (indexName i) (Raw ix)
      (putChunks i cs (put_object (debugMetaName i) (MetaJSON ?m) (objects b))))"
    using uploadObjects_objects [of flt i ?m cs ix b] by simp
  obtain b1 where meta: "DownloadFile flt' (metaName i) b' = (Inr (metaName i, MetaJSON ?m), b1)"
    using nf [of "opcount b'"] by (simp add: DownloadFile_def andThen_def bkt_get_def b' map_of_put_object)
  have ob: "objects b1 = objects b'"
    using readonly_objects [OF readonly_DownloadFile, of flt' "metaName i" b'] meta by simp
  obtain fs where fs: "fst (downloadDir (Suc (max_depth (objects b1))) flt' (\<lambda>n. n = metaName i) [Id i] b1) = Inr fs"
    using downloadDir_total [of flt' "max_depth (objects b1)" b1 "Suc (max_depth (objects b1))" "[Id i]" "\<lambda>n. n = metaName i"]
      nf max_depth_bound by (auto simp: depth_le_def)
  have "fst (Download flt' i b') = Inr (?m, fs)"
    unfolding Download_def meta using assms(6) fs by (auto split: prod.splits sum.splits simp del: downloadDir.simps)
  moreover have "(n, x) \<in> set fs \<longleftrightarrow> n = indexName i \<and> x = Raw ix
      \<or> (\<exists>f d. (f, d) \<in> set cs \<and> n = chunkName i f \<and> x = Raw d)" for n x
  proof -
    have "(n, x) \<in> set fs \<longleftrightarrow> strict_prefix [Id i] n \<and> n \<noteq> metaName i \<and> map_of (objects b') n = Some x"
      using downloadDir_exact [OF fs] ob by (simp add: downloaded_def)
    moreover have "map_of (objects b) n \<noteq> Some x" if "strict_prefix [Id i] n"
      using fresh [OF that] by (simp add: has_object_def)
    moreover have "\<not> strict_prefix [Id i] (debugMetaName i)" "strict_prefix [Id i] (indexName i)"
      "\<And>f. strict_prefix [Id i] (chunkName i f)"
      by (auto simp: block_names strict_prefix_def)
    ultimately show ?thesis
      using assms(5) by (auto simp: b' map_of_put_object map_of_putChunks)
  qed
  ultimately show ?thesis using fl by blast
qed

theorem upload_download_witness:
  "\<exists>fl fs. fst (Download (\<lambda>_. NoFault) 9 (snd (upload (\<lambda>_. NoFault) True sampleLocal sampleBucket)))
      = Inr (rawBlock 9 0 10\<lparr>thanos := (thanos (rawBlock 9 0 10))\<lparr>files := fl\<rparr>\<rparr>, fs)
    \<and> (indexName 9, Raw ''idx'') \<in> set fs"
proof -
  let ?u = "upload (\<lambda>_. NoFault) True sampleLocal sampleBucket"
  have "fst ?u = Inr ()" by code_simp
  then have up: "?u = (Inr (), snd ?u)" by (metis prod.collapse)
  have lb: "lbId sampleLocal = Some 9" "lbMeta sampleLocal = Some (rawBlock 9 0 10)"
    "lbChunks sampleLocal = Some [(''000001'', ''abc''), (''000002'', ''d'')]" "lbIndex sampleLocal = Some ''idx''"
    by code_simp+
  have wf: "distinct (map fst [(''000001'', ''abc''), (''000002'', ''d'')])" "metaVersion (rawBlock 9 0 10) = 1"
    by (simp, simp add: rawBlock_def)
  have fresh: "\<not> has_object (objects sampleBucket) n" if "strict_prefix [Id 9] n" for n
    using that by (auto simp: sampleBucket_def has_object_iff block_names strict_prefix_def)
  from upload_download [OF lb wf fresh up refl] show ?thesis by blast
qed

end
