(* ===== verification/Label_Order.thy ===== *)
theory Label_Order
  imports Block_Meta "HOL-Library.Product_Lexorder"
begin

text \<open>
  The order of label sets. \<^verbatim>\<open>labels.Compare\<close> is library code, so the definitions that compare label sets
  take it as an argument; this theory states what they rely on.
\<close>

text \<open>The documented behaviour of \<^verbatim>\<open>labels.Compare\<close>: a linear order whose least element is the empty set.\<close>

definition label_order :: "(labels \<Rightarrow> labels \<Rightarrow> int) \<Rightarrow> bool" where
  "label_order cmp \<longleftrightarrow>
     (\<forall>a b. cmp a b = 0 \<longleftrightarrow> a = b) \<and> (\<forall>a b. cmp a b < 0 \<longleftrightarrow> 0 < cmp b a)
     \<and> (\<forall>a b c. cmp a b < 0 \<longrightarrow> cmp b c < 0 \<longrightarrow> cmp a c < 0) \<and> (\<forall>b. cmp [] b \<le> 0)"

lemma label_orderD:
  assumes "label_order cmp"
  shows "cmp a b = 0 \<longleftrightarrow> a = b" "cmp a b < 0 \<longleftrightarrow> 0 < cmp b a"
    "cmp a b < 0 \<Longrightarrow> cmp b c < 0 \<Longrightarrow> cmp a c < 0" "cmp [] b \<le> 0"
  using assms unfolding label_order_def by blast+

lemma label_order_le_trans:
  assumes "label_order cmp" and "cmp a b \<le> 0" and "cmp b c \<le> 0"
  shows "cmp a c \<le> 0"
proof (cases "a = b \<or> b = c")
  case True
  then show ?thesis using assms(2,3) by auto
next
  case False
  then have "cmp a b < 0" "cmp b c < 0"
    using assms(2,3) label_orderD(1) [OF assms(1)] by (auto simp: order_le_less)
  then show ?thesis using label_orderD(3) [OF assms(1)] by (blast intro: less_imp_le)
qed

text \<open>An order as \<^verbatim>\<open>labels.Compare\<close> documents it, for the examples.\<close>

definition sampleCompare :: "labels \<Rightarrow> labels \<Rightarrow> int" where
  "sampleCompare a b = (if a < b then - 1 else if a = b then 0 else 1)"

lemma sampleCompare_order: "label_order sampleCompare"
proof -
  have "[] \<le> b" for b :: labels by (cases b) simp_all
  then show ?thesis unfolding label_order_def sampleCompare_def by (auto simp: order_le_less)
qed

end
