(* ===== verification/Block_Repair.thy ===== *)
theory Block_Repair
  imports Index_Health Block_Download Label_Order
begin

text \<open>
  Rewriting a broken block (\<^verbatim>\<open>pkg/block/index.go\<close> \<^verbatim>\<open>rewrite\<close> and \<^verbatim>\<open>Repair\<close>). The TSDB readers and writers are
  library code: a block is read as its decoded index, and \<open>write\<close> turns the series handed to the
  writers into the index and segment files, or fails.

  The loop of \<^verbatim>\<open>rewrite\<close> passes one label slice to every \<^verbatim>\<open>indexr.Series\<close> call and keeps the slices; whether
  the reader reuses their storage is up to the library. \<open>kept\<close> says what the kept slices hold when the
  loop has ended (the identity for a reader that allocates).
\<close>

record block_tools =
  btCompare :: "labels \<Rightarrow> labels \<Rightarrow> int"
  btKept :: "labels list \<Rightarrow> labels list"
  btSamples :: "string \<Rightarrow> nat"
  btWrite :: "index_series list \<Rightarrow> (string \<times> (string \<times> string) list) option"
  btReadIndex :: "string \<Rightarrow> index_file option"

datatype repair_error =
    NoIgnoreFunction | RepairReadMeta | DownsampledBlock | RepairOpen | RepairSeries | RepairIgnore ignore_error | RepairWrite

fun rewriteLoop ::
  "int \<Rightarrow> int \<Rightarrow> ignore_fn list \<Rightarrow> index_series option list \<Rightarrow> repair_error + index_series list" where
  "rewriteLoop mint maxt fs [] = Inr []"
| "rewriteLoop mint maxt fs (None # ss) = Inl RepairSeries"
| "rewriteLoop mint maxt fs (Some (lset, chks) # ss) =
     (case sanitizeChunkSequence chks mint maxt fs of
        Inl e \<Rightarrow> Inl (RepairIgnore e)
      | Inr chks \<Rightarrow>
          if chks = [] then rewriteLoop mint maxt fs ss
          else map_sum id (\<lambda>r. (labels_from_map lset, chks) # r) (rewriteLoop mint maxt fs ss))"

fun dropDuplicateSeries :: "(labels \<Rightarrow> labels \<Rightarrow> int) \<Rightarrow> labels \<Rightarrow> index_series list \<Rightarrow> index_series list" where
  "dropDuplicateSeries cmp lastSet [] = []"
| "dropDuplicateSeries cmp lastSet (s # ss) =
     (if cmp lastSet (fst s) = 0 then dropDuplicateSeries cmp lastSet ss
      else s # dropDuplicateSeries cmp (fst s) ss)"

definition rewrite ::
  "block_tools \<Rightarrow> index_file \<Rightarrow> meta \<Rightarrow> ignore_fn list \<Rightarrow> repair_error + index_series list \<times> meta" where
  "rewrite bt ix m fs =
     (case rewriteLoop (minTime m) (maxTime m) fs (indexSeries ix) of
        Inl e \<Rightarrow> Inl e
      | Inr ss \<Rightarrow>
          if walkFailed ix then Inl RepairSeries
          else let ss = zip (btKept bt (map fst ss)) (map snd ss);
                   ss = dropDuplicateSeries (btCompare bt) []
                          (sort_slice (\<lambda>a b. btCompare bt (fst a) (fst b) < 0) ss)
               in Inr (ss, m\<lparr>numSeries := numSeries m + length ss,
                             numSamples := numSamples m
                               + sum_list (map (\<lambda>s. sum_list (map (\<lambda>c. btSamples bt (chunkData c)) (snd s))) ss)\<rparr>))"

definition Repair ::
  "block_tools \<Rightarrow> ulid \<Rightarrow> source_type \<Rightarrow> ignore_fn list \<Rightarrow> meta \<times> index_file option \<Rightarrow> repair_error + local_block" where
  "Repair bt resid src fs blk =
     (case blk of (m, ix) \<Rightarrow>
      if fs = [] then Inl NoIgnoreFunction
      else if resolution (thanos m) > 0 then Inl DownsampledBlock
      else case ix of
        None \<Rightarrow> Inl RepairOpen
      | Some ix \<Rightarrow>
          let resmeta = m\<lparr>metaULID := resid, numSamples := 0, numSeries := 0, numTombstones := 0,
                          thanos := (thanos m)\<lparr>source := src\<rparr>\<rparr>
          in case rewrite bt ix resmeta fs of
               Inl e \<Rightarrow> Inl e
             | Inr (ss, resmeta) \<Rightarrow>
                 (case btWrite bt ss of
                    None \<Rightarrow> Inl RepairWrite
                  | Some (idx, segs) \<Rightarrow>
                      Inr \<lparr>lbIsDir = True, lbId = Some resid,
                           lbMeta = Some (resmeta\<lparr>thanos := (thanos resmeta)\<lparr>segmentFiles := map fst segs\<rparr>\<rparr>),
                           lbChunks = Some segs, lbIndex = Some idx\<rparr>))"

section \<open>What a rewritten block looks like\<close>

lemma slice_order_labels:
  assumes "label_order cmp"
  shows "slice_order (\<lambda>(a :: index_series) b. cmp (fst a) (fst b) < 0)"
proof
  fix x y z :: index_series
  show "cmp (fst x) (fst y) < 0 \<Longrightarrow> \<not> cmp (fst y) (fst x) < 0"
    using label_orderD(2) [OF assms] by (metis less_asym)
  show "cmp (fst x) (fst y) < 0 \<Longrightarrow> cmp (fst y) (fst z) < 0 \<Longrightarrow> cmp (fst x) (fst z) < 0"
    using label_orderD(3) [OF assms] by blast
  have neg: "\<not> cmp a b < 0 \<longleftrightarrow> cmp b a \<le> 0" for a b
    using label_orderD(2) [OF assms, of a b] by auto
  show "\<not> cmp (fst x) (fst y) < 0 \<Longrightarrow> \<not> cmp (fst y) (fst z) < 0 \<Longrightarrow> \<not> cmp (fst x) (fst z) < 0"
    unfolding neg by (rule label_order_le_trans [OF assms])
qed

lemma dropDuplicateSeries_subset: "set (dropDuplicateSeries cmp l ss) \<subseteq> set ss"
  by (induction cmp l ss rule: dropDuplicateSeries.induct) auto

lemma dropDuplicateSeries_strict:
  assumes "label_order cmp"
  shows "sorted_wrt (\<lambda>a b. cmp a b \<le> 0) (l # map fst ss) \<Longrightarrow>
    sorted_wrt (\<lambda>a b. cmp a b < 0) (l # map fst (dropDuplicateSeries cmp l ss))"
proof (induction ss arbitrary: l)
  case Nil
  then show ?case by simp
next
  case (Cons s ss)
  show ?case
  proof (cases "cmp l (fst s) = 0")
    case True
    then show ?thesis using Cons label_orderD(1) [OF assms] by simp
  next
    case False
    then have lt: "cmp l (fst s) < 0" using Cons.prems by simp
    have IH: "sorted_wrt (\<lambda>a b. cmp a b < 0) (fst s # map fst (dropDuplicateSeries cmp (fst s) ss))"
      by (rule Cons.IH) (use Cons.prems in auto)
    then show ?thesis using lt False label_orderD(3) [OF assms lt] by auto
  qed
qed

lemma rewriteLoop_series:
  "rewriteLoop mint maxt fs ss = Inr r \<Longrightarrow> s \<in> set r \<Longrightarrow>
     snd s \<noteq> [] \<and> (\<exists>l chks. Some (l, chks) \<in> set ss \<and> sanitizeChunkSequence chks mint maxt fs = Inr (snd s))"
proof (induction mint maxt fs ss arbitrary: r rule: rewriteLoop.induct)
  case (3 mint maxt fs lset chks ss)
  then obtain cs where cs: "sanitizeChunkSequence chks mint maxt fs = Inr cs" by (auto split: sum.splits)
  show ?case
  proof (cases "cs = []")
    case True
    then have "rewriteLoop mint maxt fs ss = Inr r" using 3(3) cs by simp
    from 3(1) [OF cs True this 3(4)] show ?thesis by auto
  next
    case False
    then obtain r' where r': "rewriteLoop mint maxt fs ss = Inr r'" "r = (labels_from_map lset, cs) # r'"
      using 3(3) cs by (cases "rewriteLoop mint maxt fs ss") auto
    show ?thesis
    proof (cases "s \<in> set r'")
      case True
      from 3(2) [OF cs False r'(1) True] show ?thesis by auto
    next
      case False
      then have "s = (labels_from_map lset, cs)" using r'(2) 3(4) by simp
      then show ?thesis using cs \<open>cs \<noteq> []\<close> by auto
    qed
  qed
qed auto

lemma consecutive_sorted: "sorted_wrt P xs \<Longrightarrow> consecutive P xs"
  by (induction xs rule: induct_list012) auto

lemma seriesLoop_returns:
  assumes "\<forall>s \<in> set ss. fst s \<noteq> [] \<and> snd s \<noteq> []"
    and "sorted_wrt (\<lambda>a b. cmp a b < 0) ((case l of None \<Rightarrow> [] | Some x \<Rightarrow> [x]) @ map fst ss)"
  shows "\<exists>st'. seriesLoop cmp mint maxt l st (map Some ss) = Inr st'"
  using assms
proof (induction ss arbitrary: l st)
  case Nil
  then show ?case by simp
next
  case (Cons s ss)
  obtain lset chks where s: "s = (lset, chks)" by fastforce
  have "\<not> (case l of None \<Rightarrow> False | Some l0 \<Rightarrow> cmp l0 lset \<ge> 0)"
    using Cons.prems(2) s by (auto split: option.splits)
  moreover have "\<exists>st'. seriesLoop cmp mint maxt (Some lset) st1 (map Some ss) = Inr st'" for st1
    by (rule Cons.IH) (use Cons.prems s in \<open>auto simp: sorted_wrt_append\<close>)
  ultimately show ?case using Cons.prems(1) s by (simp add: Let_def)
qed

lemma sanitized_chunks:
  assumes "sanitizeChunkSequence chks mint maxt (repairFns crc) = Inr r" and "\<forall>c \<in> set chks. chunkMin c \<le> chunkMax c"
  shows "sorted_wrt (\<lambda>a b. chunkMax a < chunkMin b) r" and "set r \<subseteq> set chks"
proof -
  have "sanitizeLoop (repairFns crc) mint maxt None (sort_slice (\<lambda>a b. chunkMin a < chunkMin b) chks) = Inr r"
    using assms(1) by (simp add: sanitizeChunkSequence_def)
  note L = sanitizeLoop_sound [OF this]
  have wf: "\<forall>c \<in> set (sort_slice (\<lambda>a b. chunkMin a < chunkMin b) chks). chunkMin c \<le> chunkMax c"
    using assms(2) by simp
  show "sorted_wrt (\<lambda>a b. chunkMax a < chunkMin b) r" and "set r \<subseteq> set chks" using L [OF wf] by simp_all
qed

lemma rewrite_series:
  assumes "rewrite bt ix m fs = Inr (ss, m')" and "label_order (btCompare bt)"
  shows "sorted_wrt (\<lambda>a b. btCompare bt a b < 0) ([] # map fst ss)"
    and "s \<in> set ss \<Longrightarrow> snd s \<noteq> [] \<and> (\<exists>l chks. Some (l, chks) \<in> set (indexSeries ix)
          \<and> sanitizeChunkSequence chks (minTime m) (maxTime m) fs = Inr (snd s))"
proof -
  let ?cmp = "btCompare bt"
  obtain r where r: "rewriteLoop (minTime m) (maxTime m) fs (indexSeries ix) = Inr r"
    using assms(1) by (auto simp: rewrite_def split: sum.splits)
  define zs where "zs = sort_slice (\<lambda>a b. ?cmp (fst a) (fst b) < 0) (zip (btKept bt (map fst r)) (map snd r))"
  have ss: "ss = dropDuplicateSeries ?cmp [] zs"
    using assms(1) r by (auto simp: rewrite_def Let_def zs_def split: if_splits)
  have "sorted_wrt (\<lambda>a b. \<not> ?cmp (fst b) (fst a) < 0) zs"
    unfolding zs_def by (rule slice_order.sorted_sort_slice [OF slice_order_labels [OF assms(2)]])
  then have "sorted_wrt (\<lambda>a b. ?cmp (fst a) (fst b) \<le> 0) zs"
    by (rule sorted_wrt_mono_rel [rotated]) (use label_orderD(2) [OF assms(2)] in force)
  then have "sorted_wrt (\<lambda>a b. ?cmp a b \<le> 0) ([] # map fst zs)"
    using label_orderD(4) [OF assms(2)] by (simp add: sorted_wrt_map)
  then show "sorted_wrt (\<lambda>a b. ?cmp a b < 0) ([] # map fst ss)"
    unfolding ss by (rule dropDuplicateSeries_strict [OF assms(2)])
  assume "s \<in> set ss"
  then have "s \<in> set zs" using dropDuplicateSeries_subset unfolding ss by blast
  then have "(fst s, snd s) \<in> set (zip (btKept bt (map fst r)) (map snd r))" by (simp add: zs_def)
  from set_zip_rightD [OF this] have "snd s \<in> snd ` set r" by simp
  then show "snd s \<noteq> [] \<and> (\<exists>l chks. Some (l, chks) \<in> set (indexSeries ix)
          \<and> sanitizeChunkSequence chks (minTime m) (maxTime m) fs = Inr (snd s))"
    using rewriteLoop_series [OF r] by force
qed

text \<open>Every chunk of the index ends no earlier than it starts.\<close>

definition wfChunks :: "index_file \<Rightarrow> bool" where
  "wfChunks ix = list_all (\<lambda>s. case s of None \<Rightarrow> True | Some x \<Rightarrow> list_all (\<lambda>c. chunkMin c \<le> chunkMax c) (snd x))
     (indexSeries ix)"

text \<open>The label-order counter of the walk over an index.\<close>

lemma unordered_none: "countUnorderedLabels l ls = 0 \<longleftrightarrow> consecutive (\<lambda>a b. \<not> fst b < fst a) (l # ls)"
  by (induction l ls rule: countUnorderedLabels.induct) auto

lemma addChunk_labels: "OutOfOrderLabels (addChunk mint maxt c rest st) = OutOfOrderLabels st"
  by (simp add: addChunk_def Let_def)

lemma chunkLoop_labels:
  "chunkLoop mint maxt prev ooo life st cs = (ooo', life', st') \<Longrightarrow> OutOfOrderLabels st' = OutOfOrderLabels st"
proof (induction cs arbitrary: prev ooo life st)
  case (Cons c cs)
  obtain prev1 ooo1 life1 st1 where "chunkLoop mint maxt prev1 ooo1 life1 st1 cs = (ooo', life', st')"
    "OutOfOrderLabels st1 = OutOfOrderLabels st"
    using Cons.prems addChunk_labels [of mint maxt c cs st] by (auto simp: Let_def split: option.splits if_splits)
  with Cons.IH show ?case by metis
qed simp

lemma addSeries_labels:
  "OutOfOrderLabels (addSeries mint maxt (lset, chks) st) =
     OutOfOrderLabels st + countUnorderedLabels (hd lset) (tl lset)"
proof -
  define st1 where "st1 = st\<lparr>OutOfOrderLabels := OutOfOrderLabels st + countUnorderedLabels (hd lset) (tl lset)\<rparr>"
  obtain ooo life st2 where loop: "chunkLoop mint maxt None 0 0 st1 chks = (ooo, life, st2)" by (metis prod_cases3)
  from chunkLoop_labels [OF loop] show ?thesis
    using loop by (simp add: addSeries_def Let_def st1_def)
qed

lemma seriesLoop_labels:
  "seriesLoop cmp mint maxt l st (map Some ss) = Inr st' \<Longrightarrow>
     OutOfOrderLabels st' = 0 \<longleftrightarrow>
       OutOfOrderLabels st = 0 \<and> (\<forall>s \<in> set ss. consecutive (\<lambda>a b. \<not> fst b < fst a) (fst s))"
proof (induction ss arbitrary: l st)
  case (Cons s ss)
  obtain lset chks where s: "s = (lset, chks)" by fastforce
  have ne: "lset \<noteq> []"
    and rest: "seriesLoop cmp mint maxt (Some lset) (addSeries mint maxt (lset, chks) (st\<lparr>TotalSeries := TotalSeries st + 1\<rparr>))
      (map Some ss) = Inr st'"
    using Cons.prems s by (auto simp: Let_def split: if_splits)
  have "countUnorderedLabels (hd lset) (tl lset) = 0 \<longleftrightarrow> consecutive (\<lambda>a b. \<not> fst b < fst a) lset"
    using ne by (simp add: unordered_none)
  then show ?case using Cons.IH [OF rest] s by (auto simp: addSeries_labels)
qed simp

lemma rewriteLoop_labels:
  "rewriteLoop mint maxt fs ss = Inr r \<Longrightarrow> s \<in> set r \<Longrightarrow> \<exists>l. fst s = labels_from_map l"
proof (induction mint maxt fs ss arbitrary: r rule: rewriteLoop.induct)
  case (3 mint maxt fs lset chks ss)
  then obtain cs where cs: "sanitizeChunkSequence chks mint maxt fs = Inr cs" by (auto split: sum.splits)
  show ?case
  proof (cases "cs = []")
    case True
    then show ?thesis using 3(1) [OF cs True _ 3(4)] 3(3) cs by simp
  next
    case False
    then obtain r' where r': "rewriteLoop mint maxt fs ss = Inr r'" "r = (labels_from_map lset, cs) # r'"
      using 3(3) cs by (cases "rewriteLoop mint maxt fs ss") auto
    then show ?thesis using 3(2) [OF cs False r'(1)] 3(4) by auto
  qed
qed auto

interpretation by_label_name: slice_order "\<lambda>a b :: label. fst a < fst b"
  by unfold_locales auto

lemma rewrite_labels:
  assumes "rewrite bt ix m fs = Inr (ss, m')" and "\<forall>ls. btKept bt ls = ls" and "s \<in> set ss"
  shows "consecutive (\<lambda>a b. \<not> fst b < fst a) (fst s)"
proof -
  obtain r where r: "rewriteLoop (minTime m) (maxTime m) fs (indexSeries ix) = Inr r"
    using assms(1) by (auto simp: rewrite_def split: sum.splits)
  then have ss: "ss = dropDuplicateSeries (btCompare bt) []
      (sort_slice (\<lambda>a b. btCompare bt (fst a) (fst b) < 0) (zip (map fst r) (map snd r)))"
    using assms(1,2) by (auto simp: rewrite_def Let_def split: if_splits)
  have "s \<in> set (sort_slice (\<lambda>a b. btCompare bt (fst a) (fst b) < 0) (zip (map fst r) (map snd r)))"
    using assms(3) dropDuplicateSeries_subset unfolding ss by blast
  then have "s \<in> set r" by (simp add: zip_map_fst_snd)
  then obtain l where "fst s = labels_from_map l" using rewriteLoop_labels [OF r] by blast
  then show ?thesis
    using by_label_name.sorted_sort_slice [of l] by (simp add: labels_from_map_def consecutive_sorted)
qed

text \<open>
  C24: a rewritten block is fit for the index check again. When \<^verbatim>\<open>rewrite\<close> with the functions of the
  verifier succeeds on an index whose chunks end no earlier than they start, the check of the index it
  writes returns without an error, whatever the order and the duplicates of series and chunks it found.
  The critical and the issue-347 verdict then fault the index exactly when it has chunks that are
  partly outside the time range of the block, which \<^verbatim>\<open>rewrite\<close> keeps; the label-order verdict faults
  it exactly when a series was written with unordered labels, which cannot happen when the labels that
  were collected are still the ones that are written (\<open>btKept\<close> changes nothing).
\<close>

theorem rewrite_healthy:
  assumes "rewrite bt ix m (repairFns crc) = Inr (ss, m')" and ord: "label_order (btCompare bt)"
    and wf: "wfChunks ix"
  shows "\<exists>st. GatherIndexHealthStats (btCompare bt) (Some \<lparr>indexSeries = map Some ss, walkFailed = False\<rparr>)
        (minTime m) (maxTime m) = Inr st
    \<and> (\<not> CriticalErr st \<and> \<not> Issue347OutsideChunksErr st \<longleftrightarrow>
         (\<forall>s \<in> set ss. \<forall>c \<in> set (snd s). chunkInside (minTime m) (maxTime m) c))
    \<and> (PrometheusIssue5372Err st \<longleftrightarrow>
         (\<exists>s \<in> set ss. \<not> consecutive (\<lambda>a b. \<not> fst b < fst a) (fst s)))
    \<and> ((\<forall>ls. btKept bt ls = ls) \<longrightarrow> \<not> PrometheusIssue5372Err st)"
proof -
  note sorted = rewrite_series(1) [OF assms(1) ord] and series = rewrite_series(2) [OF assms(1) ord]
  have ne: "fst s \<noteq> []" if "s \<in> set ss" for s
    using sorted that label_orderD(1) [OF ord, of "[]" "[]"] by auto
  have cons: "consecutive chunkFollows (snd s)" if s: "s \<in> set ss" for s
  proof -
    obtain l chks where "Some (l, chks) \<in> set (indexSeries ix)"
      "sanitizeChunkSequence chks (minTime m) (maxTime m) (repairFns crc) = Inr (snd s)"
      using series [OF s] by blast
    then have "sorted_wrt (\<lambda>a b. chunkMax a < chunkMin b) (snd s)" using sanitized_chunks(1) wf by (fastforce simp: wfChunks_def list_all_iff)
    then have "sorted_wrt chunkFollows (snd s)"
      by (rule sorted_wrt_mono_rel [rotated]) (simp add: chunkFollows_def)
    then show ?thesis by (rule consecutive_sorted)
  qed
  obtain st where st: "seriesLoop (btCompare bt) (minTime m) (maxTime m) None emptyStats (map Some ss) = Inr st"
    using seriesLoop_returns [of ss "btCompare bt" None "minTime m" "maxTime m" emptyStats] ne series sorted by auto
  have "(\<not> CriticalErr st \<and> \<not> Issue347OutsideChunksErr st) \<longleftrightarrow> (\<forall>s \<in> set ss. sound (minTime m) (maxTime m) s)"
    using seriesLoop_healthy [OF st] healthy_iff [of st]
    by (auto simp: emptyStats_def wfStats_def badCount_def healthy_def)
  moreover have "sound (minTime m) (maxTime m) s \<longleftrightarrow> (\<forall>c \<in> set (snd s). chunkInside (minTime m) (maxTime m) c)"
    if "s \<in> set ss" for s
    using ne [OF that] series [OF that] cons [OF that] by (auto simp: sound_def list_all_iff)
  moreover have labels: "PrometheusIssue5372Err st \<longleftrightarrow>
      (\<exists>s \<in> set ss. \<not> consecutive (\<lambda>a b. \<not> fst b < fst a) (fst s))"
    using seriesLoop_labels [OF st] by (auto simp: PrometheusIssue5372Err_def emptyStats_def)
  moreover have "(\<forall>ls. btKept bt ls = ls) \<longrightarrow> \<not> PrometheusIssue5372Err st"
    using labels rewrite_labels [OF assms(1)] by blast
  moreover have "GatherIndexHealthStats (btCompare bt) (Some \<lparr>indexSeries = map Some ss, walkFailed = False\<rparr>)
      (minTime m) (maxTime m) = Inr st"
    using st by (simp add: GatherIndexHealthStats_def)
  ultimately show ?thesis by (intro exI [of _ st]) simp
qed

definition sampleTools :: block_tools where
  "sampleTools = \<lparr>btCompare = sampleCompare, btKept = id, btSamples = length,
     btWrite = (\<lambda>ss. Some (''index'', [(''000001'', ''data'')])), btReadIndex = (\<lambda>_. None)\<rparr>"

definition brokenIndex :: index_file where
  "brokenIndex = \<lparr>indexSeries =
     [Some ([(''b'', ''1'')], [mkChunk 5 9 ''b'', mkChunk 0 4 ''a'', mkChunk 5 9 ''b'', mkChunk 10 12 ''c'']),
      Some ([(''a'', ''1'')], [mkChunk 0 9 ''x'']), Some ([(''b'', ''1'')], [mkChunk 1 2 ''y''])],
     walkFailed = False\<rparr>"

theorem rewrite_healthy_witness:
  "\<exists>st. GatherIndexHealthStats sampleCompare (Some \<lparr>indexSeries = map Some
       [([(''a'', ''1'')], [mkChunk 0 9 ''x'']), ([(''b'', ''1'')], [mkChunk 0 4 ''a'', mkChunk 5 9 ''b''])],
       walkFailed = False\<rparr>) 0 10 = Inr st \<and> \<not> CriticalErr st \<and> \<not> PrometheusIssue5372Err st"
proof -
  let ?r = "rewrite sampleTools brokenIndex (rawBlock 1 0 10) (repairFns (\<lambda>_. 0))"
  have "fst (projr ?r) = [([(''a'', ''1'')], [mkChunk 0 9 ''x'']), ([(''b'', ''1'')], [mkChunk 0 4 ''a'', mkChunk 5 9 ''b''])]"
    "?r = Inr (projr ?r)" by code_simp+
  then have "?r = Inr ([([(''a'', ''1'')], [mkChunk 0 9 ''x'']), ([(''b'', ''1'')], [mkChunk 0 4 ''a'', mkChunk 5 9 ''b''])],
      snd (projr ?r))"
    by (metis prod.collapse)
  note R = rewrite_healthy [OF this]
  have ord: "label_order (btCompare sampleTools)" using sampleCompare_order by (simp add: sampleTools_def)
  have wf: "wfChunks brokenIndex" by code_simp
  from R [OF ord wf] show ?thesis
    by (auto simp: sampleTools_def mkChunk_def rawBlock_def chunkInside_def)
qed

end
