(* ===== verification/Compactor.thy ===== *)
theory Compactor
  imports Compact_Groups Block_Repair
begin

text \<open>
  The compaction of a group of blocks and the loop of the bucket compactor (\<^verbatim>\<open>pkg/compact/compact.go\<close>)
  on top of download, index check, repair, upload and deletion marks. The compactor of the Prometheus
  library, its overlap check and its index reader and writer are parameters; the local disk is taken
  to work, so that a block directory is just its contents.
\<close>

section \<open>Compacting a group\<close>

record compact_env =
  ceOverlaps :: "meta list \<Rightarrow> bool"
  ceTools :: block_tools
  ceNewId :: "ulid \<Rightarrow> ulid"
  ceCompact :: "(meta \<times> block_files) list \<Rightarrow> unit + local_block option"
  ceAcceptMalformedIndex :: bool
  ceVerticalCompaction :: bool
  ceNow :: int

definition fileIndex :: "compact_env \<Rightarrow> ulid \<Rightarrow> block_files \<Rightarrow> index_file option" where
  "fileIndex env i fs =
     (case map_of fs (indexName i) of Some (Raw d) \<Rightarrow> btReadIndex (ceTools env) d | _ \<Rightarrow> None)"

definition areBlocksOverlapping ::
  "compact_env \<Rightarrow> compact_group \<Rightarrow> meta option \<Rightarrow> meta list \<Rightarrow> bool" where
  "areBlocksOverlapping env g incl excl =
     ceOverlaps env (sort_slice (\<lambda>a b. minTime a < minTime b)
       (filter (\<lambda>m. metaULID m \<notin> metaULID ` set excl) (groupMetas g)
        @ (case incl of None \<Rightarrow> [] | Some m \<Rightarrow> [m])))"

fun addSources :: "ulid list \<Rightarrow> ulid list \<Rightarrow> ulid list option" where
  "addSources seen [] = Some seen"
| "addSources seen (s # ss) = (if s \<in> set seen then None else addSources (s # seen) ss)"

text \<open>The checks of a downloaded block.\<close>

definition checkBlock :: "compact_env \<Rightarrow> meta \<Rightarrow> block_files \<Rightarrow> go_error option" where
  "checkBlock env m fs =
     (case GatherIndexHealthStats (btCompare (ceTools env)) (fileIndex env (metaULID m) fs) (minTime m) (maxTime m) of
        Inl _ \<Rightarrow> Some (WrapErr BaseErr)
      | Inr st \<Rightarrow>
          if CriticalErr st then Some (HaltErr (WrapErr BaseErr))
          else if Issue347OutsideChunksErr st then Some (Issue347Err (WrapErr BaseErr) (metaULID m))
          else if \<not> ceAcceptMalformedIndex env \<and> PrometheusIssue5372Err st then Some (WrapErr BaseErr)
          else None)"

fun downloadPlan ::
  "compact_env \<Rightarrow> faults \<Rightarrow> ulid list \<Rightarrow> meta list \<Rightarrow> bucket
     \<Rightarrow> (go_error + (meta \<times> block_files) list) \<times> bucket" where
  "downloadPlan env flt seen [] b = (Inr [], b)"
| "downloadPlan env flt seen (m # ms) b =
     (case addSources seen (sources m) of
        None \<Rightarrow> (Inl (HaltErr BaseErr), b)
      | Some seen \<Rightarrow>
          (case Download flt (metaULID m) b of
             (Inl e, b) \<Rightarrow> (Inl (retry (WrapErr BaseErr)), b)
           | (Inr x, b) \<Rightarrow>
               (case checkBlock env m (snd x) of
                  Some e \<Rightarrow> (Inl e, b)
                | None \<Rightarrow>
                    andThen (downloadPlan env flt seen ms b) (\<lambda>xs b. (Inr ((m, snd x) # xs), b)))))"

fun markEmpty :: "faults \<Rightarrow> int \<Rightarrow> meta list \<Rightarrow> bucket \<Rightarrow> unit \<times> bucket" where
  "markEmpty flt now [] b = ((), b)"
| "markEmpty flt now (m # ms) b =
     (if numSamples m = 0 then markEmpty flt now ms (snd (MarkForDeletion flt now (metaULID m) b))
      else markEmpty flt now ms b)"

fun markCompacted :: "faults \<Rightarrow> int \<Rightarrow> meta list \<Rightarrow> bucket \<Rightarrow> (go_error + unit) \<times> bucket" where
  "markCompacted flt now [] b = (Inr (), b)"
| "markCompacted flt now (m # ms) b =
     (case MarkForDeletion flt now (metaULID m) b of
        (Inl e, b) \<Rightarrow> (Inl (retry (WrapErr BaseErr)), b)
      | (Inr _, b) \<Rightarrow> markCompacted flt now ms b)"

text \<open>\<^verbatim>\<open>InjectThanos\<close> on the directory of the compacted block.\<close>

definition InjectThanos :: "compact_group \<Rightarrow> local_block \<Rightarrow> meta \<Rightarrow> meta" where
  "InjectThanos g lb m =
     m\<lparr>thanos := \<lparr>extLabels = groupLabels g, resolution = groupResolution g, source = CompactorSource,
                  segmentFiles = (case lbChunks lb of None \<Rightarrow> [] | Some cs \<Rightarrow> map fst cs), files = []\<rparr>\<rparr>"

definition uploadCompacted ::
  "compact_env \<Rightarrow> faults \<Rightarrow> compact_group \<Rightarrow> meta list \<Rightarrow> local_block \<Rightarrow> bucket
     \<Rightarrow> (go_error + unit) \<times> bucket" where
  "uploadCompacted env flt g toCompact lb b =
     (case lbMeta lb of
        None \<Rightarrow> (Inl (WrapErr BaseErr), b)
      | Some m \<Rightarrow>
          let newMeta = InjectThanos g lb m
          in if \<not> VerifyIndex (btCompare (ceTools env)) (Option.bind (lbIndex lb) (btReadIndex (ceTools env)))
                  (minTime newMeta) (maxTime newMeta) \<and> \<not> ceAcceptMalformedIndex env
             then (Inl (HaltErr (WrapErr BaseErr)), b)
             else if \<not> ceVerticalCompaction env \<and> areBlocksOverlapping env g (Some newMeta) toCompact
             then (Inl (HaltErr (WrapErr BaseErr)), b)
             else (case upload flt True (lb\<lparr>lbMeta := Some newMeta\<rparr>) b of
                     (Inl e, b) \<Rightarrow> (Inl (retry (WrapErr BaseErr)), b)
                   | (Inr _, b) \<Rightarrow> (Inr (), b)))"

type_synonym planner = "meta list \<Rightarrow> bucket \<Rightarrow> (filter_error + meta list) \<times> bucket"

definition finishCompaction ::
  "compact_env \<Rightarrow> faults \<Rightarrow> compact_group \<Rightarrow> meta list \<Rightarrow> (meta \<times> block_files) list \<Rightarrow> bucket
     \<Rightarrow> (go_error + bool \<times> ulid option) \<times> bucket" where
  "finishCompaction env flt g toCompact dirs b =
     (case ceCompact env dirs of
        Inl _ \<Rightarrow> (Inl (HaltErr (WrapErr BaseErr)), b)
      | Inr None \<Rightarrow> (case markEmpty flt (ceNow env) toCompact b of (_, b) \<Rightarrow> (Inr (True, None), b))
      | Inr (Some lb) \<Rightarrow>
          (case uploadCompacted env flt g toCompact lb b of
             (Inl e, b) \<Rightarrow> (Inl e, b)
           | (Inr _, b) \<Rightarrow>
               (case markCompacted flt (ceNow env) toCompact b of
                  (Inl e, b) \<Rightarrow> (Inl e, b)
                | (Inr _, b) \<Rightarrow> (Inr (True, lbId lb), b))))"

definition compactPlanned ::
  "compact_env \<Rightarrow> faults \<Rightarrow> compact_group \<Rightarrow> meta list \<Rightarrow> bucket \<Rightarrow> (go_error + bool \<times> ulid option) \<times> bucket" where
  "compactPlanned env flt g toCompact b =
     (if toCompact = [] then (Inr (False, None), b)
      else case downloadPlan env flt [] toCompact b of
             (Inl e, b) \<Rightarrow> (Inl e, b)
           | (Inr dirs, b) \<Rightarrow> finishCompaction env flt g toCompact dirs b)"

definition compactGroup ::
  "compact_env \<Rightarrow> faults \<Rightarrow> planner \<Rightarrow> compact_group \<Rightarrow> bucket \<Rightarrow> (go_error + bool \<times> ulid option) \<times> bucket" where
  "compactGroup env flt planFn g b =
     (if areBlocksOverlapping env g None [] \<and> \<not> ceVerticalCompaction env
      then (Inl (HaltErr (WrapErr BaseErr)), b)
      else case planFn (groupMetas g) b of
             (Inl e, b) \<Rightarrow> (Inl (WrapErr BaseErr), b)
           | (Inr toCompact, b) \<Rightarrow> compactPlanned env flt g toCompact b)"

section \<open>Repair and the bucket loop\<close>

definition RepairIssue347 :: "compact_env \<Rightarrow> faults \<Rightarrow> go_error \<Rightarrow> bucket \<Rightarrow> (go_error + unit) \<times> bucket" where
  "RepairIssue347 env flt err b =
     (case errorCause err of
        Issue347Err _ i \<Rightarrow>
          (case Download flt i b of
             (Inl e, b) \<Rightarrow> (Inl (retry (WrapErr BaseErr)), b)
           | (Inr (m, fs), b) \<Rightarrow>
               (case Repair (ceTools env) (ceNewId env i) CompactorRepairSource [IgnoreIssue347OutsideChunk]
                       (m, fileIndex env i fs) of
                  Inl _ \<Rightarrow> (Inl (WrapErr BaseErr), b)
                | Inr lb \<Rightarrow>
                    if \<not> VerifyIndex (btCompare (ceTools env)) (Option.bind (lbIndex lb) (btReadIndex (ceTools env)))
                          (minTime m) (maxTime m)
                    then (Inl (WrapErr BaseErr), b)
                    else (case upload flt True lb b of
                            (Inl e, b) \<Rightarrow> (Inl (retry (WrapErr BaseErr)), b)
                          | (Inr _, b) \<Rightarrow>
                              (case MarkForDeletion flt (ceNow env) i b of
                                 (Inl e, b) \<Rightarrow> (Inl (WrapErr BaseErr), b)
                               | (Inr _, b) \<Rightarrow> (Inr (), b)))))
      | _ \<Rightarrow> (Inl BaseErr, b))"

text \<open>
  One worker going through the groups: it stops at the first error that a repair does not resolve. The
  result says whether some group asks for another round.
\<close>

fun compactGroups ::
  "compact_env \<Rightarrow> faults \<Rightarrow> planner \<Rightarrow> bool \<Rightarrow> compact_group list \<Rightarrow> bucket \<Rightarrow> (go_error + bool) \<times> bucket" where
  "compactGroups env flt planFn rerun [] b = (Inr rerun, b)"
| "compactGroups env flt planFn rerun (g # gs) b =
     (case compactGroup env flt planFn g b of
        (Inr (again, _), b) \<Rightarrow> compactGroups env flt planFn (rerun \<or> again) gs b
      | (Inl e, b) \<Rightarrow>
          if IsIssue347Error e
          then (case RepairIssue347 env flt e b of
                  (Inr _, b) \<Rightarrow> compactGroups env flt planFn True gs b
                | (Inl _, b) \<Rightarrow> (Inl (MultiErr (multiAdd [] (WrapErr e))), b))
          else (Inl (MultiErr (multiAdd [] (WrapErr e))), b))"

definition compactPass ::
  "compact_env \<Rightarrow> sync_conf \<Rightarrow> (labels \<Rightarrow> 64 word) \<Rightarrow> faults \<Rightarrow> (syncer \<Rightarrow> planner) \<Rightarrow> syncer
     \<Rightarrow> base_fetcher \<times> bucket \<Rightarrow> (go_error + bool) \<times> syncer \<times> base_fetcher \<times> bucket" where
  "compactPass env conf hash flt planOf sy st =
     (case SyncMetas flt conf sy st of
        (Inl e, f, b) \<Rightarrow> (Inl (WrapErr e), sy, f, b)
      | (Inr sy, f, b) \<Rightarrow>
          (case GarbageCollect flt (ceNow env) sy b of
             ((Some e, sy), b) \<Rightarrow> (Inl (WrapErr e), sy, f, b)
           | ((None, sy), b) \<Rightarrow>
               (case Groups hash (syBlocks sy) of
                  Inl _ \<Rightarrow> (Inl (WrapErr BaseErr), sy, f, b)
                | Inr gs \<Rightarrow>
                    (case compactGroups env flt (planOf sy) False gs b of (r, b) \<Rightarrow> (r, sy, f, b)))))"

text \<open>The loop runs until a pass has nothing left to do; \<open>None\<close> means that the given number of passes was not enough.\<close>

fun bucketCompact ::
  "nat \<Rightarrow> compact_env \<Rightarrow> sync_conf \<Rightarrow> (labels \<Rightarrow> 64 word) \<Rightarrow> faults \<Rightarrow> (syncer \<Rightarrow> planner) \<Rightarrow> syncer
     \<Rightarrow> base_fetcher \<times> bucket \<Rightarrow> (go_error option \<times> syncer \<times> base_fetcher \<times> bucket) option" where
  "bucketCompact 0 env conf hash flt planOf sy st = None"
| "bucketCompact (Suc k) env conf hash flt planOf sy st =
     (case compactPass env conf hash flt planOf sy st of
        (Inl e, r) \<Rightarrow> Some (Some e, r)
      | (Inr rerun, sy, st) \<Rightarrow>
          if rerun then bucketCompact k env conf hash flt planOf sy st else Some (None, sy, st))"

definition sampleEnv :: compact_env where
  "sampleEnv = \<lparr>ceOverlaps = (\<lambda>_. False), ceTools = sampleTools\<lparr>btReadIndex := (\<lambda>d.
       if d = ''i'' then Some \<lparr>indexSeries = [Some ([(''a'', ''1'')], [mkChunk 0 9 ''x''])], walkFailed = False\<rparr> else None)\<rparr>,
     ceNewId = (\<lambda>i. i + 100),
     ceCompact = (\<lambda>_. Inr (Some (sampleLocal\<lparr>lbIndex := Some ''i''\<rparr>))),
     ceAcceptMalformedIndex = False, ceVerticalCompaction = True, ceNow = 100\<rparr>"

definition groupBucket :: bucket where
  "groupBucket = \<lparr>objects = [(metaName 1, MetaJSON (rawBlock 1 0 20)), (indexName 1, Raw ''i''),
      (metaName 2, MetaJSON (rawBlock 2 0 20)), (indexName 2, Raw ''i'')], opcount = 0, trace = []\<rparr>"

definition sampleGroup :: compact_group where
  "sampleGroup = \<lparr>groupKey = ''k'', groupLabels = [(''cluster'', ''a'')], groupResolution = 0,
     groupMetas = [rawBlock 1 0 20, rawBlock 2 0 20]\<rparr>"

definition sampleRun :: "(go_error + bool \<times> ulid option) \<times> bucket" where
  "sampleRun = compactGroup sampleEnv (\<lambda>_. NoFault) (Plan (\<lambda>_. NoFault) rawSize 1000 [20, 60] (\<lambda>_. None)) sampleGroup groupBucket"

section \<open>The planner a group relies on\<close>

text \<open>
  What compaction relies on about a planner: it plans blocks of the group, and it changes nothing in the
  bucket but no-compact marks.
\<close>

locale compaction_planner =
  fixes planFn :: planner
  assumes plan_runs: "runs (sameButMarks o0) (\<lambda>_. True) (planFn ms) (\<lambda>r _. \<forall>x. r = Inr x \<longrightarrow> set x \<subseteq> set ms)"

lemma runs_embed:
  assumes "runs K P f Q" and "\<And>c. K c \<Longrightarrow> I c" and "\<And>c. I c \<Longrightarrow> P' c \<Longrightarrow> K c \<and> P c"
  shows "runs I P' f (\<lambda>r c. K c \<and> Q r c)"
  unfolding runs_def
proof (intro allI impI)
  fix b :: bucket
  assume "I (objects b) \<and> P' (objects b)"
  then have "K (objects b)" "P (objects b)" using assms(3) by blast+
  from runsD [OF assms(1) this] show "I (objects (snd (f b)))
      \<and> (K (objects (snd (f b))) \<and> Q (fst (f b)) (objects (snd (f b))))
      \<and> (\<exists>new. trace (snd (f b)) = new @ trace b \<and> (\<forall>c \<in> set new. I c))"
    using assms(2) by blast
qed

text \<open>An operation whose invariant refers to the contents it starts from.\<close>

lemma runs_from:
  assumes "\<And>o1. A o1 \<Longrightarrow> K o1 o1" and "\<And>o1. A o1 \<Longrightarrow> runs (K o1) (\<lambda>c. c = o1) f (Q o1)"
    and "\<And>o1 c. A o1 \<Longrightarrow> K o1 c \<Longrightarrow> I c"
  shows "runs I A f (\<lambda>r c. \<exists>o1. A o1 \<and> K o1 c \<and> Q o1 r c)"
  unfolding runs_def
proof (intro allI impI)
  fix b :: bucket
  assume "I (objects b) \<and> A (objects b)"
  then have A: "A (objects b)" by simp
  from runsD [OF assms(2) [OF A] assms(1) [OF A] refl]
  show "I (objects (snd (f b)))
      \<and> (\<exists>o1. A o1 \<and> K o1 (objects (snd (f b))) \<and> Q o1 (fst (f b)) (objects (snd (f b))))
      \<and> (\<exists>new. trace (snd (f b)) = new @ trace b \<and> (\<forall>c \<in> set new. I c))"
    using A assms(3) [OF A] by blast
qed

lemma readonly_planIndexSize: "readonly (planIndexSize flt sz m)"
  using readonly_ops(4) [of flt sz "indexName (metaULID m)"] by (simp add: readonly_def planIndexSize_def)

lemma readonly_scanPlan: "readonly (scanPlan flt sz limit biggest maxSize tot ps)"
proof (induction ps arbitrary: biggest maxSize tot)
  case Nil
  then show ?case by (simp add: readonly_def)
next
  case (Cons p ps)
  have "readonly (\<lambda>b. andThen (planIndexSize flt sz p b) (\<lambda>indexSize b.
       let biggest' = (if maxSize < indexSize then p else biggest);
           maxSize' = (if maxSize < indexSize then indexSize else maxSize);
           tot' = i64 (tot + indexSize)
       in if tot' \<ge> headroomLimit limit then (Inr (Some biggest'), b)
          else scanPlan flt sz limit biggest' maxSize' tot' ps b))"
  proof (rule readonly_andThen [OF readonly_planIndexSize])
    fix s
    show "readonly (\<lambda>b. let biggest' = (if maxSize < s then p else biggest);
           maxSize' = (if maxSize < s then s else maxSize); tot' = i64 (tot + s)
       in if tot' \<ge> headroomLimit limit then (Inr (Some biggest'), b)
          else scanPlan flt sz limit biggest' maxSize' tot' ps b)"
      using Cons.IH by (cases "i64 (tot + s) \<ge> headroomLimit limit") (simp_all add: Let_def readonly_return)
  qed
  then show ?case by simp
qed

lemma filteredPlan_runs:
  "runs (sameButMarks o0) (\<lambda>_. True) (filteredPlan k flt sz limit ranges marked ms)
     (\<lambda>r _. \<forall>x. r = Inr x \<longrightarrow> set x \<subseteq> set ms)"
proof (induction k arbitrary: marked)
  case 0
  then show ?case by (simp add: runs_def)
next
  case (Suc k)
  let ?Q = "\<lambda>(r :: filter_error + meta list) (c :: contents). \<forall>x. r = Inr x \<longrightarrow> set x \<subseteq> set ms"
  consider e where "plan ranges marked ms = Inl e" | "plan ranges marked ms = Inr []"
    | p ps where "plan ranges marked ms = Inr (p # ps)" by (metis list.exhaust sum.exhaust)
  then show ?case
  proof cases
    case (3 p ps)
    then have sub: "set (p # ps) \<subseteq> set ms" using plan_unmarked by blast
    have mark: "runs (sameButMarks o0) (\<lambda>_. True) (MarkForNoCompact flt (metaULID m)) (\<lambda>_ _. True)" for m :: meta
      by (rule runs_conseq [OF runs_MarkForNoCompact [folded sameButMarks_def]]) simp_all
    have next_round: "runs (sameButMarks o0) (\<lambda>_. True)
        (\<lambda>b. case MarkForNoCompact flt (metaULID m) b of
            (Inl e, b) \<Rightarrow> (Inl (MarkFailed e), b)
          | (Inr _, b) \<Rightarrow> filteredPlan k flt sz limit ranges
              (marked(metaULID m \<mapsto> \<lparr>ncID = metaULID m, ncVersion = 1\<rparr>)) ms b) ?Q" for m :: meta
      by (rule runs_case [OF mark]) (auto intro: runs_return Suc)
    have "runs (sameButMarks o0) (\<lambda>_. True)
        (\<lambda>b. case scanPlan flt sz limit p MinInt64 0 (p # ps) b of
            (Inl e, b) \<Rightarrow> (Inl (AttrFailed e), b)
          | (Inr r, b) \<Rightarrow> (case r of None \<Rightarrow> (Inr (p # ps), b) | Some m \<Rightarrow>
               (case MarkForNoCompact flt (metaULID m) b of
                  (Inl e, b) \<Rightarrow> (Inl (MarkFailed e), b)
                | (Inr _, b) \<Rightarrow> filteredPlan k flt sz limit ranges
                    (marked(metaULID m \<mapsto> \<lparr>ncID = metaULID m, ncVersion = 1\<rparr>)) ms b))) ?Q"
    proof (rule runs_case [OF readonly_runs [OF readonly_scanPlan, where P = "\<lambda>_. True"]])
      fix r :: "meta option"
      show "runs (sameButMarks o0) (\<lambda>_. True) (\<lambda>b. case r of None \<Rightarrow> (Inr (p # ps), b) | Some m \<Rightarrow>
               (case MarkForNoCompact flt (metaULID m) b of
                  (Inl e, b) \<Rightarrow> (Inl (MarkFailed e), b)
                | (Inr _, b) \<Rightarrow> filteredPlan k flt sz limit ranges
                    (marked(metaULID m \<mapsto> \<lparr>ncID = metaULID m, ncVersion = 1\<rparr>)) ms b)) ?Q"
        using next_round sub by (cases r) (auto intro!: runs_return)
    qed (auto intro!: runs_return)
    moreover have "filteredPlan (Suc k) flt sz limit ranges marked ms =
        (\<lambda>b. case scanPlan flt sz limit p MinInt64 0 (p # ps) b of
            (Inl e, b) \<Rightarrow> (Inl (AttrFailed e), b)
          | (Inr r, b) \<Rightarrow> (case r of None \<Rightarrow> (Inr (p # ps), b) | Some m \<Rightarrow>
               (case MarkForNoCompact flt (metaULID m) b of
                  (Inl e, b) \<Rightarrow> (Inl (MarkFailed e), b)
                | (Inr _, b) \<Rightarrow> filteredPlan k flt sz limit ranges
                    (marked(metaULID m \<mapsto> \<lparr>ncID = metaULID m, ncVersion = 1\<rparr>)) ms b)))"
      using 3 by (auto simp: fun_eq_iff simp del: scanPlan.simps split: prod.splits sum.splits option.splits)
    ultimately show ?thesis by simp
  qed (auto simp: runs_def)
qed

interpretation sized: compaction_planner "Plan flt sz limit ranges marked" for flt sz limit ranges marked
proof
  fix o0 ms
  show "runs (sameButMarks o0) (\<lambda>_. True) (Plan flt sz limit ranges marked ms)
      (\<lambda>r _. \<forall>x. r = Inr x \<longrightarrow> set x \<subseteq> set ms)"
    using filteredPlan_runs unfolding Plan_def .
qed

section \<open>What compaction leaves behind\<close>

text \<open>
  A block the library compactor produced is completely in the bucket: its \<^verbatim>\<open>meta.json\<close>, its index and all
  its chunk files.
\<close>

definition compactedOut :: "compact_env \<Rightarrow> contents \<Rightarrow> bool" where
  "compactedOut env c \<longleftrightarrow>
     (\<exists>dirs lb j cs ix. ceCompact env dirs = Inr (Some lb) \<and> lbId lb = Some j
        \<and> lbChunks lb = Some cs \<and> lbIndex lb = Some ix \<and> has_object c (metaName j) \<and> completeBlock j cs ix c)"

definition compactInv :: "compact_env \<Rightarrow> meta list \<Rightarrow> contents \<Rightarrow> contents \<Rightarrow> bool" where
  "compactInv env ms o0 c \<longleftrightarrow>
     (\<forall>i. has_object c (deletionMarkName i) \<longrightarrow> \<not> has_object o0 (deletionMarkName i) \<longrightarrow>
        i \<in> metaULID ` set ms \<and> compactedOut env c \<or> (\<exists>m \<in> set ms. metaULID m = i \<and> numSamples m = 0))"

text \<open>What the library promises: a compacted block has a new ULID, an index and distinct segment files.\<close>

definition freshBlocks :: "compact_env \<Rightarrow> contents \<Rightarrow> bool" where
  "freshBlocks env o0 \<longleftrightarrow>
     (\<forall>dirs lb. ceCompact env dirs = Inr (Some lb) \<longrightarrow>
        (\<exists>j cs ix. lbId lb = Some j \<and> lbChunks lb = Some cs \<and> lbIndex lb = Some ix
           \<and> distinct (map fst cs) \<and> \<not> has_object o0 (metaName j)))"

lemma sameButMarks_has:
  "sameButMarks o0 c \<Longrightarrow> has_object c (deletionMarkName i) \<longleftrightarrow> has_object o0 (deletionMarkName i)"
  "sameButMarks o0 c \<Longrightarrow> has_object c (metaName i) \<longleftrightarrow> has_object o0 (metaName i)"
  by (auto simp: sameButMarks_def has_object_def block_names file_names)

lemma compactInv_same: "sameButMarks o0 c \<Longrightarrow> compactInv env ms o0 c"
  by (simp add: compactInv_def sameButMarks_has)

lemma readonly_Download: "readonly (Download flt i)"
proof -
  have inner: "readonly (\<lambda>b. case downloadDir (Suc (max_depth (objects b))) flt (\<lambda>n. n = metaName i) [Id i] b of
          (Inl e, b) \<Rightarrow> (Inl (DownloadBucket e), b) | (Inr fs, b) \<Rightarrow> (Inr (m, fs), b))" for m
  proof -
    have "readonly (\<lambda>b. downloadDir (Suc (max_depth (objects b))) flt (\<lambda>n. n = metaName i) [Id i] b)"
      using readonly_downloadDir by (simp add: readonly_def del: downloadDir.simps)
    then show ?thesis by (rule readonly_case) (auto intro: readonly_return)
  qed
  have "readonly (\<lambda>b. case DownloadFile flt (metaName i) b of
        (Inl e, b) \<Rightarrow> (Inl (DownloadBucket e), b)
      | (Inr x, b) \<Rightarrow> (case x of (_, MetaJSON m) \<Rightarrow>
          if metaVersion m \<noteq> 1 then (Inl DownloadMeta, b)
          else (case downloadDir (Suc (max_depth (objects b))) flt (\<lambda>n. n = metaName i) [Id i] b of
                  (Inl e, b) \<Rightarrow> (Inl (DownloadBucket e), b) | (Inr fs, b) \<Rightarrow> (Inr (m, fs), b))
        | _ \<Rightarrow> (Inl DownloadMeta, b)))"
  proof (rule readonly_case [OF readonly_DownloadFile])
    fix x :: "obj_name \<times> object"
    obtain n y where x: "x = (n, y)" by fastforce
    show "readonly (\<lambda>b. case x of (_, MetaJSON m) \<Rightarrow>
          if metaVersion m \<noteq> 1 then (Inl DownloadMeta, b)
          else (case downloadDir (Suc (max_depth (objects b))) flt (\<lambda>n. n = metaName i) [Id i] b of
                  (Inl e, b) \<Rightarrow> (Inl (DownloadBucket e), b) | (Inr fs, b) \<Rightarrow> (Inr (m, fs), b))
        | _ \<Rightarrow> (Inl DownloadMeta, b))"
    proof (cases y)
      case (MetaJSON m)
      then show ?thesis using inner [of m] x by (cases "metaVersion m = 1") (simp_all add: readonly_return del: downloadDir.simps)
    qed (simp_all add: x readonly_return)
  qed (rule readonly_return)
  moreover have "Download flt i = (\<lambda>b. case DownloadFile flt (metaName i) b of
        (Inl e, b) \<Rightarrow> (Inl (DownloadBucket e), b)
      | (Inr x, b) \<Rightarrow> (case x of (_, MetaJSON m) \<Rightarrow>
          if metaVersion m \<noteq> 1 then (Inl DownloadMeta, b)
          else (case downloadDir (Suc (max_depth (objects b))) flt (\<lambda>n. n = metaName i) [Id i] b of
                  (Inl e, b) \<Rightarrow> (Inl (DownloadBucket e), b) | (Inr fs, b) \<Rightarrow> (Inr (m, fs), b))
        | _ \<Rightarrow> (Inl DownloadMeta, b)))"
    by (auto simp: fun_eq_iff Download_def simp del: downloadDir.simps split: prod.splits sum.splits object.splits)
  ultimately show ?thesis by simp
qed

lemma readonly_downloadPlan: "readonly (downloadPlan env flt seen ms)"
proof (induction ms arbitrary: seen)
  case Nil
  then show ?case by (simp add: readonly_def)
next
  case (Cons m ms)
  show ?case
  proof (cases "addSources seen (sources m)")
    case None
    then show ?thesis by (simp add: readonly_def)
  next
    case (Some seen')
    have "readonly (\<lambda>b. case Download flt (metaULID m) b of
             (Inl e, b) \<Rightarrow> (Inl (retry (WrapErr BaseErr)), b)
           | (Inr x, b) \<Rightarrow>
               (case checkBlock env m (snd x) of
                  Some e \<Rightarrow> (Inl e, b)
                | None \<Rightarrow>
                    andThen (downloadPlan env flt seen' ms b) (\<lambda>xs b. (Inr ((m, snd x) # xs), b))))"
    proof (rule readonly_case [OF readonly_Download])
      fix x :: "meta \<times> block_files"
      have "readonly (\<lambda>b. andThen (downloadPlan env flt seen' ms b) (\<lambda>xs b. (Inr ((m, snd x) # xs), b)))"
        by (rule readonly_andThen [OF Cons.IH]) (rule readonly_return)
      then show "readonly (\<lambda>b. case checkBlock env m (snd x) of Some e \<Rightarrow> (Inl e, b)
          | None \<Rightarrow> andThen (downloadPlan env flt seen' ms b) (\<lambda>xs b. (Inr ((m, snd x) # xs), b)))"
        by (cases "checkBlock env m (snd x)") (simp_all add: readonly_return)
    qed (rule readonly_return)
    then show ?thesis using Some by simp
  qed
qed

lemma runs_markEmpty:
  "{i. \<exists>m \<in> set ms. metaULID m = i \<and> numSamples m = 0} \<subseteq> S \<Longrightarrow>
     runs (marksOnly S o0) (\<lambda>_. True) (markEmpty flt now ms) (\<lambda>_ _. True)"
proof (induction ms)
  case Nil
  then show ?case by (simp add: runs_def)
next
  case (Cons m ms)
  then have IH: "runs (marksOnly S o0) (\<lambda>_. True) (markEmpty flt now ms) (\<lambda>_ _. True)" by auto
  show ?case
  proof (cases "numSamples m = 0")
    case True
    then have "metaULID m \<in> S" using Cons.prems by auto
    from runs_MarkForDeletion [OF this, where D = "{}"]
    have "runs (marksOnly S o0) (\<lambda>_. True) (MarkForDeletion flt now (metaULID m)) (\<lambda>_ _. True)"
      by (rule runs_conseq) auto
    from runs_case [OF this IH IH]
    have "runs (marksOnly S o0) (\<lambda>_. True) (\<lambda>b. case MarkForDeletion flt now (metaULID m) b of
        (Inl e, b) \<Rightarrow> markEmpty flt now ms b | (Inr x, b) \<Rightarrow> markEmpty flt now ms b) (\<lambda>_ _. True)" .
    moreover have "markEmpty flt now (m # ms) = (\<lambda>b. case MarkForDeletion flt now (metaULID m) b of
        (Inl e, b) \<Rightarrow> markEmpty flt now ms b | (Inr x, b) \<Rightarrow> markEmpty flt now ms b)"
      using True by (auto simp: fun_eq_iff split: prod.splits sum.splits)
    ultimately show ?thesis by simp
  next
    case False
    then show ?thesis using IH by (simp add: runs_def)
  qed
qed

lemma runs_markCompacted:
  "metaULID ` set ms \<subseteq> S \<Longrightarrow> runs (marksOnly S o0) (\<lambda>c. \<forall>j \<in> D. has_object c (deletionMarkName j)) (markCompacted flt now ms)
     (\<lambda>r c. r = Inr () \<longrightarrow> (\<forall>j \<in> D \<union> metaULID ` set ms. has_object c (deletionMarkName j)))"
proof (induction ms arbitrary: D)
  case Nil
  then show ?case by (auto simp: runs_def)
next
  case (Cons m ms)
  let ?P = "\<lambda>D c. \<forall>j \<in> D. has_object c (deletionMarkName j)"
  have mark: "runs (marksOnly S o0) (?P D) (MarkForDeletion flt now (metaULID m))
     (\<lambda>r c. ?P D c \<and> ((\<exists>x. r = Inr x) \<longrightarrow> has_object c (deletionMarkName (metaULID m))))"
    using Cons.prems by (intro runs_MarkForDeletion) auto
  have rest: "runs (marksOnly S o0) (?P (insert (metaULID m) D)) (markCompacted flt now ms)
     (\<lambda>r c. r = Inr () \<longrightarrow> (\<forall>j \<in> insert (metaULID m) D \<union> metaULID ` set ms. has_object c (deletionMarkName j)))"
    using Cons.prems by (intro Cons.IH) auto
  have "runs (marksOnly S o0) (?P D) (\<lambda>b. case MarkForDeletion flt now (metaULID m) b of
        (Inl e, b) \<Rightarrow> (Inl (retry (WrapErr BaseErr)), b) | (Inr _, b) \<Rightarrow> markCompacted flt now ms b)
     (\<lambda>r c. r = Inr () \<longrightarrow> (\<forall>j \<in> D \<union> metaULID ` set (m # ms). has_object c (deletionMarkName j)))"
    by (rule runs_case [OF mark]) (auto intro!: runs_return runs_conseq [OF rest])
  then show ?case by simp
qed

lemma runs_uploadCompacted:
  assumes "lbId lb = Some j" and "lbChunks lb = Some cs" and "lbIndex lb = Some ix"
    and "distinct (map fst cs)" and "\<not> has_object o1 (metaName j)"
  shows "runs (uploadInv j cs ix o1) (\<lambda>c. c = o1) (uploadCompacted env flt g ms lb)
     (\<lambda>r c. r = Inr () \<longrightarrow> has_object c (metaName j))"
proof -
  let ?I = "uploadInv j cs ix o1" and ?Q = "\<lambda>(r :: go_error + unit) c. r = Inr () \<longrightarrow> has_object c (metaName j)"
  have up: "runs ?I (\<lambda>c. c = o1) (upload flt True (lb\<lparr>lbMeta := Some nm\<rparr>)) (\<lambda>r c. r = Inr () \<longrightarrow> has_object c (metaName j))" for nm
  proof -
    have "runs ?I (noMeta j) (uploadObjects flt j m cs ix) (\<lambda>r c. r = Inr () \<longrightarrow> has_object c (metaName j))" for m
      by (rule runs_conseq [OF runs_uploadObjects [OF assms(4)]]) (auto simp: has_object_def)
    then have objs: "runs ?I (\<lambda>c. c = o1) (uploadObjects flt j m cs ix) (\<lambda>r c. r = Inr () \<longrightarrow> has_object c (metaName j))" for m
      by (rule runs_conseq) (use assms(5) in \<open>auto simp: noMeta_def\<close>)
    show ?thesis
      unfolding upload_def using assms(1-3)
      by (cases "lbIsDir lb"; cases "extLabels (thanos nm) = []") (auto simp: gatherFileStats_def intro!: objs runs_return)
  qed
  show ?thesis
  proof (cases "lbMeta lb")
    case None
    then show ?thesis by (auto simp: uploadCompacted_def runs_def)
  next
    case (Some m)
    let ?nm = "InjectThanos g lb m"
    have "runs ?I (\<lambda>c. c = o1) (\<lambda>b. case upload flt True (lb\<lparr>lbMeta := Some ?nm\<rparr>) b of
        (Inl e, b) \<Rightarrow> (Inl (retry (WrapErr BaseErr)), b) | (Inr _, b) \<Rightarrow> (Inr (), b)) ?Q"
      by (rule runs_case [OF up]) (auto intro!: runs_return)
    then show ?thesis
      unfolding uploadCompacted_def Some option.case Let_def
      by (intro runs_if) (auto intro!: runs_return)
  qed
qed

lemma compactedOut_marks: "marksOnly S o2 c \<Longrightarrow> compactedOut env o2 \<Longrightarrow> compactedOut env c"
proof -
  assume m: "marksOnly S o2 c" and "compactedOut env o2"
  then obtain dirs lb j cs ix where *: "ceCompact env dirs = Inr (Some lb)" "lbId lb = Some j"
    "lbChunks lb = Some cs" "lbIndex lb = Some ix" "has_object o2 (metaName j)" "completeBlock j cs ix o2"
    unfolding compactedOut_def by blast
  have "map_of c (metaName j) = map_of o2 (metaName j)" "map_of c (indexName j) = map_of o2 (indexName j)"
    "\<And>f. map_of c (chunkName j f) = map_of o2 (chunkName j f)"
    using m by (auto intro!: marksOnly_same)
  then have "has_object c (metaName j)" "completeBlock j cs ix c"
    using *(5,6) by (simp_all add: has_object_def completeBlock_def)
  with * show "compactedOut env c" unfolding compactedOut_def by blast
qed

context compaction_planner
begin

lemma runs_plan:
  "runs (compactInv env (groupMetas g) o0) (\<lambda>c. c = o0) (planFn (groupMetas g))
     (\<lambda>r c. sameButMarks o0 c \<and> (\<forall>x. r = Inr x \<longrightarrow> set x \<subseteq> set (groupMetas g)))"
  by (rule runs_embed [OF plan_runs compactInv_same]) (auto simp: sameButMarks_def)

lemma runs_emptied:
  assumes "set toCompact \<subseteq> set ms"
  shows "runs (compactInv env ms o0) (sameButMarks o0) (markEmpty flt now toCompact) (\<lambda>_ _. True)"
proof -
  let ?S = "{i. \<exists>m \<in> set toCompact. metaULID m = i \<and> numSamples m = 0}"
  have "runs (compactInv env ms o0) (sameButMarks o0) (markEmpty flt now toCompact)
      (\<lambda>r c. \<exists>o1. sameButMarks o0 o1 \<and> marksOnly ?S o1 c \<and> True)"
  proof (rule runs_from)
    fix o1 c
    assume o1: "sameButMarks o0 o1"
    show "marksOnly ?S o1 o1" by (rule marksOnly_refl)
    show "runs (marksOnly ?S o1) (\<lambda>c. c = o1) (markEmpty flt now toCompact) (\<lambda>_ _. True)"
      by (rule runs_conseq [OF runs_markEmpty [of toCompact ?S]]) auto
    assume c: "marksOnly ?S o1 c"
    show "compactInv env ms o0 c"
      unfolding compactInv_def
    proof (intro allI impI)
      fix i
      assume "has_object c (deletionMarkName i)" "\<not> has_object o0 (deletionMarkName i)"
      then have "i \<in> ?S" using marksOnly_new [OF c] sameButMarks_has(1) [OF o1] by blast
      then show "i \<in> metaULID ` set ms \<and> compactedOut env c \<or> (\<exists>m \<in> set ms. metaULID m = i \<and> numSamples m = 0)"
        using assms by auto
    qed
  qed
  then show ?thesis by (rule runs_conseq) auto
qed

lemma runs_uploaded:
  assumes "freshBlocks env o0" and "ceCompact env dirs = Inr (Some lb)"
  shows "runs (compactInv env ms o0) (sameButMarks o0) (uploadCompacted env flt g toCompact lb)
     (\<lambda>r c. r = Inr () \<longrightarrow> compactedOut env c \<and> (\<forall>i. has_object c (deletionMarkName i) \<longrightarrow> has_object o0 (deletionMarkName i)))"
proof -
  obtain j cs ix where lb: "lbId lb = Some j" "lbChunks lb = Some cs" "lbIndex lb = Some ix"
    "distinct (map fst cs)" and fresh: "\<not> has_object o0 (metaName j)"
    using assms unfolding freshBlocks_def by blast
  have inv: "compactInv env ms o0 c" and marks: "\<And>i. has_object c (deletionMarkName i) \<Longrightarrow> has_object o0 (deletionMarkName i)"
    if "sameButMarks o0 o1" "uploadInv j cs ix o1 c" for o1 c
    using that sameButMarks_has(1) by (auto simp: uploadInv_def compactInv_def)
  have "runs (compactInv env ms o0) (sameButMarks o0) (uploadCompacted env flt g toCompact lb)
      (\<lambda>r c. \<exists>o1. sameButMarks o0 o1 \<and> uploadInv j cs ix o1 c \<and> (r = Inr () \<longrightarrow> has_object c (metaName j)))"
  proof (rule runs_from)
    fix o1 c
    assume o1: "sameButMarks o0 o1"
    then have nm: "\<not> has_object o1 (metaName j)" using fresh sameButMarks_has(2) by blast
    then show "uploadInv j cs ix o1 o1" by (simp add: uploadInv_def)
    show "runs (uploadInv j cs ix o1) (\<lambda>c. c = o1) (uploadCompacted env flt g toCompact lb)
        (\<lambda>r c. r = Inr () \<longrightarrow> has_object c (metaName j))"
      by (rule runs_uploadCompacted [OF lb nm])
    show "uploadInv j cs ix o1 c \<Longrightarrow> compactInv env ms o0 c" by (rule inv [OF o1])
  qed
  then show ?thesis
  proof (rule runs_conseq)
    fix r c
    assume "\<exists>o1. sameButMarks o0 o1 \<and> uploadInv j cs ix o1 c \<and> (r = Inr () \<longrightarrow> has_object c (metaName j))"
    then obtain o1 where "sameButMarks o0 o1" "uploadInv j cs ix o1 c" "r = Inr () \<longrightarrow> has_object c (metaName j)"
      by blast
    then show "r = Inr () \<longrightarrow> compactedOut env c \<and> (\<forall>i. has_object c (deletionMarkName i) \<longrightarrow> has_object o0 (deletionMarkName i))"
      using marks assms(2) lb unfolding compactedOut_def uploadInv_def by blast
  qed simp
qed

lemma runs_marked:
  assumes "set toCompact \<subseteq> set ms"
  shows "runs (compactInv env ms o0)
     (\<lambda>c. compactedOut env c \<and> (\<forall>i. has_object c (deletionMarkName i) \<longrightarrow> has_object o0 (deletionMarkName i)))
     (markCompacted flt now toCompact)
     (\<lambda>r c. r = Inr () \<longrightarrow> compactedOut env c \<and> (\<forall>m \<in> set toCompact. has_object c (deletionMarkName (metaULID m))))"
proof -
  let ?S = "metaULID ` set toCompact"
  let ?A = "\<lambda>c. compactedOut env c \<and> (\<forall>i. has_object c (deletionMarkName i) \<longrightarrow> has_object o0 (deletionMarkName i))"
  have "runs (compactInv env ms o0) ?A (markCompacted flt now toCompact)
      (\<lambda>r c. \<exists>o1. ?A o1 \<and> marksOnly ?S o1 c \<and> (r = Inr () \<longrightarrow> (\<forall>i \<in> ?S. has_object c (deletionMarkName i))))"
  proof (rule runs_from)
    fix o1 c
    assume o1: "?A o1"
    show "marksOnly ?S o1 o1" by (rule marksOnly_refl)
    show "runs (marksOnly ?S o1) (\<lambda>c. c = o1) (markCompacted flt now toCompact)
        (\<lambda>r c. r = Inr () \<longrightarrow> (\<forall>i \<in> ?S. has_object c (deletionMarkName i)))"
      by (rule runs_conseq [OF runs_markCompacted [of toCompact ?S _ "{}"]]) auto
    assume c: "marksOnly ?S o1 c"
    have "i \<in> ?S" if "has_object c (deletionMarkName i)" "\<not> has_object o0 (deletionMarkName i)" for i
      using marksOnly_new [OF c that(1)] o1 that(2) by blast
    then show "compactInv env ms o0 c"
      using compactedOut_marks [OF c] o1 assms unfolding compactInv_def by blast
  qed
  then show ?thesis by (rule runs_conseq) (auto dest: compactedOut_marks)
qed

lemma runs_compactGroup:
  assumes fresh: "freshBlocks env o0"
  shows "runs (compactInv env (groupMetas g) o0) (\<lambda>c. c = o0) (compactGroup env flt planFn g)
     (\<lambda>r c. \<forall>i. r = Inr (True, Some i) \<longrightarrow> compactedOut env c)"
proof -
  let ?I = "compactInv env (groupMetas g) o0"
  let ?Q = "\<lambda>(r :: go_error + bool \<times> ulid option) c. \<forall>i. r = Inr (True, Some i) \<longrightarrow> compactedOut env c"
  have finish: "runs ?I (sameButMarks o0) (finishCompaction env flt g toCompact dirs) ?Q"
    if sub: "set toCompact \<subseteq> set (groupMetas g)" for dirs toCompact
  proof -
    have empty: "runs ?I (sameButMarks o0)
        (\<lambda>b. case markEmpty flt (ceNow env) toCompact b of (_, b) \<Rightarrow> (Inr (True, None), b)) ?Q"
      using runs_emptied [OF sub, of env o0 flt "ceNow env"] by (simp add: runs_def split_beta)
    have full: "runs ?I (sameButMarks o0) (\<lambda>b. case uploadCompacted env flt g toCompact lb b of
             (Inl e, b) \<Rightarrow> (Inl e, b)
           | (Inr _, b) \<Rightarrow>
               (case markCompacted flt (ceNow env) toCompact b of
                  (Inl e, b) \<Rightarrow> (Inl e, b)
                | (Inr _, b) \<Rightarrow> (Inr (True, lbId lb), b))) ?Q" if "ceCompact env dirs = Inr (Some lb)" for lb
    proof (rule runs_case [OF runs_uploaded [OF fresh that]])
      fix u :: unit
      have "runs ?I (\<lambda>c. compactedOut env c \<and> (\<forall>i. has_object c (deletionMarkName i) \<longrightarrow> has_object o0 (deletionMarkName i)))
          (\<lambda>b. case markCompacted flt (ceNow env) toCompact b of
                  (Inl e, b) \<Rightarrow> (Inl e, b) | (Inr _, b) \<Rightarrow> (Inr (True, lbId lb), b)) ?Q"
        by (rule runs_case [OF runs_marked [OF sub]]) (auto intro!: runs_return)
      then show "runs ?I (\<lambda>c. (Inr u :: go_error + unit) = Inr () \<longrightarrow> compactedOut env c
            \<and> (\<forall>i. has_object c (deletionMarkName i) \<longrightarrow> has_object o0 (deletionMarkName i)))
          (\<lambda>b. case markCompacted flt (ceNow env) toCompact b of
                  (Inl e, b) \<Rightarrow> (Inl e, b) | (Inr _, b) \<Rightarrow> (Inr (True, lbId lb), b)) ?Q"
        by (rule runs_conseq) auto
    qed (auto intro!: runs_return)
    consider e where "ceCompact env dirs = Inl e" | "ceCompact env dirs = Inr None"
      | lb where "ceCompact env dirs = Inr (Some lb)" by (metis option.exhaust sum.exhaust)
    then show ?thesis
    proof cases
      case 1
      then show ?thesis unfolding finishCompaction_def by (auto intro: runs_return)
    next
      case 2
      then show ?thesis using empty unfolding finishCompaction_def by simp
    next
      case (3 lb)
      then show ?thesis using full [OF 3] unfolding finishCompaction_def by simp
    qed
  qed
  have planned: "runs ?I (\<lambda>c. sameButMarks o0 c \<and> (\<forall>x. (Inr toCompact :: filter_error + meta list) = Inr x \<longrightarrow> set x \<subseteq> set (groupMetas g)))
      (compactPlanned env flt g toCompact) ?Q" for toCompact
  proof (cases "set toCompact \<subseteq> set (groupMetas g)")
    case True
    have "runs ?I (sameButMarks o0) (compactPlanned env flt g toCompact) ?Q"
      unfolding compactPlanned_def
      by (intro runs_if runs_case [OF readonly_runs [OF readonly_downloadPlan]] finish [OF True])
        (auto intro!: runs_return)
    then show ?thesis by (rule runs_conseq) auto
  next
    case False
    then show ?thesis by (auto simp: runs_def)
  qed
  have "runs ?I (\<lambda>c. c = o0) (\<lambda>b. case planFn (groupMetas g) b of
             (Inl e, b) \<Rightarrow> (Inl (WrapErr BaseErr), b)
           | (Inr toCompact, b) \<Rightarrow> compactPlanned env flt g toCompact b) ?Q"
    by (rule runs_case [OF runs_plan _ planned]) (auto intro!: runs_return)
  then show ?thesis
    unfolding compactGroup_def by (intro runs_if) (auto intro!: runs_return)
qed

end

text \<open>
  C1: compaction never endangers data, whatever fails and wherever it stops: in every state of the bucket
  during the compaction of a group, a block that has newly been marked for deletion is a block of the
  group, and either a compacted block is completely uploaded, with its index and all its chunks next
  to its \<^verbatim>\<open>meta.json\<close>, or the block has no samples. A compaction that reports a new block has uploaded it.
\<close>

theorem compactGroup_safe:
  assumes "freshBlocks env (objects b)"
    and "compactGroup env flt (Plan flt sz limit ranges marked) g b = (r, b')"
  shows "(\<exists>new. trace b' = new @ trace b \<and>
      (\<forall>c \<in> set new. \<forall>i. has_object c (deletionMarkName i) \<longrightarrow> \<not> has_object (objects b) (deletionMarkName i) \<longrightarrow>
         i \<in> metaULID ` set (groupMetas g) \<and> compactedOut env c
         \<or> (\<exists>m \<in> set (groupMetas g). metaULID m = i \<and> numSamples m = 0)))
    \<and> (\<forall>i. r = Inr (True, Some i) \<longrightarrow> compactedOut env (objects b'))"
proof -
  have inv: "compactInv env (groupMetas g) (objects b) (objects b)"
    by (rule compactInv_same) (simp add: sameButMarks_def)
  have R: "runs (compactInv env (groupMetas g) (objects b)) (\<lambda>c. c = objects b)
      (compactGroup env flt (Plan flt sz limit ranges marked) g) (\<lambda>r c. \<forall>i. r = Inr (True, Some i) \<longrightarrow> compactedOut env c)"
    by (rule sized.runs_compactGroup [OF assms(1)])
  have "(\<forall>i. r = Inr (True, Some i) \<longrightarrow> compactedOut env (objects b'))
      \<and> (\<exists>new. trace b' = new @ trace b \<and> (\<forall>c \<in> set new. compactInv env (groupMetas g) (objects b) c))"
    using runsD(2,3) [OF R inv refl] unfolding assms(2) by simp
  then show ?thesis unfolding compactInv_def by simp
qed

lemma sampleRun_eval: "fst sampleRun = Inr (True, Some 9) \<and> has_object (objects (snd sampleRun)) (deletionMarkName 1)"
  by code_simp

theorem compactGroup_safe_witness:
  "freshBlocks sampleEnv (objects groupBucket)
   \<and> (\<exists>r b'. compactGroup sampleEnv (\<lambda>_. NoFault) (Plan (\<lambda>_. NoFault) rawSize 1000 [20, 60] (\<lambda>_. None)) sampleGroup groupBucket
        = (r, b') \<and> has_object (objects b') (deletionMarkName 1) \<and> compactedOut sampleEnv (objects b'))"
proof -
  have "freshBlocks sampleEnv (objects groupBucket)"
    by (auto simp: freshBlocks_def sampleEnv_def sampleLocal_def groupBucket_def has_object_def block_names)
  moreover have "compactGroup sampleEnv (\<lambda>_. NoFault) (Plan (\<lambda>_. NoFault) rawSize 1000 [20, 60] (\<lambda>_. None)) sampleGroup groupBucket
        = (Inr (True, Some 9), snd sampleRun)"
    using sampleRun_eval unfolding sampleRun_def by (metis prod.collapse)
  ultimately show ?thesis using compactGroup_safe sampleRun_eval by blast
qed

end
