(* ===== verification/Series_Merge.thy ===== *)
theory Series_Merge
  imports Label_Order
begin

text \<open>
  Merging the series of several stores (\<^verbatim>\<open>pkg/store/storepb/custom.go\<close>). A \<^verbatim>\<open>SeriesSet\<close> is an iterator with
  \<^verbatim>\<open>Next\<close>, \<^verbatim>\<open>At\<close> and \<^verbatim>\<open>Err\<close>; the iterators the merge builds are the values of \<open>sset\<close>, their state included.
  A source is what a store sends: rows, and whether the stream ends in an error.
\<close>

section \<open>Chunks\<close>

record raw_chunk =
  chunkType :: nat
  rawData :: string

record aggr_chunk =
  acMin :: int
  acMax :: int
  acRaw :: "raw_chunk option"
  acCount :: "raw_chunk option"
  acSum :: "raw_chunk option"
  acMinChunk :: "raw_chunk option"
  acMaxChunk :: "raw_chunk option"
  acCounter :: "raw_chunk option"

definition bytesCompare :: "string \<Rightarrow> string \<Rightarrow> int" where
  "bytesCompare a b = (if a < b then - 1 else if a = b then 0 else 1)"

definition chunkCompare :: "raw_chunk option \<Rightarrow> raw_chunk option \<Rightarrow> int" where
  "chunkCompare m b =
     (case (m, b) of
        (None, None) \<Rightarrow> 0
      | (Some _, None) \<Rightarrow> 1
      | (None, Some _) \<Rightarrow> - 1
      | (Some m, Some b) \<Rightarrow>
          if chunkType m < chunkType b then 1
          else if chunkType m > chunkType b then - 1
          else bytesCompare (rawData m) (rawData b))"

fun firstNonZero :: "int list \<Rightarrow> int" where
  "firstNonZero [] = 0"
| "firstNonZero (c # cs) = (if c = 0 then firstNonZero cs else c)"

definition aggrCompare :: "aggr_chunk \<Rightarrow> aggr_chunk \<Rightarrow> int" where
  "aggrCompare m b =
     (if acMin m < acMin b then 1
      else if acMin m > acMin b then - 1
      else if acMax m < acMax b then 1
      else if acMax m > acMax b then - 1
      else firstNonZero
        [chunkCompare (acRaw m) (acRaw b), chunkCompare (acCount m) (acCount b),
         chunkCompare (acSum m) (acSum b), chunkCompare (acMinChunk m) (acMinChunk b),
         chunkCompare (acMaxChunk m) (acMaxChunk b), chunkCompare (acCounter m) (acCounter b)])"

text \<open>The loop over the chunks of two series with the same labels.\<close>

fun mergeChunks :: "aggr_chunk list \<Rightarrow> aggr_chunk list \<Rightarrow> aggr_chunk list" where
  "mergeChunks [] bs = bs"
| "mergeChunks (a # as) [] = a # as"
| "mergeChunks (a # as) (b # bs) =
     (if aggrCompare a b > 0 then a # mergeChunks as (b # bs)
      else if aggrCompare a b < 0 then b # mergeChunks (a # as) bs
      else mergeChunks (a # as) bs)"

section \<open>Series sets\<close>

type_synonym row = "labels \<times> aggr_chunk list"

datatype sset =
    EmptySet
  | UniqueSet "row list" bool bool "row option" row
  | MergedSet sset sset bool bool row

text \<open>
  \<open>UniqueSet rows broken ended peek cur\<close> wraps a source of which \<open>rows\<close> are still to come; \<open>MergedSet a b adone
  bdone cur\<close> has one element of look-ahead in \<open>a\<close> and \<open>b\<close>.
\<close>

fun errS :: "sset \<Rightarrow> bool" where
  "errS EmptySet = False"
| "errS (UniqueSet rows broken ended peek cur) = (broken \<and> ended)"
| "errS (MergedSet a b adone bdone cur) = (errS a \<or> errS b)"

fun atS :: "sset \<Rightarrow> row" where
  "atS EmptySet = ([], [])"
| "atS (UniqueSet rows broken ended peek cur) = cur"
| "atS (MergedSet a b adone bdone cur) = cur"

text \<open>
  The loop of \<^verbatim>\<open>uniqueSeriesSet.Next\<close>: the series to return, if the loop returns one, then the new \<open>peek\<close>,
  the rows left, and whether the source has ended.
\<close>

fun uniqueLoop ::
  "(labels \<Rightarrow> labels \<Rightarrow> int) \<Rightarrow> row option \<Rightarrow> row list \<Rightarrow> row option \<times> row option \<times> row list \<times> bool" where
  "uniqueLoop cmp peek [] = (None, peek, [], True)"
| "uniqueLoop cmp None (r # rows) = uniqueLoop cmp (Some r) rows"
| "uniqueLoop cmp (Some p) (r # rows) =
     (if cmp (fst r) (fst p) \<noteq> 0 then (Some p, Some r, rows, False)
      else uniqueLoop cmp (Some (fst p, snd p @ snd r)) rows)"

definition compareS :: "(labels \<Rightarrow> labels \<Rightarrow> int) \<Rightarrow> sset \<Rightarrow> sset \<Rightarrow> bool \<Rightarrow> bool \<Rightarrow> int" where
  "compareS cmp a b adone bdone =
     (if adone then 1 else if bdone then - 1 else cmp (fst (atS a)) (fst (atS b)))"

fun nextS :: "(labels \<Rightarrow> labels \<Rightarrow> int) \<Rightarrow> sset \<Rightarrow> bool \<times> sset" where
  "nextS cmp EmptySet = (False, EmptySet)"
| "nextS cmp (UniqueSet rows broken ended peek cur) =
     (if broken \<and> ended then (False, UniqueSet rows broken ended peek cur)
      else case (if ended then (None, peek, rows, True) else uniqueLoop cmp peek rows) of
             (Some r, peek, rows, ended) \<Rightarrow> (True, UniqueSet rows broken ended peek r)
           | (None, None, rows, ended) \<Rightarrow> (False, UniqueSet rows broken ended None cur)
           | (None, Some p, rows, ended) \<Rightarrow> (True, UniqueSet rows broken ended None p))"
| "nextS cmp (MergedSet a b adone bdone cur) =
     (if adone \<and> bdone \<or> errS a \<or> errS b then (False, MergedSet a b adone bdone cur)
      else if compareS cmp a b adone bdone > 0
      then (case nextS cmp b of (ok, b') \<Rightarrow> (True, MergedSet a b' adone (\<not> ok) (atS b)))
      else if compareS cmp a b adone bdone < 0
      then (case nextS cmp a of (ok, a') \<Rightarrow> (True, MergedSet a' b (\<not> ok) bdone (atS a)))
      else (case nextS cmp a of (oka, a') \<Rightarrow> case nextS cmp b of (okb, b') \<Rightarrow>
              (True, MergedSet a' b' (\<not> oka) (\<not> okb)
                       (fst (atS a), mergeChunks (snd (atS a)) (snd (atS b))))))"

type_synonym source_set = "row list \<times> bool"

definition newUniqueSeriesSet :: "source_set \<Rightarrow> sset" where
  "newUniqueSeriesSet s = UniqueSet (fst s) (snd s) False None ([], [])"

definition newMergedSeriesSet :: "(labels \<Rightarrow> labels \<Rightarrow> int) \<Rightarrow> sset \<Rightarrow> sset \<Rightarrow> sset" where
  "newMergedSeriesSet cmp a b =
     (case nextS cmp a of (oka, a) \<Rightarrow> case nextS cmp b of (okb, b) \<Rightarrow> MergedSet a b (\<not> oka) (\<not> okb) ([], []))"

function MergeSeriesSets :: "(labels \<Rightarrow> labels \<Rightarrow> int) \<Rightarrow> source_set list \<Rightarrow> sset" where
  "MergeSeriesSets cmp all =
     (if all = [] then EmptySet
      else if length all = 1 then newUniqueSeriesSet (hd all)
      else newMergedSeriesSet cmp
             (MergeSeriesSets cmp (take (length all div 2) all))
             (MergeSeriesSets cmp (drop (length all div 2) all)))"
  by pat_completeness auto
termination
proof (relation "measure (\<lambda>(cmp, all). length all)", goal_cases)
  case (2 cmp all)
  then have "length all \<ge> 2" by (cases all) (auto simp: Suc_le_eq)
  then show ?case by auto
next
  case (3 cmp all)
  then have "length all \<ge> 2" by (cases all) (auto simp: Suc_le_eq)
  then show ?case by auto
qed simp

text \<open>Reading an iterator to its end, as every consumer does.\<close>

fun leftS :: "sset \<Rightarrow> nat" where
  "leftS EmptySet = 0"
| "leftS (UniqueSet rows broken ended peek cur) = length rows + (if peek = None then 0 else 1)"
| "leftS (MergedSet a b adone bdone cur) =
     leftS a + leftS b + (if adone then 0 else 1) + (if bdone then 0 else 1)"

definition before :: "aggr_chunk \<Rightarrow> aggr_chunk \<Rightarrow> bool" where
  "before a b \<longleftrightarrow> aggrCompare a b > 0"

definition chunkFields :: "aggr_chunk \<Rightarrow> raw_chunk option list" where
  "chunkFields m = [acRaw m, acCount m, acSum m, acMinChunk m, acMaxChunk m, acCounter m]"

fun uniqueRows :: "(labels \<Rightarrow> labels \<Rightarrow> int) \<Rightarrow> row option \<Rightarrow> row list \<Rightarrow> row list" where
  "uniqueRows cmp None [] = []"
| "uniqueRows cmp (Some p) [] = [p]"
| "uniqueRows cmp None (r # rows) = uniqueRows cmp (Some r) rows"
| "uniqueRows cmp (Some p) (r # rows) =
     (if cmp (fst r) (fst p) \<noteq> 0 then p # uniqueRows cmp (Some r) rows
      else uniqueRows cmp (Some (fst p, snd p @ snd r)) rows)"

fun mergeRows :: "(labels \<Rightarrow> labels \<Rightarrow> int) \<Rightarrow> row list \<Rightarrow> row list \<Rightarrow> row list" where
  "mergeRows cmp [] bs = bs"
| "mergeRows cmp (a # as) [] = a # as"
| "mergeRows cmp (a # as) (b # bs) =
     (if cmp (fst a) (fst b) > 0 then b # mergeRows cmp (a # as) bs
      else if cmp (fst a) (fst b) < 0 then a # mergeRows cmp as (b # bs)
      else (fst a, mergeChunks (snd a) (snd b)) # mergeRows cmp as bs)"

fun pendingS :: "(labels \<Rightarrow> labels \<Rightarrow> int) \<Rightarrow> sset \<Rightarrow> row list" where
  "pendingS cmp EmptySet = []"
| "pendingS cmp (UniqueSet rows broken ended peek cur) = uniqueRows cmp peek (if ended then [] else rows)"
| "pendingS cmp (MergedSet a b adone bdone cur) =
     mergeRows cmp (if adone then [] else atS a # pendingS cmp a) (if bdone then [] else atS b # pendingS cmp b)"

fun okS :: "sset \<Rightarrow> bool" where
  "okS EmptySet = True"
| "okS (UniqueSet rows broken ended peek cur) = (\<not> broken)"
| "okS (MergedSet a b adone bdone cur) = (okS a \<and> okS b)"

definition chunksAt :: "labels \<Rightarrow> row list \<Rightarrow> aggr_chunk set" where
  "chunksAt l rows = \<Union> (set ` snd ` {r \<in> set rows. fst r = l})"

definition ascending :: "(labels \<Rightarrow> labels \<Rightarrow> int) \<Rightarrow> row list \<Rightarrow> bool" where
  "ascending cmp rows \<longleftrightarrow> sorted_wrt (\<lambda>a b. cmp a b < 0) (map fst rows)"

definition nondescending :: "(labels \<Rightarrow> labels \<Rightarrow> int) \<Rightarrow> row list \<Rightarrow> bool" where
  "nondescending cmp rows \<longleftrightarrow> sorted_wrt (\<lambda>a b. cmp a b \<le> 0) (map fst rows)"

definition peeked :: "row option \<Rightarrow> row list" where
  "peeked p = (case p of None \<Rightarrow> [] | Some r \<Rightarrow> [r])"

definition sampleChunk :: "int \<Rightarrow> int \<Rightarrow> string \<Rightarrow> aggr_chunk" where
  "sampleChunk mint maxt d = \<lparr>acMin = mint, acMax = maxt, acRaw = Some \<lparr>chunkType = 0, rawData = d\<rparr>, acCount = None,
     acSum = None, acMinChunk = None, acMaxChunk = None, acCounter = None\<rparr>"

definition sampleSources :: "source_set list" where
  "sampleSources =
     [([([(''a'', ''1'')], [sampleChunk 0 5 ''x'']), ([(''a'', ''1'')], [sampleChunk 6 9 ''y''])], False),
      ([([(''a'', ''0'')], [sampleChunk 0 9 ''z'']), ([(''a'', ''1'')], [sampleChunk 0 5 ''x'', sampleChunk 7 9 ''w''])], False),
      ([], False)]"

fun brokenS :: "sset \<Rightarrow> bool" where
  "brokenS EmptySet = False"
| "brokenS (UniqueSet rows broken ended peek cur) = broken"
| "brokenS (MergedSet a b adone bdone cur) = (brokenS a \<or> brokenS b)"

fun wfS :: "sset \<Rightarrow> bool" where
  "wfS EmptySet = True"
| "wfS (UniqueSet rows broken ended peek cur) = True"
| "wfS (MergedSet a b adone bdone cur) =
     (wfS a \<and> wfS b \<and> (adone \<longrightarrow> brokenS a \<longrightarrow> errS a) \<and> (bdone \<longrightarrow> brokenS b \<longrightarrow> errS b))"

lemma uniqueLoop_left:
  "uniqueLoop cmp peek rows = (r, peek', rows', ended) \<Longrightarrow>
     length rows' + (if peek' = None then 0 else 1) + (if r = None then 0 else 1)
       \<le> length rows + (if peek = None then 0 else 1)"
  by (induction cmp peek rows rule: uniqueLoop.induct) (auto split: if_splits)

lemma nextS_left: "nextS cmp s = (ok, s') \<Longrightarrow> leftS s' + (if ok then 1 else 0) \<le> leftS s"
proof (induction s arbitrary: ok s')
  case EmptySet
  then show ?case by auto
next
  case (UniqueSet rows broken ended peek cur)
  obtain r pk rs en where l: "(if ended then (None, peek, rows, True) else uniqueLoop cmp peek rows) = (r, pk, rs, en)"
    using prod_cases4 by blast
  then have "length rs + (if pk = None then 0 else 1) + (if r = None then 0 else 1)
      \<le> length rows + (if peek = None then 0 else 1)"
    by (cases ended) (auto dest: uniqueLoop_left)
  then show ?case using UniqueSet l by (auto split: if_splits option.splits)
next
  case (MergedSet a b adone bdone cur)
  then show ?case
    by (auto simp: compareS_def split: if_splits prod.splits)
qed

function drainS :: "(labels \<Rightarrow> labels \<Rightarrow> int) \<Rightarrow> sset \<Rightarrow> row list \<times> sset" where
  "drainS cmp s =
     (case nextS cmp s of
        (False, s') \<Rightarrow> ([], s')
      | (True, s') \<Rightarrow> (case drainS cmp s' of (rs, e) \<Rightarrow> (atS s' # rs, e)))"
  by pat_completeness auto
termination
  by (relation "measure (\<lambda>(cmp, s). leftS s)") (auto dest: nextS_left [OF sym])

declare drainS.simps [simp del] MergeSeriesSets.simps [simp del]

section \<open>Order of chunks\<close>

lemma bytesCompare_eq: "bytesCompare a b = 0 \<longleftrightarrow> a = b"
  by (auto simp: bytesCompare_def)

lemma chunkCompare_eq: "chunkCompare a b = 0 \<longleftrightarrow> a = b"
  by (cases a; cases b) (auto simp: chunkCompare_def bytesCompare_eq)

lemma firstNonZero_eq: "firstNonZero cs = 0 \<longleftrightarrow> (\<forall>c \<in> set cs. c = 0)"
  by (induction cs) auto

lemma aggrCompare_eq: "aggrCompare a b = 0 \<longleftrightarrow> a = b"
  by (cases a; cases b) (auto simp: aggrCompare_def firstNonZero_eq chunkCompare_eq)

lemma chunkCompare_sym: "chunkCompare a b < 0 \<longleftrightarrow> 0 < chunkCompare b a"
  by (cases a; cases b) (auto simp: chunkCompare_def bytesCompare_def)

lemma chunkCompare_trans: "0 < chunkCompare a b \<Longrightarrow> 0 < chunkCompare b c \<Longrightarrow> 0 < chunkCompare a c"
  by (cases a; cases b; cases c) (auto simp: chunkCompare_def bytesCompare_def split: if_splits)

text \<open>\<open>before a b\<close>: the chunk \<open>a\<close> comes first, which is what a positive comparison means.\<close>

lemma firstNonZero_trans:
  assumes "\<And>x y z. 0 < f x y \<Longrightarrow> 0 < f y z \<Longrightarrow> 0 < f x z" and "\<And>x y. f x y = 0 \<longleftrightarrow> x = y"
  shows "0 < firstNonZero (map2 f xs ys) \<Longrightarrow> 0 < firstNonZero (map2 f ys zs) \<Longrightarrow>
    length xs = length ys \<Longrightarrow> length ys = length zs \<Longrightarrow> 0 < firstNonZero (map2 f xs zs)"
proof (induction xs arbitrary: ys zs)
  case Nil
  then show ?case by simp
next
  case (Cons x xs)
  then obtain y ys' z zs' where yz: "ys = y # ys'" "zs = z # zs'"
    by (cases ys; cases zs) auto
  show ?case
  proof (cases "x = y \<or> y = z")
    case True
    then show ?thesis using Cons yz assms(2) by (auto split: if_splits)
  next
    case False
    then have "0 < f x y" "0 < f y z" using Cons.prems yz assms(2) by (auto split: if_splits)
    then have "0 < f x z" by (rule assms(1))
    then show ?thesis using yz by simp
  qed
qed

lemma firstNonZero_sym:
  assumes "\<And>x y. f x y < 0 \<longleftrightarrow> 0 < f y x" and "\<And>x y. f x y = 0 \<longleftrightarrow> x = y"
  shows "length xs = length ys \<Longrightarrow> firstNonZero (map2 f xs ys) < 0 \<longleftrightarrow> 0 < firstNonZero (map2 f ys xs)"
  by (induction xs ys rule: list_induct2) (auto simp: assms)

lemma length_chunkFields [simp]: "length (chunkFields m) = 6"
  by (simp add: chunkFields_def)

lemma aggrCompare_fields:
  "aggrCompare m b =
     (if acMin m < acMin b then 1 else if acMin m > acMin b then - 1
      else if acMax m < acMax b then 1 else if acMax m > acMax b then - 1
      else firstNonZero (map2 chunkCompare (chunkFields m) (chunkFields b)))"
  by (simp add: aggrCompare_def chunkFields_def)

lemma aggrCompare_sym: "aggrCompare a b < 0 \<longleftrightarrow> before b a"
  unfolding before_def aggrCompare_fields
  using firstNonZero_sym [where f = chunkCompare, OF chunkCompare_sym chunkCompare_eq,
      where xs = "chunkFields a" and ys = "chunkFields b"]
  by simp

lemma before_trans: "before a b \<Longrightarrow> before b c \<Longrightarrow> before a c"
  unfolding before_def aggrCompare_fields
  using firstNonZero_trans [where f = chunkCompare, OF chunkCompare_trans chunkCompare_eq,
      where xs = "chunkFields a" and ys = "chunkFields b" and zs = "chunkFields c"]
  by (auto split: if_splits)

lemma before_irrefl: "\<not> before a a"
  using aggrCompare_eq [of a a] by (simp add: before_def)

lemma set_mergeChunks: "set (mergeChunks as bs) = set as \<union> set bs"
proof (induction as bs rule: mergeChunks.induct)
  case (3 a as b bs)
  then show ?case using aggrCompare_eq [of a b] by (auto simp: not_less)
qed auto

lemma sorted_mergeChunks:
  "sorted_wrt before as \<Longrightarrow> sorted_wrt before bs \<Longrightarrow> sorted_wrt before (mergeChunks as bs)"
proof (induction as bs rule: mergeChunks.induct)
  case (3 a as b bs)
  consider "before a b" | "before b a" | "a = b"
    using aggrCompare_eq [of a b] aggrCompare_sym [of a b] before_def by (meson linorder_cases)
  then show ?case
  proof cases
    case 1
    then show ?thesis using 3 before_trans [OF 1] by (auto simp: before_def [symmetric] set_mergeChunks)
  next
    case 2
    then have "aggrCompare a b < 0" using aggrCompare_sym by blast
    then show ?thesis using 3 before_trans [OF 2] 2 by (auto simp: set_mergeChunks)
  next
    case 3
    then have "aggrCompare a b = 0" using aggrCompare_eq by blast
    then show ?thesis using "3.IH"(3) "3.prems" by simp
  qed
qed auto

section \<open>The iterators as lists\<close>

text \<open>
  The abstraction: the rows an iterator still has to deliver when no source fails. \<open>nextS\<close> then takes
  the head of that list off.
\<close>

lemma okS_errS: "okS s \<Longrightarrow> \<not> errS s"
  by (induction s) auto

lemma uniqueLoop_rows:
  "uniqueLoop cmp peek rows = (r, peek', rows', ended) \<Longrightarrow>
     uniqueRows cmp peek rows = (case r of None \<Rightarrow> (case peek' of None \<Rightarrow> [] | Some p \<Rightarrow> [p])
                                | Some x \<Rightarrow> x # uniqueRows cmp peek' rows')
     \<and> (r = None \<longrightarrow> ended) \<and> (r \<noteq> None \<longrightarrow> \<not> ended)"
proof (induction cmp peek rows rule: uniqueLoop.induct)
  case (1 cmp peek)
  then show ?case by (cases peek) auto
qed (auto split: if_splits)

lemma mergeRows_Nil [simp]: "mergeRows cmp as [] = as"
  by (cases as) auto

lemma nextS_refines:
  "okS s \<Longrightarrow> nextS cmp s = (ok, s') \<Longrightarrow>
     okS s' \<and> pendingS cmp s = (if ok then atS s' # pendingS cmp s' else [])"
proof (induction s arbitrary: ok s')
  case EmptySet
  then show ?case by auto
next
  case (UniqueSet rows broken ended peek cur)
  show ?case
  proof (cases ended)
    case True
    then show ?thesis using UniqueSet by (cases peek) auto
  next
    case False
    obtain r pk rs en where l: "uniqueLoop cmp peek rows = (r, pk, rs, en)" using prod_cases4 by blast
    show ?thesis using UniqueSet False l uniqueLoop_rows [OF l] by (cases r; cases pk) auto
  qed
next
  case (MergedSet a b adone bdone cur)
  obtain oka a' where a: "nextS cmp a = (oka, a')" by fastforce
  obtain okb b' where b: "nextS cmp b = (okb, b')" by fastforce
  have IHa: "okS a' \<and> pendingS cmp a = (if oka then atS a' # pendingS cmp a' else [])"
    and IHb: "okS b' \<and> pendingS cmp b = (if okb then atS b' # pendingS cmp b' else [])"
    using MergedSet.IH(1) [OF _ a] MergedSet.IH(2) [OF _ b] MergedSet.prems(1) by auto
  have err: "\<not> errS a" "\<not> errS b" and ok: "okS a" "okS b" using MergedSet.prems(1) okS_errS by auto
  let ?d = "compareS cmp a b adone bdone"
  consider (stop) "adone" "bdone" | (b) "\<not> (adone \<and> bdone)" "?d > 0" | (a) "\<not> (adone \<and> bdone)" "?d < 0"
    | (both) "\<not> (adone \<and> bdone)" "?d = 0" by linarith
  then show ?case
  proof cases
    case stop
    then show ?thesis using MergedSet.prems by auto
  next
    case b
    then have s': "ok = True" "s' = MergedSet a b' adone (\<not> okb) (atS b)"
      using MergedSet.prems(2) err \<open>nextS cmp b = (okb, b')\<close> by auto
    show ?thesis
    proof (cases adone)
      case True
      then show ?thesis using b s' IHb ok by simp
    next
      case False
      then have "\<not> bdone" "cmp (fst (atS a)) (fst (atS b)) > 0" using b(2) by (auto simp: compareS_def split: if_splits)
      then show ?thesis using False s' IHb ok by simp
    qed
  next
    case a
    then have s': "ok = True" "s' = MergedSet a' b (\<not> oka) bdone (atS a)"
      using MergedSet.prems(2) err \<open>nextS cmp a = (oka, a')\<close> by auto
    have "\<not> adone" using a(2) by (auto simp: compareS_def)
    show ?thesis
    proof (cases bdone)
      case True
      then show ?thesis using \<open>\<not> adone\<close> s' IHa ok by simp
    next
      case False
      then have "cmp (fst (atS a)) (fst (atS b)) < 0" using a(2) \<open>\<not> adone\<close> by (simp add: compareS_def)
      then show ?thesis using False \<open>\<not> adone\<close> s' IHa ok by simp
    qed
  next
    case both
    then have nd: "\<not> adone" "\<not> bdone" by (auto simp: compareS_def split: if_splits)
    then have "cmp (fst (atS a)) (fst (atS b)) = 0" using both(2) by (simp add: compareS_def)
    moreover have "ok = True" "s' = MergedSet a' b' (\<not> oka) (\<not> okb) (fst (atS a), mergeChunks (snd (atS a)) (snd (atS b)))"
      using MergedSet.prems(2) err both a b by auto
    ultimately show ?thesis using nd IHa IHb by simp
  qed
qed

lemma drainS_pending: "okS s \<Longrightarrow> fst (drainS cmp s) = pendingS cmp s"
proof (induction cmp s rule: drainS.induct)
  case (1 cmp s)
  obtain ok s' where n: "nextS cmp s = (ok, s')" by fastforce
  show ?case
  proof (cases ok)
    case True
    then have "fst (drainS cmp s') = pendingS cmp s'"
      using 1(1) [OF n [symmetric]] nextS_refines [OF 1(2) n] by simp
    then show ?thesis
      using nextS_refines [OF 1(2) n] True by (simp add: drainS.simps [of cmp s] n split_beta)
  next
    case False
    then show ?thesis using nextS_refines [OF 1(2) n] by (simp add: drainS.simps [of cmp s] n)
  qed
qed

lemma newMerged_pending:
  assumes "okS a" and "okS b"
  shows "okS (newMergedSeriesSet cmp a b)"
    and "pendingS cmp (newMergedSeriesSet cmp a b) = mergeRows cmp (pendingS cmp a) (pendingS cmp b)"
proof -
  obtain oka a' where a: "nextS cmp a = (oka, a')" by fastforce
  obtain okb b' where b: "nextS cmp b = (okb, b')" by fastforce
  show "okS (newMergedSeriesSet cmp a b)"
    "pendingS cmp (newMergedSeriesSet cmp a b) = mergeRows cmp (pendingS cmp a) (pendingS cmp b)"
    using nextS_refines [OF assms(1) a] nextS_refines [OF assms(2) b]
    by (auto simp: newMergedSeriesSet_def a b)
qed

text \<open>
  The specification: the rows of the result have strictly increasing labels, exactly the labels of the
  inputs, and under each label the chunks that some input has under it.
\<close>

lemma chunksAt_simps [simp]:
  "chunksAt l [] = {}"
  "chunksAt l (r # rows) = (if fst r = l then set (snd r) else {}) \<union> chunksAt l rows"
  by (auto simp: chunksAt_def)

lemma peeked_simps [simp]: "peeked None = []" "peeked (Some r) = [r]"
  by (simp_all add: peeked_def)

lemma uniqueRows_set:
  assumes "label_order cmp"
  shows "fst ` set (uniqueRows cmp peek rows) = fst ` set (peeked peek @ rows)
    \<and> chunksAt l (uniqueRows cmp peek rows) = chunksAt l (peeked peek @ rows)"
  using assms
proof (induction cmp peek rows rule: uniqueRows.induct)
  case (4 cmp p r rows)
  then have eq: "cmp (fst r) (fst p) = 0 \<longleftrightarrow> fst r = fst p" by (simp add: label_orderD(1))
  show ?case
  proof (cases "fst r = fst p")
    case True
    then show ?thesis using 4 eq by auto
  next
    case False
    then show ?thesis using 4 eq by auto
  qed
qed auto

lemma uniqueRows_ascending:
  assumes "label_order cmp" and "nondescending cmp (peeked peek @ rows)"
  shows "ascending cmp (uniqueRows cmp peek rows)"
  using assms
proof (induction cmp peek rows rule: uniqueRows.induct)
  case (4 cmp p r rows)
  note eq = label_orderD(1) [OF 4(3), of "fst r" "fst p"]
  show ?case
  proof (cases "fst r = fst p")
    case True
    then have "nondescending cmp (peeked (Some (fst p, snd p @ snd r)) @ rows)"
      using 4(4) by (auto simp: nondescending_def)
    then show ?thesis using 4(2) [OF _ 4(3)] eq True by simp
  next
    case False
    then have lt: "cmp (fst p) (fst r) < 0"
      using 4(4) label_orderD(1) [OF 4(3), of "fst p" "fst r"] by (auto simp: nondescending_def order_le_less)
    have nd: "nondescending cmp (r # rows)" using 4(4) by (simp add: nondescending_def)
    have "cmp (fst p) l < 0" if "l \<in> fst ` set (uniqueRows cmp (Some r) rows)" for l
    proof -
      have "l \<in> fst ` set (r # rows)" using that uniqueRows_set [OF 4(3), of "Some r" rows] by simp
      then have "cmp (fst r) l \<le> 0"
        using nd label_orderD(1) [OF 4(3), of l l] by (auto simp: nondescending_def)
      then show ?thesis
        using lt label_orderD(1) [OF 4(3), of "fst r" l] label_orderD(3) [OF 4(3) lt, of l]
        by (cases "fst r = l") auto
    qed
    then show ?thesis using 4(1) [OF _ 4(3)] nd False eq by (auto simp: ascending_def)
  qed
qed (auto simp: ascending_def)

lemma mergeRows_set:
  assumes "label_order cmp"
  shows "fst ` set (mergeRows cmp as bs) = fst ` set as \<union> fst ` set bs
    \<and> chunksAt l (mergeRows cmp as bs) = chunksAt l as \<union> chunksAt l bs"
  using assms
proof (induction cmp as bs rule: mergeRows.induct)
  case (3 cmp a as b bs)
  consider "cmp (fst a) (fst b) > 0" | "cmp (fst a) (fst b) < 0" | "fst a = fst b" "cmp (fst a) (fst b) = 0"
    using label_orderD(1) [OF 3(4), of "fst a" "fst b"] by linarith
  then show ?case
  proof cases
    case 1
    then show ?thesis using 3(1) [OF 1 3(4)] by auto
  next
    case 2
    then show ?thesis using 3(2) [OF _ 2 3(4)] by auto
  next
    case 3
    then show ?thesis using "3.IH"(3) "3.prems" by (auto simp: set_mergeChunks)
  qed
qed auto

lemma mergeRows_ascending:
  assumes "label_order cmp" and "ascending cmp as" and "ascending cmp bs"
  shows "ascending cmp (mergeRows cmp as bs)"
  using assms
proof (induction cmp as bs rule: mergeRows.induct)
  case (3 cmp a as b bs)
  have below: "cmp x y < 0" if "ascending cmp (r # rows)" "cmp x (fst r) < 0" "y \<in> fst ` set (r # rows)" for r rows x y
    using that label_orderD(3) [OF 3(4) that(2)] by (auto simp: ascending_def)
  consider "cmp (fst a) (fst b) > 0" | "cmp (fst a) (fst b) < 0" | "fst a = fst b" "cmp (fst a) (fst b) = 0"
    using label_orderD(1) [OF 3(4), of "fst a" "fst b"] by linarith
  then show ?case
  proof cases
    case 1
    then have lt: "cmp (fst b) (fst a) < 0" using label_orderD(2) [OF 3(4)] by blast
    have "cmp (fst b) y < 0" if y: "y \<in> fst ` set (mergeRows cmp (a # as) bs)" for y
    proof -
      consider "y \<in> fst ` set (a # as)" | "y \<in> fst ` set bs"
        using y conjunct1 [OF mergeRows_set [OF 3(4), of "a # as" bs]] by blast
      then show ?thesis using below [OF 3(5) lt] 3(6) by cases (auto simp: ascending_def)
    qed
    then show ?thesis using 3(1) [OF 1 3(4) 3(5)] 3(6) 1 by (auto simp: ascending_def)
  next
    case 2
    have "cmp (fst a) y < 0" if y: "y \<in> fst ` set (mergeRows cmp as (b # bs))" for y
    proof -
      consider "y \<in> fst ` set (b # bs)" | "y \<in> fst ` set as"
        using y conjunct1 [OF mergeRows_set [OF 3(4), of as "b # bs"]] by blast
      then show ?thesis using below [OF 3(6) 2] 3(5) by cases (auto simp: ascending_def)
    qed
    then show ?thesis using 3(2) [OF _ 2 3(4)] 3(5,6) 2 by (auto simp: ascending_def)
  next
    case eq: 3
    have "cmp (fst a) y < 0" if y: "y \<in> fst ` set (mergeRows cmp as bs)" for y
    proof -
      consider "y \<in> fst ` set bs" | "y \<in> fst ` set as"
        using y conjunct1 [OF mergeRows_set [OF 3(4), of as bs]] by blast
      then show ?thesis using 3(5,6) eq by cases (auto simp: ascending_def)
    qed
    then show ?thesis using "3.IH"(3) "3.prems" eq by (auto simp: ascending_def)
  qed
qed (auto simp: ascending_def)

section \<open>The merge of all sources\<close>

lemma MergeSeriesSets_split:
  obtains (none) "all = []" "MergeSeriesSets cmp all = EmptySet"
  | (one) s where "all = [s]" "MergeSeriesSets cmp all = newUniqueSeriesSet s"
  | (more) l r where "all = l @ r" "length l < length all" "length r < length all"
      "MergeSeriesSets cmp all = newMergedSeriesSet cmp (MergeSeriesSets cmp l) (MergeSeriesSets cmp r)"
proof -
  consider "all = []" | s where "all = [s]" | "length all \<ge> 2"
    by (cases all rule: remdups_adj.cases) auto
  then show thesis
  proof cases
    case 1
    then show ?thesis using none by (simp add: MergeSeriesSets.simps)
  next
    case (2 s)
    then show ?thesis using one by (simp add: MergeSeriesSets.simps)
  next
    case 3
    show ?thesis
      by (rule more [of "take (length all div 2) all" "drop (length all div 2) all"])
        (use 3 in \<open>auto simp: MergeSeriesSets.simps [of cmp all]\<close>)
  qed
qed

lemma MergeSeriesSets_ok:
  assumes "label_order cmp" and "\<forall>s \<in> set all. \<not> snd s \<and> nondescending cmp (fst s)"
  shows "okS (MergeSeriesSets cmp all)
    \<and> ascending cmp (pendingS cmp (MergeSeriesSets cmp all))
    \<and> fst ` set (pendingS cmp (MergeSeriesSets cmp all)) = (\<Union>s \<in> set all. fst ` set (fst s))
    \<and> chunksAt l (pendingS cmp (MergeSeriesSets cmp all)) = (\<Union>s \<in> set all. chunksAt l (fst s))"
  using assms(2)
proof (induction all rule: length_induct)
  case (1 all)
  show ?case
  proof (cases rule: MergeSeriesSets_split [of all cmp])
    case none
    then show ?thesis by (simp add: ascending_def)
  next
    case (one s)
    then show ?thesis
      using 1(2) uniqueRows_set [OF assms(1), of None "fst s" l] uniqueRows_ascending [OF assms(1), of None "fst s"]
      by (simp add: newUniqueSeriesSet_def)
  next
    case (more as bs)
    have prem: "\<forall>s \<in> set as. \<not> snd s \<and> nondescending cmp (fst s)" "\<forall>s \<in> set bs. \<not> snd s \<and> nondescending cmp (fst s)"
      using 1(2) more(1) by auto
    note A = 1(1) [THEN spec, THEN mp, OF more(2), THEN mp, OF prem(1)]
      and B = 1(1) [THEN spec, THEN mp, OF more(3), THEN mp, OF prem(2)]
    let ?A = "MergeSeriesSets cmp as" and ?B = "MergeSeriesSets cmp bs"
    have pend: "pendingS cmp (MergeSeriesSets cmp all) = mergeRows cmp (pendingS cmp ?A) (pendingS cmp ?B)"
      and ok: "okS (MergeSeriesSets cmp all)"
      using newMerged_pending [of ?A ?B cmp] A B more(4) by auto
    have "ascending cmp (pendingS cmp (MergeSeriesSets cmp all))"
      unfolding pend using A B by (intro mergeRows_ascending [OF assms(1)]) auto
    moreover have "fst ` set (pendingS cmp (MergeSeriesSets cmp all)) = (\<Union>s \<in> set all. fst ` set (fst s))"
      unfolding pend using A B more(1) mergeRows_set [OF assms(1), of "pendingS cmp ?A" "pendingS cmp ?B"] by simp
    moreover have "chunksAt l (pendingS cmp (MergeSeriesSets cmp all)) = (\<Union>s \<in> set all. chunksAt l (fst s))"
      unfolding pend using A B more(1) mergeRows_set [OF assms(1), of "pendingS cmp ?A" "pendingS cmp ?B" l] by simp
    ultimately show ?thesis using ok by blast
  qed
qed

text \<open>
  C25: merging sorted sources loses and invents nothing: when no source fails, reading the merged set to its
  end yields every label set of the sources exactly once, in strictly increasing order, and under it
  exactly the chunks that some source has under it, also when a source repeats a label set.
\<close>

theorem MergeSeriesSets_union:
  assumes "label_order cmp" and "\<forall>s \<in> set all. \<not> snd s \<and> nondescending cmp (fst s)"
  shows "ascending cmp (fst (drainS cmp (MergeSeriesSets cmp all)))
    \<and> fst ` set (fst (drainS cmp (MergeSeriesSets cmp all))) = (\<Union>s \<in> set all. fst ` set (fst s))
    \<and> chunksAt l (fst (drainS cmp (MergeSeriesSets cmp all))) = (\<Union>s \<in> set all. chunksAt l (fst s))"
  using MergeSeriesSets_ok [OF assms] drainS_pending by simp

theorem MergeSeriesSets_union_witness:
  "list_all (\<lambda>s. \<not> snd s \<and> nondescending sampleCompare (fst s)) sampleSources
   \<and> chunksAt [(''a'', ''1'')] (fst (drainS sampleCompare (MergeSeriesSets sampleCompare sampleSources)))
       = {sampleChunk 0 5 ''x'', sampleChunk 6 9 ''y'', sampleChunk 7 9 ''w''}"
proof -
  have "\<forall>s \<in> set sampleSources. \<not> snd s \<and> nondescending sampleCompare (fst s)"
    by (simp add: sampleSources_def nondescending_def sampleCompare_def)
  with MergeSeriesSets_union [OF sampleCompare_order this, of "[(''a'', ''1'')]"] show ?thesis
    by (auto simp: sampleSources_def list_all_iff)
qed

text \<open>The stream of a source that fails is reported at the end of the merge, however the sources are nested.\<close>

lemma errS_brokenS: "errS s \<Longrightarrow> brokenS s"
  by (induction s) auto

lemma nextS_broken: "nextS cmp s = (ok, s') \<Longrightarrow> brokenS s' = brokenS s \<and> (errS s \<longrightarrow> \<not> ok \<and> s' = s)"
proof (induction s arbitrary: ok s')
  case (MergedSet a b adone bdone cur)
  obtain oka a' okb b' where "nextS cmp a = (oka, a')" "nextS cmp b = (okb, b')" by fastforce
  with MergedSet show ?case by (auto split: if_splits)
qed (auto split: if_splits prod.splits option.splits)

lemma nextS_Merged:
  assumes "nextS cmp (MergedSet a b adone bdone cur) = (ok, s')"
  obtains (stop) "ok = False" "s' = MergedSet a b adone bdone cur" "adone \<and> bdone \<or> errS a \<or> errS b"
  | (right) okb b' where "nextS cmp b = (okb, b')" "ok" "s' = MergedSet a b' adone (\<not> okb) (atS b)"
  | (left) oka a' where "nextS cmp a = (oka, a')" "ok" "s' = MergedSet a' b (\<not> oka) bdone (atS a)"
  | (both) oka a' okb b' where "nextS cmp a = (oka, a')" "nextS cmp b = (okb, b')" "ok"
      "s' = MergedSet a' b' (\<not> oka) (\<not> okb) (fst (atS a), mergeChunks (snd (atS a)) (snd (atS b)))"
proof -
  obtain oka a' where a: "nextS cmp a = (oka, a')" by fastforce
  obtain okb b' where b: "nextS cmp b = (okb, b')" by fastforce
  show thesis
  proof (cases "adone \<and> bdone \<or> errS a \<or> errS b")
    case True
    then show ?thesis using assms stop by (auto split: if_splits)
  next
    case False
    consider "compareS cmp a b adone bdone > 0" | "compareS cmp a b adone bdone < 0" | "compareS cmp a b adone bdone = 0"
      by linarith
    then show ?thesis
    proof cases
      case 1
      then show ?thesis using assms False right [OF b] b by simp
    next
      case 2
      then show ?thesis using assms False left [OF a] a by simp
    next
      case 3
      then show ?thesis using assms False both [OF a b] a b by simp
    qed
  qed
qed

lemma nextS_wf: "wfS s \<Longrightarrow> nextS cmp s = (ok, s') \<Longrightarrow> wfS s' \<and> (\<not> ok \<longrightarrow> brokenS s' \<longrightarrow> errS s')"
proof (induction s arbitrary: ok s')
  case (UniqueSet rows broken ended peek cur)
  obtain r pk rs en where l: "(if ended then (None, peek, rows, True) else uniqueLoop cmp peek rows) = (r, pk, rs, en)"
    using prod_cases4 by blast
  then have "r = None \<Longrightarrow> en" using uniqueLoop_rows [of cmp peek rows r pk rs en] by (auto split: if_splits)
  then show ?case using UniqueSet l by (auto split: if_splits option.splits)
next
  case (MergedSet a b adone bdone cur)
  have wf: "wfS a" "wfS b" using MergedSet.prems(1) by auto
  from MergedSet.prems(2) show ?case
  proof (cases rule: nextS_Merged)
    case stop
    then show ?thesis using MergedSet.prems(1) by auto
  next
    case (right okb b')
    then show ?thesis using MergedSet.IH(2) [OF wf(2) right(1)] MergedSet.prems(1) by auto
  next
    case (left oka a')
    then show ?thesis using MergedSet.IH(1) [OF wf(1) left(1)] MergedSet.prems(1) by auto
  next
    case (both oka a' okb b')
    then show ?thesis using MergedSet.IH(1) [OF wf(1) both(1)] MergedSet.IH(2) [OF wf(2) both(2)] by auto
  qed
qed auto

lemma drainS_broken: "wfS s \<Longrightarrow> errS (snd (drainS cmp s)) \<longleftrightarrow> brokenS s"
proof (induction cmp s rule: drainS.induct)
  case (1 cmp s)
  obtain ok s' where n: "nextS cmp s = (ok, s')" by fastforce
  show ?case
    using nextS_wf [OF 1(2) n] nextS_broken [OF n] 1(1) [OF n [symmetric]] errS_brokenS [of s']
    by (cases ok) (auto simp: drainS.simps [of cmp s] n split_beta)
qed

lemma MergeSeriesSets_wf:
  "wfS (MergeSeriesSets cmp all) \<and> (brokenS (MergeSeriesSets cmp all) \<longleftrightarrow> (\<exists>s \<in> set all. snd s))"
proof (induction all rule: length_induct)
  case (1 all)
  show ?case
  proof (cases rule: MergeSeriesSets_split [of all cmp])
    case (more as bs)
    note A = 1 [rule_format, OF more(2)] and B = 1 [rule_format, OF more(3)]
    obtain oka a' where a: "nextS cmp (MergeSeriesSets cmp as) = (oka, a')" by fastforce
    obtain okb b' where b: "nextS cmp (MergeSeriesSets cmp bs) = (okb, b')" by fastforce
    show ?thesis
      using A B nextS_wf [OF _ a] nextS_wf [OF _ b] nextS_broken [OF a] nextS_broken [OF b] more
      by (auto simp: newMergedSeriesSet_def a b)
  qed (auto simp: newUniqueSeriesSet_def)
qed

text \<open>
  C26: no failure is lost: after the merged set has been read to its end, it reports an error if and only if
  one of the sources failed, however many sources there are and wherever the failed one is.
\<close>

theorem MergeSeriesSets_error:
  "errS (snd (drainS cmp (MergeSeriesSets cmp all))) \<longleftrightarrow> (\<exists>s \<in> set all. snd s)"
  using drainS_broken MergeSeriesSets_wf by blast

end
