(* ===== verification/Labelpb.thy ===== *)
theory Labelpb
  imports Label_Order
begin

unbundle bit_operations_syntax

text \<open>
  Label sets on the wire and in memory (\<^verbatim>\<open>pkg/store/labelpb/label.go\<close>): the allocation-free protobuf decoder
  \<^verbatim>\<open>ZLabel.Unmarshal\<close> with the generated \<^verbatim>\<open>skipTypes\<close> it calls, the merge of external labels, the hash
  with a prefix, and the order of label sets.

  A byte slice is a list of 8-bit words. Lengths and offsets are Go \<^verbatim>\<open>int\<close>s: sums that can overflow are
  taken modulo \<open>2 ^ 64\<close> and read as signed.
\<close>

type_synonym byte = "8 word"
type_synonym bytes = "byte list"

section \<open>Decoding\<close>

datatype pb_error =
    ErrIntOverflow | ErrUnexpectedEOF | ErrInvalidLength | ErrEndGroup | ErrIllegalTag | ErrWrongWireType
  | ErrIllegalWireType | ErrUnexpectedEndOfGroup

text \<open>
  The loops \<^verbatim>\<open>for shift := uint(0); ; shift += 7\<close>: the value and the bytes after it.
\<close>

fun decodeVarint :: "nat \<Rightarrow> 64 word \<Rightarrow> bytes \<Rightarrow> pb_error + 64 word \<times> bytes" where
  "decodeVarint shift v [] = Inl (if shift \<ge> 64 then ErrIntOverflow else ErrUnexpectedEOF)"
| "decodeVarint shift v (b # bs) =
     (if shift \<ge> 64 then Inl ErrIntOverflow
      else let v = v OR push_bit shift (ucast (b AND 0x7F))
           in if b < 0x80 then Inr (v, bs) else decodeVarint (shift + 7) v bs)"

text \<open>
  The sum of two non-negative \<^verbatim>\<open>int\<close>s is negative exactly when it reaches \<open>2 ^ 63\<close>.
\<close>

definition addOffset :: "nat \<Rightarrow> nat \<Rightarrow> nat option" where
  "addOffset i n = (if i + n \<ge> 2 ^ 63 then None else Some (i + n))"

lemma decodeVarint_consumes: "decodeVarint shift v bs = Inr (w, rest) \<Longrightarrow> length rest < length bs"
  by (induction shift v bs rule: decodeVarint.induct) (auto simp: Let_def split: if_splits)

text \<open>
  \<^verbatim>\<open>skipTypes\<close>: the number of bytes the field at the start of the slice takes. \<open>skipField\<close> is the switch over the
  wire type, with \<open>rest\<close> the bytes after the tag and \<open>i\<close> their offset.
\<close>

definition skipField :: "nat \<Rightarrow> nat \<Rightarrow> bytes \<Rightarrow> nat \<Rightarrow> pb_error + nat option \<times> nat" where
  "skipField wireType i rest depth =
     (if wireType = 0
      then (case decodeVarint 0 0 rest of
              Inl e \<Rightarrow> Inl e
            | Inr (_, rest') \<Rightarrow> Inr (Some (i + (length rest - length rest')), depth))
      else if wireType = 1 then Inr (addOffset i 8, depth)
      else if wireType = 2
      then (case decodeVarint 0 0 rest of
              Inl e \<Rightarrow> Inl e
            | Inr (v, rest') \<Rightarrow>
                if sint v < 0 then Inl ErrInvalidLength
                else Inr (addOffset (i + (length rest - length rest')) (unat v), depth))
      else if wireType = 3 then Inr (Some i, depth + 1)
      else if wireType = 4
      then (if depth = 0 then Inl ErrUnexpectedEndOfGroup else Inr (Some i, depth - 1))
      else if wireType = 5 then Inr (addOffset i 4, depth)
      else Inl ErrIllegalWireType)"

lemma skipField_forward: "skipField wt i rest depth = Inr (Some j, depth') \<Longrightarrow> i \<le> j"
  by (auto simp: skipField_def addOffset_def split: if_splits sum.splits)

function skipLoop :: "bytes \<Rightarrow> nat \<Rightarrow> nat \<Rightarrow> pb_error + nat" where
  "skipLoop data i depth =
     (if i < length data
      then case decodeVarint 0 0 (drop i data) of
             Inl e \<Rightarrow> Inl e
           | Inr (wire, rest) \<Rightarrow>
               (case skipField (unat (wire AND 0x7)) (length data - length rest) rest depth of
                  Inl e \<Rightarrow> Inl e
                | Inr (None, depth') \<Rightarrow> Inl ErrInvalidLength
                | Inr (Some j, depth') \<Rightarrow> if depth' = 0 then Inr j else skipLoop data j depth')
      else Inl ErrUnexpectedEOF)"
  by pat_completeness auto
termination
  by (relation "measure (\<lambda>(data, i, depth). length data - i)")
    (auto dest!: decodeVarint_consumes skipField_forward)

definition skipTypes :: "bytes \<Rightarrow> pb_error + nat" where
  "skipTypes data = skipLoop data 0 0"

declare skipLoop.simps [simp del]

lemma skipLoop_forward: "skipLoop data i depth = Inr j \<Longrightarrow> i < j"
proof (induction data i depth rule: skipLoop.induct)
  case (1 data i depth)
  obtain wire rest where d: "i < length data" "decodeVarint 0 0 (drop i data) = Inr (wire, rest)"
    using 1(2) by (subst (asm) skipLoop.simps) (auto split: if_splits sum.splits)
  obtain j' depth' where s: "skipField (unat (wire AND 0x7)) (length data - length rest) rest depth = Inr (Some j', depth')"
    and j: "if depth' = 0 then j' = j else skipLoop data j' depth' = Inr j"
    using 1(2) d by (subst (asm) skipLoop.simps) (auto split: if_splits sum.splits option.splits)
  have "i < j'" using decodeVarint_consumes [OF d(2)] skipField_forward [OF s] by auto
  moreover have "j' \<le> j"
  proof (cases "depth' = 0")
    case False
    then have "skipLoop data j' depth' = Inr j" using j by simp
    from 1(1) [OF d(1) d(2) refl s refl refl False this] show ?thesis by simp
  qed (use j in simp)
  ultimately show ?case by simp
qed

record zlabel =
  zName :: bytes
  zValue :: bytes

text \<open>
  The length-delimited field after a tag: \<open>l\<close> is the length of the whole message, \<open>rest\<close> what follows the tag.
\<close>

definition readBytes :: "nat \<Rightarrow> bytes \<Rightarrow> pb_error + bytes \<times> bytes" where
  "readBytes l rest =
     (case decodeVarint 0 0 rest of
        Inl e \<Rightarrow> Inl e
      | Inr (stringLen, rest) \<Rightarrow>
          if sint stringLen < 0 then Inl ErrInvalidLength
          else (case addOffset (l - length rest) (unat stringLen) of
                  None \<Rightarrow> Inl ErrInvalidLength
                | Some postIndex \<Rightarrow>
                    if postIndex > l then Inl ErrUnexpectedEOF
                    else Inr (take (unat stringLen) rest, drop (unat stringLen) rest)))"

lemma readBytes_consumes: "readBytes l rest = Inr (s, rest') \<Longrightarrow> length rest' < length rest"
  using decodeVarint_consumes by (fastforce simp: readBytes_def split: sum.splits prod.splits if_splits option.splits)

function unmarshalLoop :: "nat \<Rightarrow> zlabel \<Rightarrow> bytes \<Rightarrow> pb_error + zlabel" where
  "unmarshalLoop l m data =
     (if data = [] then Inr m
      else case decodeVarint 0 0 data of
             Inl e \<Rightarrow> Inl e
           | Inr (wire, rest) \<Rightarrow>
               let fieldNum = (ucast (drop_bit 3 wire) :: 32 word); wireType = unat (wire AND 0x7)
               in if wireType = 4 then Inl ErrEndGroup
                  else if sint fieldNum \<le> 0 then Inl ErrIllegalTag
                  else if fieldNum = 1
                  then (if wireType \<noteq> 2 then Inl ErrWrongWireType
                        else case readBytes l rest of
                               Inl e \<Rightarrow> Inl e
                             | Inr (s, rest) \<Rightarrow> unmarshalLoop l (m\<lparr>zName := s\<rparr>) rest)
                  else if fieldNum = 2
                  then (if wireType \<noteq> 2 then Inl ErrWrongWireType
                        else case readBytes l rest of
                               Inl e \<Rightarrow> Inl e
                             | Inr (s, rest) \<Rightarrow> unmarshalLoop l (m\<lparr>zValue := s\<rparr>) rest)
                  else case skipTypes data of
                         Inl e \<Rightarrow> Inl e
                       | Inr skippy \<Rightarrow>
                           (case addOffset (l - length data) skippy of
                              None \<Rightarrow> Inl ErrInvalidLength
                            | Some k \<Rightarrow>
                                if k > l then Inl ErrUnexpectedEOF
                                else unmarshalLoop l m (drop skippy data)))"
  by pat_completeness auto
termination
  by (relation "measure (\<lambda>(l, m, data). length data)")
    (auto dest!: decodeVarint_consumes readBytes_consumes skipLoop_forward simp: skipTypes_def)

declare unmarshalLoop.simps [simp del]

definition Unmarshal :: "bytes \<Rightarrow> zlabel \<Rightarrow> pb_error + zlabel" where
  "Unmarshal data m = unmarshalLoop (length data) m data"

section \<open>Round trip\<close>

text \<open>The protobuf wire format of the fields of a label, in any order and number.\<close>

function encodeVarint :: "64 word \<Rightarrow> bytes" where
  "encodeVarint v = (if v \<ge> 0x80 then (ucast (v AND 0x7F) OR 0x80) # encodeVarint (drop_bit 7 v) else [ucast v])"
  by pat_completeness auto
termination
proof (relation "measure unat", simp, goal_cases)
  case (1 v)
  then have "unat v \<ge> 128" by (simp add: word_le_nat_alt)
  then show ?case by (simp add: unat_div drop_bit_eq_div)
qed

declare encodeVarint.simps [simp del]

datatype wire_field = WName bytes | WValue bytes

fun wireField :: "wire_field \<Rightarrow> bytes" where
  "wireField (WName s) = 0x0A # encodeVarint (of_nat (length s)) @ s"
| "wireField (WValue s) = 0x12 # encodeVarint (of_nat (length s)) @ s"

fun setField :: "wire_field \<Rightarrow> zlabel \<Rightarrow> zlabel" where
  "setField (WName s) m = m\<lparr>zName := s\<rparr>"
| "setField (WValue s) m = m\<lparr>zValue := s\<rparr>"

lemma mask_7: "(0x7F :: 'a :: len word) = mask 7"
  by (simp add: mask_eq_exp_minus_1)

lemma bit_0x80: "bit (0x80 :: int) n \<longleftrightarrow> n = 7"
proof -
  have "bit (2 ^ 7 :: int) n \<longleftrightarrow> n = 7" by (subst bit_exp_iff) auto
  then show ?thesis by simp
qed

lemma low_bits: "(ucast (((ucast (v AND 0x7F) :: byte) OR 0x80) AND 0x7F) :: 64 word) = v AND 0x7F"
  for v :: "64 word"
  unfolding mask_7 by (rule bit_eqI) (auto simp: bit_simps bit_ucast_iff bit_0x80)

lemma high_byte: "\<not> (x OR 0x80 :: byte) < 0x80"
proof -
  have "0x80 \<le> (x OR 0x80 :: byte)" by (metis le_word_or1 le_word_or2 or.commute)
  then show ?thesis by simp
qed

lemma split_bits: "push_bit s (v AND 0x7F) OR push_bit (s + 7) (drop_bit 7 v) = push_bit s v" for v :: "64 word"
proof (rule bit_eqI)
  fix n
  show "bit (push_bit s (v AND 0x7F) OR push_bit (s + 7) (drop_bit 7 v)) n \<longleftrightarrow> bit (push_bit s v) n"
  proof (cases "s + 7 \<le> n")
    case True
    then have "7 + (n - (s + 7)) = n - s" by simp
    then show ?thesis unfolding mask_7 using True by (auto simp: bit_simps)
  next
    case False
    then show ?thesis unfolding mask_7 by (auto simp: bit_simps)
  qed
qed

lemma small_byte: "v < 0x80 \<Longrightarrow> (ucast v :: byte) < 0x80 \<and> ucast ((ucast v :: byte) AND 0x7F) = v" for v :: "64 word"
proof -
  assume "v < 0x80"
  then have v: "unat v < 128" by (simp add: word_less_nat_alt)
  have *: "unat (ucast v :: byte) = unat v" using v by (simp add: unsigned_ucast_eq take_bit_eq_mod)
  moreover have "unat (ucast ((ucast v :: byte) AND 0x7F) :: 64 word) = unat v"
    unfolding mask_7 take_bit_eq_mask [symmetric]
    using v * by (simp add: unsigned_ucast_eq unsigned_take_bit_eq take_bit_nat_eq_self)
  ultimately show ?thesis using v by (simp add: word_less_nat_alt word_unat_eq_iff)
qed

lemma drop_bit_fits:
  fixes v :: "64 word"
  assumes "v \<ge> 0x80" and "unat v < 2 ^ (64 - s)"
  shows "s < 57 \<and> unat (drop_bit 7 v) < 2 ^ (64 - (s + 7))"
proof -
  have big: "unat v \<ge> 2 ^ 7" using assms(1) by (simp add: word_le_nat_alt)
  have "(2 :: nat) ^ 7 < 2 ^ (64 - s)" using big assms(2) by linarith
  then have s: "7 < 64 - s" by (metis one_less_numeral_iff power_less_imp_less_exp semiring_norm(76))
  have "unat (drop_bit 7 v) = unat v div 2 ^ 7" by (simp add: unat_div drop_bit_eq_div)
  moreover have "(2 :: nat) ^ (64 - s) = 2 ^ (64 - (s + 7)) * 2 ^ 7"
    unfolding power_add [symmetric] using s by (intro arg_cong2 [where f = "(^)"]) auto
  then have "unat v < 2 ^ (64 - (s + 7)) * 2 ^ 7" using assms(2) by simp
  moreover have "s < 57" using s by linarith
  ultimately show ?thesis by (simp add: less_mult_imp_div_less)
qed

lemma decode_encode:
  "s < 64 \<Longrightarrow> unat v < 2 ^ (64 - s) \<Longrightarrow>
     decodeVarint s acc (encodeVarint v @ rest) = Inr (acc OR push_bit s v, rest)"
proof (induction v arbitrary: s acc rule: encodeVarint.induct)
  case (1 v)
  show ?case
  proof (cases "v \<ge> 0x80")
    case True
    with drop_bit_fits [OF True 1(3)] 1(1) [OF True, of "s + 7"]
    have "decodeVarint (s + 7) acc' (encodeVarint (drop_bit 7 v) @ rest) = Inr (acc' OR push_bit (s + 7) (drop_bit 7 v), rest)" for acc'
      by simp
    then show ?thesis
      using 1(2) True by (simp add: encodeVarint.simps [of v] low_bits high_byte or.assoc split_bits del: push_bit_and)
  next
    case False
    then have "encodeVarint v = [ucast v]" by (subst encodeVarint.simps) simp
    then show ?thesis using 1(2) small_byte [of v] False by (simp add: not_le Let_def)
  qed
qed

lemma readBytes_wire:
  assumes "length s < 2 ^ 63" and "length s + length rest \<le> l" and "l < 2 ^ 63"
  shows "readBytes l (encodeVarint (of_nat (length s)) @ s @ rest) = Inr (s, rest)"
proof -
  let ?v = "of_nat (length s) :: 64 word"
  have u: "unat ?v = length s" using assms(1) by (simp add: unat_of_nat)
  have "sint ?v = int (length s)"
    using assms(1) by (simp add: signed_of_nat signed_take_bit_int_eq_self)
  then show ?thesis
    using decode_encode [of 0 ?v 0 "s @ rest"] u assms
    by (auto simp: readBytes_def addOffset_def)
qed

lemma decodeVarint_tag: "b < 0x80 \<Longrightarrow> decodeVarint 0 0 (b # bs) = Inr (ucast (b AND 0x7F), bs)"
  by simp

lemma unmarshalLoop_field:
  assumes "length (wireField f @ rest) \<le> l" and "l < 2 ^ 63"
  shows "unmarshalLoop l m (wireField f @ rest) = unmarshalLoop l (setField f m) rest"
proof (cases f)
  case (WName s)
  have "readBytes l (encodeVarint (of_nat (length s)) @ s @ rest) = Inr (s, rest)"
    using assms WName by (intro readBytes_wire) auto
  then show ?thesis using WName by (subst unmarshalLoop.simps) simp
next
  case (WValue s)
  have "readBytes l (encodeVarint (of_nat (length s)) @ s @ rest) = Inr (s, rest)"
    using assms WValue by (intro readBytes_wire) auto
  then show ?thesis using WValue by (subst unmarshalLoop.simps) simp
qed

lemma unmarshalLoop_fields:
  "length (concat (map wireField fs)) \<le> l \<Longrightarrow> l < 2 ^ 63 \<Longrightarrow>
     unmarshalLoop l m (concat (map wireField fs)) = Inr (fold setField fs m)"
proof (induction fs arbitrary: m)
  case Nil
  then show ?case by (simp add: unmarshalLoop.simps)
next
  case (Cons f fs)
  then show ?case using unmarshalLoop_field [of f "concat (map wireField fs)" l m] by simp
qed

text \<open>
  C27: the hand-written decoder reads the wire format back: a message made of name and value fields, in any
  order and number, decodes without an error to the label in which every field has its last value.
\<close>

theorem Unmarshal_wire:
  assumes "length (concat (map wireField fs)) < 2 ^ 63"
  shows "Unmarshal (concat (map wireField fs)) m = Inr (fold setField fs m)"
  using assms unmarshalLoop_fields [of fs "length (concat (map wireField fs))" m] by (simp add: Unmarshal_def)

theorem Unmarshal_wire_witness:
  "length (concat (map wireField [WValue [1], WName [2, 3], WValue [4]])) < 2 ^ 63
   \<and> Unmarshal (concat (map wireField [WValue [1], WName [2, 3], WValue [4]])) \<lparr>zName = [], zValue = []\<rparr>
       = Inr \<lparr>zName = [2, 3], zValue = [4]\<rparr>"
proof -
  have "length (concat (map wireField [WValue [1], WName [2, 3], WValue [4]])) < 2 ^ 63"
    by (simp add: encodeVarint.simps)
  from Unmarshal_wire [OF this] this show ?thesis by simp
qed

section \<open>Labels in memory\<close>

fun ExtendSortedLabels :: "labels \<Rightarrow> labels \<Rightarrow> labels" where
  "ExtendSortedLabels [] ext = ext"
| "ExtendSortedLabels (l # lset) [] = l # lset"
| "ExtendSortedLabels (l # lset) (e # ext) =
     (if fst l = fst e then e # ExtendSortedLabels lset ext
      else if fst l < fst e then l # ExtendSortedLabels lset (e # ext)
      else e # ExtendSortedLabels (l # lset) ext)"

definition namesSorted :: "labels \<Rightarrow> bool" where
  "namesSorted ls = sorted_wrt (<) (map fst ls)"

text \<open>\<open>capacity\<close> is what \<^verbatim>\<open>cap(b)\<close> is after the prefix has been appended; at least 1024, more for a long prefix.\<close>

definition sepByte :: byte where
  "sepByte = 0xFF"

record 'h hasher =
  hSum64 :: "bytes \<Rightarrow> 64 word"
  hNew :: 'h
  hWrite :: "'h \<Rightarrow> bytes \<Rightarrow> 'h"
  hSum :: "'h \<Rightarrow> 64 word"

fun hashRest :: "'h hasher \<Rightarrow> 'h \<Rightarrow> zlabel list \<Rightarrow> 64 word" where
  "hashRest hs h [] = hSum hs h"
| "hashRest hs h (v # vs) =
     hashRest hs (hWrite hs (hWrite hs (hWrite hs (hWrite hs h (zName v)) [sepByte]) (zValue v)) [sepByte]) vs"

fun hashLoop :: "'h hasher \<Rightarrow> nat \<Rightarrow> bytes \<Rightarrow> zlabel list \<Rightarrow> 64 word" where
  "hashLoop hs capacity b [] = hSum64 hs b"
| "hashLoop hs capacity b (v # vs) =
     (if length b + length (zName v) + length (zValue v) + 2 \<ge> capacity
      then hashRest hs (hWrite hs (hNew hs) b) (v # vs)
      else hashLoop hs capacity (b @ zName v @ [sepByte] @ zValue v @ [sepByte]) vs)"

definition HashWithPrefix :: "'h hasher \<Rightarrow> nat \<Rightarrow> bytes \<Rightarrow> zlabel list \<Rightarrow> 64 word" where
  "HashWithPrefix hs capacity pre lbls = hashLoop hs capacity (pre @ [sepByte]) lbls"

text \<open>The documented relation between the streaming and the one-shot hash of the xxhash package.\<close>

definition streaming :: "'h hasher \<Rightarrow> bool" where
  "streaming hs \<longleftrightarrow> (\<forall>xs. hSum hs (foldl (hWrite hs) (hNew hs) xs) = hSum64 hs (concat xs))"

definition labelBytes :: "zlabel \<Rightarrow> bytes" where
  "labelBytes v = zName v @ [sepByte] @ zValue v @ [sepByte]"

fun bytesLess :: "bytes \<Rightarrow> bytes \<Rightarrow> bool" where
  "bytesLess a [] = False"
| "bytesLess [] (b # bs) = True"
| "bytesLess (a # as) (b # bs) = (a < b \<or> a = b \<and> bytesLess as bs)"

definition zlabelCompare :: "zlabel \<Rightarrow> zlabel \<Rightarrow> int" where
  "zlabelCompare m x =
     (if zName m \<noteq> zName x then (if bytesLess (zName m) (zName x) then - 1 else 1)
      else if zValue m = zValue x then 0
      else if bytesLess (zValue m) (zValue x) then - 1 else 1)"

fun lessSets :: "zlabel list \<Rightarrow> zlabel list \<Rightarrow> bool" where
  "lessSets (a # as) (b # bs) =
     (if zlabelCompare a b = 0 then lessSets as bs else zlabelCompare a b < 0)"
| "lessSets as bs = (as = [])"

subsection \<open>External labels and the hash\<close>

lemma ExtendSortedLabels_names:
  "fst ` set (ExtendSortedLabels lset ext) = fst ` set lset \<union> fst ` set ext"
  by (induction lset ext rule: ExtendSortedLabels.induct) auto

lemma ExtendSortedLabels_sorted:
  "namesSorted lset \<Longrightarrow> namesSorted ext \<Longrightarrow> namesSorted (ExtendSortedLabels lset ext)"
proof (induction lset ext rule: ExtendSortedLabels.induct)
  case (3 l lset e ext)
  have above: "\<forall>n \<in> fst ` set lset. fst l < n" "\<forall>n \<in> fst ` set ext. fst e < n"
    "namesSorted lset" "namesSorted ext"
    using 3(4,5) by (auto simp: namesSorted_def)
  have cons: "namesSorted (x # xs) \<longleftrightarrow> (\<forall>n \<in> fst ` set xs. fst x < n) \<and> namesSorted xs" for x xs
    by (auto simp: namesSorted_def)
  consider "fst l = fst e" | "fst l < fst e" | "fst e < fst l" using linorder_less_linear by blast
  then show ?case
  proof cases
    case 1
    then show ?thesis using 3(1) [OF 1 above(3,4)] above by (auto simp: cons ExtendSortedLabels_names)
  next
    case 2
    then show ?thesis using 3(2) [OF _ 2 above(3) 3(5)] above
      by (auto simp: cons ExtendSortedLabels_names intro: less_trans)
  next
    case l: 3
    then show ?thesis using 3(3) [OF _ _ 3(4) above(4)] above
      by (auto simp: cons ExtendSortedLabels_names intro: less_trans)
  qed
qed auto

lemma map_of_above: "\<forall>m \<in> fst ` set xs. n < m \<Longrightarrow> map_of xs n = None" for n :: string
  by (auto simp: map_of_eq_None_iff)

lemma ExtendSortedLabels_lookup:
  "namesSorted lset \<Longrightarrow> namesSorted ext \<Longrightarrow>
     map_of (ExtendSortedLabels lset ext) n = (case map_of ext n of Some v \<Rightarrow> Some v | None \<Rightarrow> map_of lset n)"
proof (induction lset ext rule: ExtendSortedLabels.induct)
  case (1 ext)
  then show ?case by (simp split: option.splits)
next
  case (3 l lset e ext)
  have above: "\<forall>n \<in> fst ` set lset. fst l < n" "\<forall>n \<in> fst ` set ext. fst e < n"
    "namesSorted lset" "namesSorted ext"
    using 3(4,5) by (auto simp: namesSorted_def)
  consider "fst l = fst e" | "fst l < fst e" | "fst e < fst l" using linorder_less_linear by blast
  then show ?case
  proof cases
    case 1
    then show ?thesis using 3(1) [OF 1 above(3,4)] by (cases l; cases e) (auto split: option.splits)
  next
    case 2
    then have "map_of (e # ext) (fst l) = None" using above(2) by (intro map_of_above) (auto intro: less_trans)
    then show ?thesis using 3(2) [OF _ 2 above(3) 3(5)] 2 by (cases l) (auto split: option.splits)
  next
    case l: 3
    then show ?thesis using 3(3) [OF _ _ 3(4) above(4)] by (cases e) (auto split: option.splits)
  qed
qed auto

text \<open>
  C28: extending a series by external labels yields a valid label set again: the names stay strictly sorted,
  an external label replaces a label of the same name, and no other label changes.
\<close>

theorem ExtendSortedLabels_overrides:
  assumes "namesSorted lset" and "namesSorted ext"
  shows "namesSorted (ExtendSortedLabels lset ext)
    \<and> map_of (ExtendSortedLabels lset ext) = map_of lset ++ map_of ext"
  using ExtendSortedLabels_sorted [OF assms] ExtendSortedLabels_lookup [OF assms]
  by (auto simp: map_add_def)

theorem ExtendSortedLabels_overrides_witness:
  "namesSorted [(''a'', ''1''), (''c'', ''2'')] \<and> namesSorted [(''b'', ''3''), (''c'', ''4'')]
   \<and> map_of (ExtendSortedLabels [(''a'', ''1''), (''c'', ''2'')] [(''b'', ''3''), (''c'', ''4'')]) ''c'' = Some ''4''"
proof -
  have "namesSorted [(''a'', ''1''), (''c'', ''2'')]" "namesSorted [(''b'', ''3''), (''c'', ''4'')]"
    by (simp_all add: namesSorted_def)
  with ExtendSortedLabels_overrides [OF this] show ?thesis by simp
qed

lemma hashRest_stream:
  "streaming hs \<Longrightarrow> hashRest hs (foldl (hWrite hs) (hNew hs) xs) vs = hSum64 hs (concat xs @ concat (map labelBytes vs))"
proof (induction vs arbitrary: xs)
  case Nil
  then show ?case by (simp add: streaming_def)
next
  case (Cons v vs)
  show ?case
    using Cons.IH [OF Cons.prems, of "xs @ [zName v, [sepByte], zValue v, [sepByte]]"] by (simp add: labelBytes_def)
qed

lemma hashLoop_once:
  "streaming hs \<Longrightarrow> hashLoop hs capacity b vs = hSum64 hs (b @ concat (map labelBytes vs))"
proof (induction vs arbitrary: b)
  case (Cons v vs)
  then show ?case
    using hashRest_stream [of hs "[b]" "v # vs"] by (simp add: labelBytes_def [abs_def] del: hashRest.simps)
qed simp

text \<open>
  C29: the two code paths of the hash agree: whatever the capacity of the buffer, and so whether or not the
  labels fit into it, the hash is the one-shot hash of the prefix and all labels with separators, so
  the same series is sent to the same receiver in every case.
\<close>

theorem HashWithPrefix_paths:
  assumes "streaming hs"
  shows "HashWithPrefix hs capacity pre lbls = hSum64 hs (pre @ [sepByte] @ concat (map labelBytes lbls))"
  using hashLoop_once [OF assms] by (simp add: HashWithPrefix_def)

definition sumHasher :: "64 word hasher" where
  "sumHasher = \<lparr>hSum64 = (\<lambda>bs. sum_list (map ucast bs)), hNew = 0,
     hWrite = (\<lambda>h bs. h + sum_list (map ucast bs)), hSum = id\<rparr>"

theorem HashWithPrefix_paths_witness:
  "streaming sumHasher \<and> HashWithPrefix sumHasher 3 [1] [\<lparr>zName = [2], zValue = [3]\<rparr>]
     = HashWithPrefix sumHasher 1024 [1] [\<lparr>zName = [2], zValue = [3]\<rparr>]"
proof -
  have "foldl (\<lambda>h bs. h + sum_list (map ucast bs)) a xs = a + (sum_list (map ucast (concat xs)) :: 64 word)"
    for a and xs :: "bytes list"
    by (induction xs arbitrary: a) (auto simp: add.assoc)
  then have "streaming sumHasher" by (simp add: streaming_def sumHasher_def)
  then show ?thesis using HashWithPrefix_paths by metis
qed

text \<open>\<^verbatim>\<open>ZLabelSets.Less\<close> is not a strict order: a label set is less than itself.\<close>

lemma lessSets_refl: "lessSets ls ls"
  by (induction ls) (simp_all add: zlabelCompare_def)

end
