(* ===== verification/Receive_Hashring.thy ===== *)
theory Receive_Hashring
  imports Labelpb "HOL-Library.AList"
begin

text \<open>
  Which receivers store a series (\<^verbatim>\<open>pkg/receive/hashring.go\<close>): the single-node ring, the simple ring that
  places a series by its hash, and the multi-tenant ring, which picks a simple ring by the tenant and
  remembers the choice in a cache.

  The hash is a \<^verbatim>\<open>uint64\<close> and \<^verbatim>\<open>hash + n\<close> wraps around. Sorting the labels of the series happens in place in
  the code; here \<open>GetN\<close> returns the series with its labels sorted. A \<^verbatim>\<open>Hashring\<close> value is one of the
  three types that implement the interface.
\<close>

type_synonym node = string
type_synonym tenant = bytes

record time_series =
  tsLabels :: "zlabel list"
  tsSamples :: "(int \<times> int) list"
  tsExemplars :: "(zlabel list \<times> int \<times> int) list"

datatype ring_error = InsufficientNodes "64 word" "64 word" | NoMatchingHashring

text \<open>
  The hash of a series: the xxhash package and, for each prefix, the capacity of the buffer after the
  prefix has been appended.
\<close>

record 'h ring_hash =
  rhHasher :: "'h hasher"
  rhCapacity :: "tenant \<Rightarrow> nat"

definition seriesHash :: "'h ring_hash \<Rightarrow> tenant \<Rightarrow> time_series \<Rightarrow> 64 word" where
  "seriesHash rh t ts = HashWithPrefix (rhHasher rh) (rhCapacity rh t) t (tsLabels ts)"

definition sortLabels :: "time_series \<Rightarrow> time_series" where
  "sortLabels ts = ts\<lparr>tsLabels := sort_slice (\<lambda>a b. bytesLess (zName a) (zName b)) (tsLabels ts)\<rparr>"

section \<open>Rings\<close>

definition singleGetN :: "node \<Rightarrow> time_series \<Rightarrow> 64 word \<Rightarrow> ring_error + node \<times> time_series" where
  "singleGetN s ts n = (if n > 0 then Inl (InsufficientNodes 1 (n + 1)) else Inr (s, ts))"

definition simpleGetN ::
  "'h ring_hash \<Rightarrow> node list \<Rightarrow> tenant \<Rightarrow> time_series \<Rightarrow> 64 word \<Rightarrow> ring_error + node \<times> time_series" where
  "simpleGetN rh s t ts n =
     (if n \<ge> of_nat (length s) then Inl (InsufficientNodes (of_nat (length s)) (n + 1))
      else let ts = sortLabels ts
           in Inr (s ! unat ((seriesHash rh t ts + n) mod of_nat (length s)), ts))"

record multi_hashring =
  mCache :: "(tenant \<times> node list) list"
  mHashrings :: "node list list"
  mTenantSets :: "tenant list option list"

text \<open>The loop over \<^verbatim>\<open>m.tenantSets\<close>; a ring without tenants matches every tenant.\<close>

fun matchTenant :: "tenant \<Rightarrow> tenant list option list \<Rightarrow> nat \<Rightarrow> nat option" where
  "matchTenant t [] i = None"
| "matchTenant t (None # sets) i = Some i"
| "matchTenant t (Some ts # sets) i = (if t \<in> set ts then Some i else matchTenant t sets (Suc i))"

definition multiGetN ::
  "'h ring_hash \<Rightarrow> multi_hashring \<Rightarrow> tenant \<Rightarrow> time_series \<Rightarrow> 64 word
     \<Rightarrow> (ring_error + node \<times> time_series) \<times> multi_hashring" where
  "multiGetN rh m t ts n =
     (case map_of (mCache m) t of
        Some h \<Rightarrow> (simpleGetN rh h t ts n, m)
      | None \<Rightarrow>
          (case matchTenant t (mTenantSets m) 0 of
             None \<Rightarrow> (Inl NoMatchingHashring, m)
           | Some i \<Rightarrow>
               (simpleGetN rh (mHashrings m ! i) t ts n,
                m\<lparr>mCache := AList.update t (mHashrings m ! i) (mCache m)\<rparr>)))"

record hashring_config =
  hcTenants :: "tenant list"
  hcEndpoints :: "node list"

definition newMultiHashring :: "hashring_config list \<Rightarrow> multi_hashring" where
  "newMultiHashring cfg =
     \<lparr>mCache = [], mHashrings = map hcEndpoints cfg,
      mTenantSets = map (\<lambda>h. if hcTenants h \<noteq> [] then Some (hcTenants h) else None) cfg\<rparr>"

datatype hashring = SingleNode node | SimpleRing "node list" | MultiRing multi_hashring

fun GetN ::
  "'h ring_hash \<Rightarrow> hashring \<Rightarrow> tenant \<Rightarrow> time_series \<Rightarrow> 64 word \<Rightarrow> (ring_error + node \<times> time_series) \<times> hashring" where
  "GetN rh (SingleNode s) t ts n = (singleGetN s ts n, SingleNode s)"
| "GetN rh (SimpleRing s) t ts n = (simpleGetN rh s t ts n, SimpleRing s)"
| "GetN rh (MultiRing m) t ts n = (let (r, m) = multiGetN rh m t ts n in (r, MultiRing m))"

text \<open>
  \<^verbatim>\<open>HashringFromConfig\<close> on the outcome of \<^verbatim>\<open>json.Unmarshal\<close>: \<open>Inr None\<close> is a nil ring without an error, because
  \<^verbatim>\<open>errors.Wrapf(nil, ...)\<close> is nil.
\<close>

definition HashringFromConfig :: "string + hashring_config list \<Rightarrow> string + hashring option" where
  "HashringFromConfig parsed =
     (case parsed of
        Inl e \<Rightarrow> Inl e
      | Inr config \<Rightarrow> if config = [] then Inr None else Inr (Some (MultiRing (newMultiHashring config))))"

text \<open>The nodes among which a hash places the series of a tenant, without a cache.\<close>

fun tenantNodes :: "hashring \<Rightarrow> tenant \<Rightarrow> node list option" where
  "tenantNodes (SingleNode s) t = None"
| "tenantNodes (SimpleRing s) t = Some s"
| "tenantNodes (MultiRing m) t = map_option ((!) (mHashrings m)) (matchTenant t (mTenantSets m) 0)"

definition configNodes :: "hashring_config list \<Rightarrow> tenant \<Rightarrow> node list option" where
  "configNodes cfg t =
     map_option hcEndpoints (List.find (\<lambda>h. hcTenants h = [] \<or> t \<in> set (hcTenants h)) cfg)"

definition coherentRing :: "multi_hashring \<Rightarrow> bool" where
  "coherentRing m \<longleftrightarrow>
     (\<forall>t h. map_of (mCache m) t = Some h \<longrightarrow> tenantNodes (MultiRing m) t = Some h)"

fun wfRing :: "hashring \<Rightarrow> bool" where
  "wfRing (MultiRing m) = coherentRing m"
| "wfRing _ = True"

fun getNs :: "'h ring_hash \<Rightarrow> hashring \<Rightarrow> (tenant \<times> time_series \<times> 64 word) list \<Rightarrow> (ring_error + node \<times> time_series) list" where
  "getNs rh h [] = []"
| "getNs rh h ((t, ts, n) # qs) = (let (r, h) = GetN rh h t ts n in r # getNs rh h qs)"

section \<open>The cache\<close>

lemma matchTenant_find:
  "map_option ((!) (xs @ map hcEndpoints cfg))
     (matchTenant t (map (\<lambda>h. if hcTenants h \<noteq> [] then Some (hcTenants h) else None) cfg) (length xs))
   = configNodes cfg t"
proof (induction cfg arbitrary: xs)
  case (Cons h cfg)
  from Cons [of "xs @ [hcEndpoints h]"] show ?case by (auto simp: configNodes_def)
qed (simp add: configNodes_def)

lemma tenantNodes_new: "tenantNodes (MultiRing (newMultiHashring cfg)) t = configNodes cfg t"
  using matchTenant_find [of "[]" cfg t] by (simp add: newMultiHashring_def)

lemma multiGetN_coherent:
  assumes "coherentRing m" and "multiGetN rh m t ts n = (r, m')"
  shows "coherentRing m' \<and> (\<forall>u. tenantNodes (MultiRing m') u = tenantNodes (MultiRing m) u)
    \<and> r = (case tenantNodes (MultiRing m) t of
             None \<Rightarrow> Inl NoMatchingHashring | Some h \<Rightarrow> simpleGetN rh h t ts n)"
proof (cases "map_of (mCache m) t")
  case None
  then show ?thesis
    using assms by (auto simp: multiGetN_def coherentRing_def update_conv' split: option.splits if_splits)
next
  case (Some h)
  then have "tenantNodes (MultiRing m) t = Some h"
    using assms(1) by (auto simp: coherentRing_def)
  then show ?thesis using assms Some by (auto simp: multiGetN_def)
qed

lemma multiRing_nodes_new: "coherentRing (newMultiHashring cfg)"
  by (simp add: coherentRing_def newMultiHashring_def)

lemma getNs_multi:
  "coherentRing m \<Longrightarrow> getNs rh (MultiRing m) qs =
     map (\<lambda>(t, ts, n). case tenantNodes (MultiRing m) t of
            None \<Rightarrow> Inl NoMatchingHashring | Some h \<Rightarrow> simpleGetN rh h t ts n) qs"
proof (induction qs arbitrary: m)
  case (Cons q qs)
  obtain t ts n where q: "q = (t, ts, n)" by (metis prod_cases3)
  obtain r m' where get: "multiGetN rh m t ts n = (r, m')" by fastforce
  from multiGetN_coherent [OF Cons.prems get] Cons.IH [of m'] show ?case
    by (simp add: q get del: tenantNodes.simps)
qed simp

text \<open>
  C32: the cache of the multi-tenant ring is invisible: whatever requests came before, a tenant is served by the
  first configured ring that lists it or has no tenants, and every series gets the node of that ring.
\<close>

theorem getNs_cache:
  "getNs rh (MultiRing (newMultiHashring cfg)) qs =
     map (\<lambda>(t, ts, n). case configNodes cfg t of
            None \<Rightarrow> Inl NoMatchingHashring | Some nodes \<Rightarrow> simpleGetN rh nodes t ts n) qs"
  using getNs_multi [OF multiRing_nodes_new] by (simp only: tenantNodes_new)

section \<open>Placement of the replicas\<close>

lemma simpleGetN_nth:
  assumes "n < length s" and "unat (seriesHash rh t (sortLabels ts)) + length s < 2 ^ 64"
  shows "simpleGetN rh s t ts (of_nat n) = Inr (rotate (unat (seriesHash rh t (sortLabels ts))) s ! n, sortLabels ts)"
proof -
  let ?h = "seriesHash rh t (sortLabels ts)"
  have n: "unat (of_nat n :: 64 word) = n" "unat (of_nat (length s) :: 64 word) = length s"
    using assms by (simp_all add: unsigned_of_nat take_bit_nat_eq_self)
  have "unat (?h + of_nat n) = unat ?h + n"
    using assms n by (subst unat_add_lem [THEN iffD1]) simp_all
  then have "unat ((?h + of_nat n) mod of_nat (length s)) = (unat ?h + n) mod length s"
    by (simp add: unat_mod n)
  moreover have "\<not> (of_nat n :: 64 word) \<ge> of_nat (length s)"
    using assms(1) n by (simp add: word_le_nat_alt)
  ultimately show ?thesis using assms(1) by (simp add: simpleGetN_def Let_def nth_rotate)
qed

text \<open>
  C33: as long as the hash and the size of the ring do not overflow 64 bits, the nodes of a series are the ring
  itself, rotated to the hash of the series: the nodes number \<open>0, 1, 2, ...\<close> of a series are
  pairwise different positions of the ring and every node is one of them.
\<close>

theorem simpleGetN_rotation:
  assumes "unat (seriesHash rh t (sortLabels ts)) + length s < 2 ^ 64"
  shows "map (\<lambda>n. simpleGetN rh s t ts (of_nat n)) [0..<length s]
    = map (\<lambda>v. Inr (v, sortLabels ts)) (rotate (unat (seriesHash rh t (sortLabels ts))) s)"
  using simpleGetN_nth [OF _ assms] by (intro nth_equalityI) auto

definition sumRing :: "64 word ring_hash" where
  "sumRing = \<lparr>rhHasher = sumHasher, rhCapacity = (\<lambda>_. 1024)\<rparr>"

definition seriesOf :: "byte \<Rightarrow> time_series" where
  "seriesOf b = \<lparr>tsLabels = [\<lparr>zName = [b], zValue = [b]\<rparr>], tsSamples = [(1, 1)], tsExemplars = []\<rparr>"

lemma seriesOf_sorted: "sortLabels (seriesOf b) = seriesOf b"
  by (simp add: sortLabels_def seriesOf_def sort_slice_Cons)

lemma seriesOf_hash: "seriesHash sumRing t (seriesOf b) = sum_list (map ucast t) + 0x2FD + 2 * ucast b"
  by (simp add: seriesHash_def sumRing_def seriesOf_def HashWithPrefix_def sumHasher_def sepByte_def)

theorem simpleGetN_rotation_witness:
  "unat (seriesHash sumRing [] (sortLabels (seriesOf 1))) + length [''a'', ''b'', ''c''] < 2 ^ 64
   \<and> map (\<lambda>n. simpleGetN sumRing [''a'', ''b'', ''c''] [] (seriesOf 1) (of_nat n)) [0..<3]
     = map (\<lambda>v. Inr (v, seriesOf 1)) [''c'', ''a'', ''b'']"
proof -
  have "unat (seriesHash sumRing [] (sortLabels (seriesOf 1))) = 767"
    by (simp add: seriesOf_sorted seriesOf_hash)
  moreover have "rotate 767 [''a'', ''b'', ''c''] = [''c'', ''a'', ''b'']"
    by (simp add: rotate_drop_take)
  ultimately show ?thesis
    using simpleGetN_rotation [of sumRing "[]" "seriesOf 1" "[''a'', ''b'', ''c'']"] by (simp add: seriesOf_sorted upt_rec)
qed

text \<open>At the end of the range of the hash the sum wraps around, and two replicas of a series share a node.\<close>

lemma simpleGetN_wraps:
  assumes "seriesHash rh t (sortLabels ts) = - 1"
  shows "simpleGetN rh [a, b, c] t ts 0 = simpleGetN rh [a, b, c] t ts 1"
  by (simp add: simpleGetN_def assms word_le_nat_alt)

text \<open>An empty configuration gives a nil ring and no error.\<close>

lemma HashringFromConfig_empty: "HashringFromConfig (Inr []) = Inr None"
  by (simp add: HashringFromConfig_def)

end
