(* ===== verification/Receive_Handler.thy ===== *)
theory Receive_Handler
  imports Receive_Hashring
begin

text \<open>
  Replicated writes (\<^verbatim>\<open>pkg/receive/handler.go\<close>, \<^verbatim>\<open>pkg/receive/writer.go\<close>): a write request is split by the hash ring
  into batches, every batch is replicated to several nodes concurrently, and the request succeeds once a
  quorum of the nodes of every batch has acknowledged it.

  Every goroutine of \<^verbatim>\<open>fanoutForward\<close> is a value with its stage; the goroutines, the loop that collects their
  results over the unbuffered channel, and the goroutines of nested calls of \<^verbatim>\<open>replicate\<close> advance in any
  order (\<open>goStep\<close>, \<open>fanStep\<close>). The network, the clock and the storage may answer anything. The hash ring
  is not exchanged during a request.
\<close>

section \<open>Errors\<close>

datatype grpc_code = Unavailable | AlreadyExists | InvalidArgument | Internal | OtherCode

datatype werr =
    ErrConflict | ErrNotReady | ErrUnavailable | ErrBadReplica
  | ErrDuplicateSample | ErrOutOfOrderSample | ErrOutOfBounds | ErrTsdbNotReady
  | ErrOutOfOrderExemplar | ErrDuplicateExemplar | ErrExemplarLabelLength
  | Status grpc_code | RingError ring_error | HashringNotReady | DeadlineExceeded | IndexPanic | OtherErr string
  | Wrap werr
  | Multi "werr list"

fun cause :: "werr \<Rightarrow> werr" where
  "cause (Wrap e) = cause e"
| "cause e = e"

fun addErr :: "werr list \<Rightarrow> werr \<Rightarrow> werr list" where
  "addErr es (Multi es') = es @ es'"
| "addErr es e = es @ [e]"

definition errsErr :: "werr list \<Rightarrow> werr option" where
  "errsErr es = (if es = [] then None else Some (Multi es))"

definition isConflict :: "werr \<Rightarrow> bool" where
  "isConflict e \<longleftrightarrow>
     e \<in> {ErrConflict, ErrDuplicateSample, ErrOutOfOrderSample, ErrOutOfBounds, Status AlreadyExists}"

definition isNotReady :: "werr \<Rightarrow> bool" where
  "isNotReady e \<longleftrightarrow> e \<in> {ErrNotReady, ErrTsdbNotReady, Status Unavailable}"

definition isUnavailable :: "werr \<Rightarrow> bool" where
  "isUnavailable e \<longleftrightarrow> e \<in> {ErrUnavailable, Status Unavailable}"

definition expectedErrors :: "werr list \<Rightarrow> (werr \<times> nat) list" where
  "expectedErrors errs =
     map (\<lambda>(e, is). (e, length (filter (\<lambda>x. is (cause x)) errs)))
       [(ErrConflict, isConflict), (ErrNotReady, isNotReady), (ErrUnavailable, isUnavailable)]"

definition determineWriteErrorCause :: "werr option \<Rightarrow> int \<Rightarrow> werr option" where
  "determineWriteErrorCause err threshold =
     (case err of
        None \<Rightarrow> None
      | Some e \<Rightarrow>
          let errs = (case cause e of Multi es \<Rightarrow> es | u \<Rightarrow> [u])
          in if errs = [] then None
             else if threshold < 1 then err
             else let (s, n) = hd (sort_slice (\<lambda>a b. snd b < snd a) (expectedErrors errs))
                  in if int n \<ge> threshold then Some s else err)"

definition receiveCode :: "werr option \<Rightarrow> nat" where
  "receiveCode err =
     (case determineWriteErrorCause err 1 of
        None \<Rightarrow> 200
      | Some ErrNotReady \<Rightarrow> 503
      | Some ErrUnavailable \<Rightarrow> 503
      | Some ErrConflict \<Rightarrow> 409
      | Some ErrBadReplica \<Rightarrow> 400
      | Some _ \<Rightarrow> 500)"

definition remoteWriteCode :: "werr option \<Rightarrow> grpc_code option" where
  "remoteWriteCode err =
     (case determineWriteErrorCause err 1 of
        None \<Rightarrow> None
      | Some ErrNotReady \<Rightarrow> Some Unavailable
      | Some ErrUnavailable \<Rightarrow> Some Unavailable
      | Some ErrConflict \<Rightarrow> Some AlreadyExists
      | Some ErrBadReplica \<Rightarrow> Some InvalidArgument
      | Some _ \<Rightarrow> Some Internal)"

section \<open>Writing locally\<close>

text \<open>
  The appender of the tenant's TSDB is library code: the outcome of its \<open>k\<close>-th call is an arbitrary function.
\<close>

record appender =
  apTenant :: "werr option"
  apOpen :: "werr option"
  apGetRef :: "nat \<Rightarrow> 64 word"
  apAppend :: "nat \<Rightarrow> 64 word \<times> werr option"
  apExemplar :: "nat \<Rightarrow> werr option"
  apCommit :: "werr option"

text \<open>A multi-error comes from \<^verbatim>\<open>MultiError.Err\<close>, which returns nil for an empty list.\<close>

definition nonEmpty :: "werr \<Rightarrow> bool" where
  "nonEmpty e \<longleftrightarrow> cause e \<noteq> Multi []"

definition soundAppender :: "appender \<Rightarrow> bool" where
  "soundAppender ap \<longleftrightarrow> pred_option nonEmpty (apTenant ap) \<and> pred_option nonEmpty (apOpen ap)"

record write_counts =
  numOutOfOrder :: nat
  numDuplicates :: nat
  numOutOfBounds :: nat
  numExemplarsOutOfOrder :: nat
  numExemplarsDuplicate :: nat
  numExemplarsLabelLength :: nat

definition countSample :: "werr option \<Rightarrow> write_counts \<Rightarrow> write_counts" where
  "countSample err c =
     (if err = Some ErrOutOfOrderSample then c\<lparr>numOutOfOrder := Suc (numOutOfOrder c)\<rparr>
      else if err = Some ErrDuplicateSample then c\<lparr>numDuplicates := Suc (numDuplicates c)\<rparr>
      else if err = Some ErrOutOfBounds then c\<lparr>numOutOfBounds := Suc (numOutOfBounds c)\<rparr>
      else c)"

definition countExemplar :: "werr option \<Rightarrow> write_counts \<Rightarrow> write_counts" where
  "countExemplar err c =
     (if err = Some ErrOutOfOrderExemplar then c\<lparr>numExemplarsOutOfOrder := Suc (numExemplarsOutOfOrder c)\<rparr>
      else if err = Some ErrDuplicateExemplar then c\<lparr>numExemplarsDuplicate := Suc (numExemplarsDuplicate c)\<rparr>
      else if err = Some ErrExemplarLabelLength then c\<lparr>numExemplarsLabelLength := Suc (numExemplarsLabelLength c)\<rparr>
      else c)"

fun appendSamples ::
  "appender \<Rightarrow> nat \<Rightarrow> 64 word \<Rightarrow> write_counts \<Rightarrow> (int \<times> int) list \<Rightarrow> nat \<times> 64 word \<times> write_counts" where
  "appendSamples ap k ref c [] = (k, ref, c)"
| "appendSamples ap k ref c (s # ss) =
     (let (ref, err) = apAppend ap k in appendSamples ap (Suc k) ref (countSample err c) ss)"

fun appendExemplars ::
  "appender \<Rightarrow> nat \<Rightarrow> write_counts \<Rightarrow> (zlabel list \<times> int \<times> int) list \<Rightarrow> nat \<times> write_counts" where
  "appendExemplars ap k c [] = (k, c)"
| "appendExemplars ap k c (e # es) = appendExemplars ap (Suc k) (countExemplar (apExemplar ap k) c) es"

fun writeLoop :: "appender \<Rightarrow> nat \<Rightarrow> write_counts \<Rightarrow> time_series list \<Rightarrow> write_counts" where
  "writeLoop ap k c [] = c"
| "writeLoop ap k c (t # ts) =
     (let (k1, ref, c) = appendSamples ap (Suc k) (apGetRef ap k) c (tsSamples t);
          (k2, c) = (if ref \<noteq> 0 \<and> tsExemplars t \<noteq> [] then appendExemplars ap k1 c (tsExemplars t) else (k1, c))
      in writeLoop ap k2 c ts)"

definition writeErrs :: "write_counts \<Rightarrow> werr list" where
  "writeErrs c =
     map (Wrap \<circ> fst) (filter (\<lambda>p. snd p > 0)
       [(ErrOutOfOrderSample, numOutOfOrder c), (ErrDuplicateSample, numDuplicates c),
        (ErrOutOfBounds, numOutOfBounds c), (ErrOutOfOrderExemplar, numExemplarsOutOfOrder c),
        (ErrDuplicateExemplar, numExemplarsDuplicate c), (ErrExemplarLabelLength, numExemplarsLabelLength c)])"

definition Write :: "appender \<Rightarrow> time_series list \<Rightarrow> werr option" where
  "Write ap wreq =
     (case apTenant ap of
        Some e \<Rightarrow> Some (Wrap e)
      | None \<Rightarrow>
          (case apOpen ap of
             Some e \<Rightarrow> Some (if e = ErrTsdbNotReady then e else Wrap e)
           | None \<Rightarrow>
               let errs = writeErrs (writeLoop ap 0 \<lparr>numOutOfOrder = 0, numDuplicates = 0, numOutOfBounds = 0,
                            numExemplarsOutOfOrder = 0, numExemplarsDuplicate = 0, numExemplarsLabelLength = 0\<rparr> wreq)
               in errsErr (case apCommit ap of None \<Rightarrow> errs | Some e \<Rightarrow> errs @ [Wrap e])))"

section \<open>Requests\<close>

datatype receiver_mode = RouterOnly | IngestorOnly | RouterIngestor

record handler_options =
  hEndpoint :: node
  hReplicationFactor :: "64 word"
  hMode :: receiver_mode

datatype replica = Replica (repN: "64 word") (replicated: bool)

definition writeQuorum :: "handler_options \<Rightarrow> int" where
  "writeQuorum opts = sint (hReplicationFactor opts div 2 + 1)"

datatype stage = Start | Allowed | Waiting | Sending "werr option" | Finished "werr option"

text \<open>
  A call of \<^verbatim>\<open>fanoutForward\<close>: the success threshold, its goroutines, the successes and errors so far, and what it
  returned, if it has returned. A goroutine has an endpoint, a replica number, a batch, a stage, and the
  nested call it runs, if it replicates.
\<close>

datatype go = Go (goEndpoint: node) (goReplica: replica) (goBatch: "time_series list") (goStage: stage) (goSub: "fan option")
  and fan = Fan (fanThreshold: int) (fanGos: "go list") (fanSuccess: nat) (fanErrs: "werr list")
      (fanRet: "werr option option")

record world =
  wRing :: "hashring option"
  wConns :: "node list"
  wPeers :: "(node \<times> nat \<times> int) list"
  wAcks :: "(node \<times> time_series list) list"

record 'h recv_env =
  eHash :: "'h ring_hash"
  eOptions :: handler_options
  eTenant :: tenant
  eBackoff :: "nat \<Rightarrow> int"
  eTimeout :: bool

definition newFan :: "int \<Rightarrow> (node \<times> replica \<times> time_series list) list \<Rightarrow> fan" where
  "newFan k jobs = Fan k (map (\<lambda>(ep, r, b). Go ep r b Start None) jobs) 0 [] None"

definition requestReplica :: "handler_options \<Rightarrow> 64 word \<Rightarrow> werr + replica" where
  "requestReplica opts rep =
     (let rep = (if hMode opts = RouterOnly \<or> hMode opts = IngestorOnly then 0 else rep)
      in if rep > hReplicationFactor opts then Inl ErrBadReplica
         else Inr (if rep \<noteq> 0 then Replica (rep - 1) True else Replica rep False))"

definition addToBatch :: "node \<Rightarrow> time_series \<Rightarrow> (node \<times> time_series list) list \<Rightarrow> (node \<times> time_series list) list" where
  "addToBatch ep ts bs = AList.update ep ((case map_of bs ep of None \<Rightarrow> [] | Some b \<Rightarrow> b) @ [ts]) bs"

fun batchLoop ::
  "'h ring_hash \<Rightarrow> tenant \<Rightarrow> 64 word \<Rightarrow> time_series list \<Rightarrow> (node \<times> time_series list) list \<Rightarrow> hashring
     \<Rightarrow> (werr + (node \<times> time_series list) list) \<times> hashring" where
  "batchLoop rh t n [] bs ring = (Inr bs, ring)"
| "batchLoop rh t n (ts # tss) bs ring =
     (case GetN rh ring t ts n of
        (Inl e, ring) \<Rightarrow> (Inl (RingError e), ring)
      | (Inr (ep, ts), ring) \<Rightarrow> batchLoop rh t n tss (addToBatch ep ts bs) ring)"

definition forwardStart :: "'h recv_env \<Rightarrow> replica \<Rightarrow> time_series list \<Rightarrow> world \<Rightarrow> (werr + fan) \<times> world" where
  "forwardStart env r wreq w =
     (case wRing w of
        None \<Rightarrow> (Inl HashringNotReady, w)
      | Some ring \<Rightarrow>
          (case batchLoop (eHash env) (eTenant env) (repN r) wreq [] ring of
             (Inl e, ring) \<Rightarrow> (Inl e, w\<lparr>wRing := Some ring\<rparr>)
           | (Inr bs, ring) \<Rightarrow>
               (Inr (newFan (int (length bs)) (map (\<lambda>(ep, b). (ep, r, b)) bs)), w\<lparr>wRing := Some ring\<rparr>)))"

definition handleRequest :: "'h recv_env \<Rightarrow> 64 word \<Rightarrow> time_series list \<Rightarrow> world \<Rightarrow> (werr + fan) \<times> world" where
  "handleRequest env rep wreq w =
     (case requestReplica (eOptions env) rep of
        Inl e \<Rightarrow> (Inl e, w)
      | Inr r \<Rightarrow> forwardStart env r wreq w)"

text \<open>
  The loop of \<^verbatim>\<open>replicate\<close> over the replica numbers. It asks for the nodes of the first series of the batch, whose
  labels are sorted in place.
\<close>

fun replicateLoop ::
  "'h ring_hash \<Rightarrow> tenant \<Rightarrow> nat list \<Rightarrow> time_series list \<Rightarrow> (node \<times> replica) list \<Rightarrow> hashring
     \<Rightarrow> (werr + time_series list \<times> (node \<times> replica) list) \<times> hashring" where
  "replicateLoop rh t [] wreq reps ring = (Inr (wreq, reps), ring)"
| "replicateLoop rh t (i # is) [] reps ring = (Inl IndexPanic, ring)"
| "replicateLoop rh t (i # is) (ts # wreq) reps ring =
     (case GetN rh ring t ts (of_nat i) of
        (Inl e, ring) \<Rightarrow> (Inl (RingError e), ring)
      | (Inr (ep, ts), ring) \<Rightarrow>
          replicateLoop rh t is (ts # wreq) (AList.update ep (Replica (of_nat i) True) reps) ring)"

definition replicateStart :: "'h recv_env \<Rightarrow> time_series list \<Rightarrow> world \<Rightarrow> (werr + time_series list \<times> fan) \<times> world" where
  "replicateStart env wreq w =
     (case wRing w of
        None \<Rightarrow> (Inl HashringNotReady, w)
      | Some ring \<Rightarrow>
          (case replicateLoop (eHash env) (eTenant env) [0..<unat (hReplicationFactor (eOptions env))] wreq [] ring of
             (Inl e, ring) \<Rightarrow> (Inl e, w\<lparr>wRing := Some ring\<rparr>)
           | (Inr (wreq, reps), ring) \<Rightarrow>
               (Inr (wreq, newFan (writeQuorum (eOptions env)) (map (\<lambda>(ep, r). (ep, r, wreq)) reps)),
                w\<lparr>wRing := Some ring\<rparr>)))"

definition replicateResult :: "int \<Rightarrow> werr option \<Rightarrow> werr option" where
  "replicateResult quorum res =
     (case res of
        None \<Rightarrow> None
      | Some e \<Rightarrow> map_option Wrap (determineWriteErrorCause (Some e) quorum))"

section \<open>The fan-out\<close>

definition mustReplicate :: "handler_options \<Rightarrow> replica \<Rightarrow> bool" where
  "mustReplicate opts r \<longleftrightarrow> \<not> replicated r \<and> hReplicationFactor opts > 1"

definition bumpPeer :: "(nat \<Rightarrow> int) \<Rightarrow> int \<Rightarrow> node \<Rightarrow> (node \<times> nat \<times> int) list \<Rightarrow> (node \<times> nat \<times> int) list" where
  "bumpPeer backoff now ep ps =
     (case map_of ps ep of
        Some (attempt, _) \<Rightarrow> AList.update ep (Suc attempt, now + backoff (Suc attempt)) ps
      | None \<Rightarrow> AList.update ep (0, now + backoff 0) ps)"

definition backingOff :: "int \<Rightarrow> node \<Rightarrow> (node \<times> nat \<times> int) list \<Rightarrow> bool" where
  "backingOff now ep ps = (case map_of ps ep of Some (_, nextAllowed) \<Rightarrow> now < nextAllowed | None \<Rightarrow> False)"

inductive goStep :: "'h recv_env \<Rightarrow> world \<Rightarrow> go \<Rightarrow> world \<Rightarrow> go \<Rightarrow> bool"
  and fanStep :: "'h recv_env \<Rightarrow> world \<Rightarrow> fan \<Rightarrow> world \<Rightarrow> fan \<Rightarrow> bool"
  for env :: "'h recv_env" where
  replicate_fails:
    "mustReplicate (eOptions env) r \<Longrightarrow> replicateStart env b w = (Inl e, w') \<Longrightarrow>
     goStep env w (Go ep r b Start None) w' (Go ep r b (Sending (Some (Wrap e))) None)"
| replicate_starts:
    "mustReplicate (eOptions env) r \<Longrightarrow> replicateStart env b w = (Inr (b', f), w') \<Longrightarrow>
     goStep env w (Go ep r b Start None) w' (Go ep r b' Waiting (Some f))"
| replicate_works:
    "fanStep env w f w' f' \<Longrightarrow> goStep env w (Go ep r b st (Some f)) w' (Go ep r b st (Some f'))"
| replicate_returns:
    "fanRet f = Some res \<Longrightarrow>
     goStep env w (Go ep r b Waiting (Some f)) w
       (Go ep r b (Sending (map_option Wrap (replicateResult (writeQuorum (eOptions env)) res))) (Some f))"
| local_write:
    "\<not> mustReplicate (eOptions env) r \<Longrightarrow> ep = hEndpoint (eOptions env) \<Longrightarrow> soundAppender ap \<Longrightarrow> res = Write ap b \<Longrightarrow>
     goStep env w (Go ep r b Start None)
       (if res = None then w\<lparr>wAcks := (ep, b) # wAcks w\<rparr> else w)
       (Go ep r b (Sending (map_option Wrap (determineWriteErrorCause res 1))) None)"
| dial_fails:
    "\<not> mustReplicate (eOptions env) r \<Longrightarrow> ep \<noteq> hEndpoint (eOptions env) \<Longrightarrow> ep \<notin> set (wConns w) \<Longrightarrow>
     goStep env w (Go ep r b Start None) w (Go ep r b (Sending (Some (Wrap (Wrap e)))) None)"
| backs_off:
    "\<not> mustReplicate (eOptions env) r \<Longrightarrow> ep \<noteq> hEndpoint (eOptions env) \<Longrightarrow> backingOff now ep (wPeers w) \<Longrightarrow>
     goStep env w (Go ep r b Start None) (w\<lparr>wConns := List.insert ep (wConns w)\<rparr>)
       (Go ep r b (Sending (Some (Wrap ErrUnavailable))) None)"
| allowed:
    "\<not> mustReplicate (eOptions env) r \<Longrightarrow> ep \<noteq> hEndpoint (eOptions env) \<Longrightarrow> \<not> backingOff now ep (wPeers w) \<Longrightarrow>
     goStep env w (Go ep r b Start None) (w\<lparr>wConns := List.insert ep (wConns w)\<rparr>) (Go ep r b Allowed None)"
| remote_ok:
    "goStep env w (Go ep r b Allowed None)
       (w\<lparr>wPeers := AList.delete ep (wPeers w), wAcks := (ep, b) # wAcks w\<rparr>) (Go ep r b (Sending None) None)"
| remote_fails:
    "goStep env w (Go ep r b Allowed None)
       (if e = Status Unavailable then w\<lparr>wPeers := bumpPeer (eBackoff env) now ep (wPeers w)\<rparr> else w)
       (Go ep r b (Sending (Some (Wrap e))) None)"
| works:
    "goStep env w g w' g' \<Longrightarrow> fanStep env w (Fan k (xs @ g # ys) n es ret) w' (Fan k (xs @ g' # ys) n es ret)"
| receive_ok:
    "fanStep env w (Fan k (xs @ Go ep r b (Sending None) sub # ys) n es None) w
       (Fan k (xs @ Go ep r b (Finished None) sub # ys) (Suc n) es (if int (Suc n) \<ge> k then Some None else None))"
| receive_error:
    "fanStep env w (Fan k (xs @ Go ep r b (Sending (Some e)) sub # ys) n es None) w
       (Fan k (xs @ Go ep r b (Finished (Some e)) sub # ys) n (addErr es e) None)"
| drain:
    "fanStep env w (Fan k (xs @ Go ep r b (Sending res) sub # ys) n es (Some v)) w
       (Fan k (xs @ Go ep r b (Finished res) sub # ys) n es (Some v))"
| closed:
    "\<forall>g \<in> set gs. \<exists>res. goStage g = Finished res \<Longrightarrow>
     fanStep env w (Fan k gs n es None) w (Fan k gs n es (Some (errsErr es)))"
| timeout:
    "eTimeout env \<Longrightarrow> fanStep env w (Fan k gs n es None) w (Fan k gs n es (Some (Some DeadlineExceeded)))"

section \<open>Errors across nodes\<close>

lemma determine_single:
  "cause e = u \<Longrightarrow> (\<forall>es. u \<noteq> Multi es) \<Longrightarrow>
     determineWriteErrorCause (Some e) 1 =
       Some (if isConflict u then ErrConflict else if isNotReady u then ErrNotReady
             else if isUnavailable u then ErrUnavailable else e)"
proof -
  assume "cause e = u" "\<forall>es. u \<noteq> Multi es"
  moreover from this have "cause u = u" by (induction e rule: cause.induct) auto
  moreover have "(case u of Multi es \<Rightarrow> es | u \<Rightarrow> [u]) = [u]" using calculation(2) by (cases u) auto
  ultimately show ?thesis
    by (auto simp: determineWriteErrorCause_def expectedErrors_def sort_slice_Cons isConflict_def isNotReady_def isUnavailable_def)
qed

text \<open>
  C31: an error keeps its meaning on its way through the ring, with one exception: if a node answers a
  forwarded request with a gRPC status, the node that forwarded it, which sees only that status, answers
  its client with the same HTTP code the first node would have used, unless the error is a replica number
  above the replication factor: the first node would have answered 400, the forwarding node answers 500.
\<close>

theorem remoteWrite_class:
  assumes "remoteWriteCode err = Some code"
  shows "(determineWriteErrorCause err 1 \<noteq> Some ErrBadReplica \<longrightarrow>
        receiveCode (Some (Wrap (Status code))) = receiveCode err)
    \<and> (determineWriteErrorCause err 1 = Some ErrBadReplica \<longrightarrow>
        receiveCode err = 400 \<and> receiveCode (Some (Wrap (Status code))) = 500)"
proof -
  have "receiveCode (Some (Wrap (Status code))) =
      (if code = Unavailable then 503 else if code = AlreadyExists then 409 else 500)"
    by (simp add: receiveCode_def determine_single isConflict_def isNotReady_def isUnavailable_def)
  with assms show ?thesis
    by (cases "determineWriteErrorCause err 1"; cases "the (determineWriteErrorCause err 1)")
      (auto simp: remoteWriteCode_def receiveCode_def)
qed

theorem remoteWrite_class_witness:
  "remoteWriteCode (Some (Wrap ErrOutOfBounds)) = Some AlreadyExists
   \<and> receiveCode (Some (Wrap (Status AlreadyExists))) = receiveCode (Some (Wrap ErrOutOfBounds))"
proof -
  have "determineWriteErrorCause (Some (Wrap ErrOutOfBounds)) 1 = Some ErrConflict"
    by (simp add: determine_single isConflict_def)
  then show ?thesis
    using remoteWrite_class [of "Some (Wrap ErrOutOfBounds)" AlreadyExists] by (simp add: remoteWriteCode_def)
qed

text \<open>An error of the appender that is none of the expected ones is dropped: the write reports success.\<close>

lemma Write_drops_unknown_errors:
  assumes "apTenant ap = None" and "apOpen ap = None" and "apCommit ap = None"
    and "apGetRef ap = (\<lambda>_. 0)" and "apAppend ap = (\<lambda>_. (0, Some (OtherErr msg)))"
  shows "Write ap wreq = None"
proof -
  have samples: "\<exists>k'. appendSamples ap k 0 c ss = (k', 0, c)" for k c ss
    by (induction ss arbitrary: k) (auto simp: assms(5) countSample_def)
  have "writeLoop ap k c wreq = c" for k c
  proof (induction wreq arbitrary: k)
    case (Cons t ts)
    obtain k' where "appendSamples ap (Suc k) 0 c (tsSamples t) = (k', 0, c)" using samples by blast
    with Cons show ?case by (simp add: assms(4))
  qed simp
  with assms(1-3) show ?thesis by (simp add: Write_def writeErrs_def errsErr_def)
qed

end
