(* ===== verification/Receive_Quorum.thy ===== *)
theory Receive_Quorum
  imports Receive_Handler
begin

text \<open>
  What a receiver's answer to a write means. \<open>stepRel\<close> is one step of any goroutine of a request; the invariants
  below hold in every state that any interleaving reaches. They give the safety of acknowledged writes
  (\<open>handleRequest_quorum\<close>) and, with a measure of the work that is left, that every request is answered
  (\<open>handleRequest_returns\<close>).
\<close>

section \<open>Invariants\<close>

text \<open>The ring places the series of the tenant on the nodes \<open>s\<close>.\<close>

definition ringServes :: "hashring \<Rightarrow> tenant \<Rightarrow> node list \<Rightarrow> bool" where
  "ringServes ring t s \<longleftrightarrow> wfRing ring \<and> tenantNodes ring t = Some s"

definition served :: "'h recv_env \<Rightarrow> node list \<Rightarrow> world \<Rightarrow> bool" where
  "served env s w \<longleftrightarrow> (\<exists>ring. wRing w = Some ring \<and> ringServes ring (eTenant env) s)"

text \<open>What the counters of a fan-out say about its goroutines.\<close>

definition countOk :: "go list \<Rightarrow> nat" where
  "countOk gs = length (filter (\<lambda>g. goStage g = Finished None) gs)"

definition wrapped :: "stage \<Rightarrow> bool" where
  "wrapped st \<longleftrightarrow> (\<forall>e. st = Sending (Some e) \<or> st = Finished (Some e) \<longrightarrow> (\<exists>e'. e = Wrap e'))"

fun tally :: "fan \<Rightarrow> bool" where
  "tally (Fan k gs n es ret) \<longleftrightarrow>
     (\<forall>g \<in> set gs. wrapped (goStage g))
     \<and> (ret = None \<longrightarrow> n = countOk gs \<and> (es = [] \<longrightarrow> (\<forall>g \<in> set gs. \<forall>e. goStage g \<noteq> Finished (Some e))))
     \<and> (ret = Some None \<longrightarrow> k \<le> int (countOk gs) \<or> (\<forall>g \<in> set gs. goStage g = Finished None))
     \<and> (\<forall>e. ret = Some (Some e) \<longrightarrow> nonEmpty e)"

definition hashOf :: "'h recv_env \<Rightarrow> time_series \<Rightarrow> nat" where
  "hashOf env ts = unat (seriesHash (eHash env) (eTenant env) ts)"

definition factor :: "'h recv_env \<Rightarrow> nat" where
  "factor env = unat (hReplicationFactor (eOptions env))"

text \<open>The nodes a series is assigned to, by its hash and the replication factor.\<close>

definition assigned :: "'h recv_env \<Rightarrow> node list \<Rightarrow> time_series \<Rightarrow> node list" where
  "assigned env s ts = take (max 1 (factor env)) (rotate (hashOf env ts) s)"

definition placed :: "'h recv_env \<Rightarrow> node list \<Rightarrow> time_series \<Rightarrow> bool" where
  "placed env s ts \<longleftrightarrow> sortLabels ts = ts \<and> hashOf env ts + length s < 2 ^ 64"

text \<open>A batch holds series whose first node is the endpoint of the batch.\<close>

definition batchOf :: "'h recv_env \<Rightarrow> node list \<Rightarrow> node \<Rightarrow> time_series list \<Rightarrow> bool" where
  "batchOf env s ep b \<longleftrightarrow> b \<noteq> [] \<and> s \<noteq> [] \<and> (\<forall>ts \<in> set b. placed env s ts \<and> s ! (hashOf env ts mod length s) = ep)"

definition batches :: "'h recv_env \<Rightarrow> node list \<Rightarrow> (node \<times> time_series list) list \<Rightarrow> bool" where
  "batches env s bs \<longleftrightarrow> distinct (map fst bs) \<and> (\<forall>ep b. map_of bs ep = Some b \<longrightarrow> batchOf env s ep b)"

definition batched :: "(node \<times> time_series list) list \<Rightarrow> time_series set" where
  "batched bs = {ts. \<exists>ep b. map_of bs ep = Some b \<and> ts \<in> set b}"

text \<open>A goroutine that writes to one node reports success only for a batch the node has acknowledged.\<close>

definition leafGo :: "'h recv_env \<Rightarrow> node set \<Rightarrow> time_series list \<Rightarrow> world \<Rightarrow> go \<Rightarrow> bool" where
  "leafGo env eps b w g \<longleftrightarrow>
     goEndpoint g \<in> eps \<and> \<not> mustReplicate (eOptions env) (goReplica g) \<and> goBatch g = b \<and> goSub g = None
     \<and> (goStage g \<in> {Sending None, Finished None} \<longrightarrow> (goEndpoint g, b) \<in> set (wAcks w))"

definition subInv :: "'h recv_env \<Rightarrow> node set \<Rightarrow> time_series list \<Rightarrow> world \<Rightarrow> fan \<Rightarrow> bool" where
  "subInv env eps b w f \<longleftrightarrow>
     tally f \<and> fanThreshold f = writeQuorum (eOptions env) \<and> (\<forall>g \<in> set (fanGos f). leafGo env eps b w g)
     \<and> distinct (map goEndpoint (fanGos f)) \<and> length (fanGos f) = factor env"

text \<open>A goroutine that replicates reports success only if its own fan-out returned success.\<close>

definition topGo :: "'h recv_env \<Rightarrow> node list \<Rightarrow> world \<Rightarrow> go \<Rightarrow> bool" where
  "topGo env s w g \<longleftrightarrow>
     batchOf env s (goEndpoint g) (goBatch g) \<and> served env s w
     \<and> (if mustReplicate (eOptions env) (goReplica g)
        then (case goSub g of
                None \<Rightarrow> goStage g \<notin> {Allowed, Sending None, Finished None}
              | Some f \<Rightarrow> subInv env (set (assigned env s (hd (goBatch g)))) (goBatch g) w f
                  \<and> (goStage g \<in> {Sending None, Finished None} \<longrightarrow> fanRet f = Some None))
        else leafGo env {goEndpoint g} (goBatch g) w g)"

section \<open>Runs\<close>

definition stepRel :: "'h recv_env \<Rightarrow> world \<times> fan \<Rightarrow> world \<times> fan \<Rightarrow> bool" where
  "stepRel env = (\<lambda>(w, f) (w', f'). fanStep env w f w' f')"

definition topJob :: "'h recv_env \<Rightarrow> node list \<Rightarrow> (node \<times> time_series list) list \<Rightarrow> world \<Rightarrow> go \<Rightarrow> bool" where
  "topJob env s bs w g \<longleftrightarrow>
     map_of bs (goEndpoint g) = Some (goBatch g) \<and> goReplica g = Replica 0 False \<and> topGo env s w g"

definition topInv :: "'h recv_env \<Rightarrow> node list \<Rightarrow> (node \<times> time_series list) list \<Rightarrow> world \<times> fan \<Rightarrow> bool" where
  "topInv env s bs = (\<lambda>(w, f).
     tally f \<and> served env s w \<and> fanThreshold f = int (length bs) \<and> map goEndpoint (fanGos f) = map fst bs
     \<and> (\<forall>g \<in> set (fanGos f). topJob env s bs w g))"

text \<open>The work that is left, which bounds the number of steps, and the shape of goroutines that can go on.\<close>

fun stageWork :: "handler_options \<Rightarrow> replica \<Rightarrow> stage \<Rightarrow> nat" where
  "stageWork opts r Start = (if mustReplicate opts r then 4 + 3 * unat (hReplicationFactor opts) else 3)"
| "stageWork opts r Allowed = 2"
| "stageWork opts r Waiting = 2"
| "stageWork opts r (Sending _) = 1"
| "stageWork opts r (Finished _) = 0"

fun goWork :: "handler_options \<Rightarrow> go \<Rightarrow> nat" and fanWork :: "handler_options \<Rightarrow> fan \<Rightarrow> nat" where
  "goWork opts (Go ep r b st sub) = stageWork opts r st + (case sub of None \<Rightarrow> 0 | Some f \<Rightarrow> fanWork opts f)"
| "fanWork opts (Fan k gs n es ret) = (if ret = None then 1 else 0) + sum_list (map (goWork opts) gs)"

fun goLive :: "go \<Rightarrow> bool" and fanLive :: "fan \<Rightarrow> bool" where
  "goLive (Go ep r b st sub) \<longleftrightarrow>
     (st = Waiting \<longrightarrow> sub \<noteq> None) \<and> (st = Start \<or> st = Allowed \<longrightarrow> sub = None)
     \<and> (case sub of None \<Rightarrow> True | Some f \<Rightarrow> fanLive f)"
| "fanLive (Fan k gs n es ret) \<longleftrightarrow> (\<forall>g \<in> set gs. goLive g)"

text \<open>A request of one series, replicated to three nodes, of which two acknowledge it.\<close>

definition sampleReceiver :: "64 word recv_env" where
  "sampleReceiver = \<lparr>eHash = sumRing,
     eOptions = \<lparr>hEndpoint = ''z'', hReplicationFactor = 3, hMode = RouterIngestor\<rparr>,
     eTenant = [], eBackoff = (\<lambda>_. 1), eTimeout = False\<rparr>"

definition sampleRing :: hashring where
  "sampleRing = SimpleRing [''a'', ''b'', ''c'']"

definition sampleWorld :: world where
  "sampleWorld = \<lparr>wRing = Some sampleRing, wConns = [''a'', ''c''], wPeers = [], wAcks = []\<rparr>"

definition ackWorld :: "node list \<Rightarrow> world" where
  "ackWorld eps = sampleWorld\<lparr>wAcks := map (\<lambda>ep. (ep, [seriesOf 1])) eps\<rparr>"

definition leafAt :: "node \<Rightarrow> 64 word \<Rightarrow> stage \<Rightarrow> go" where
  "leafAt ep n st = Go ep (Replica n True) [seriesOf 1] st None"

definition subFan :: "stage \<Rightarrow> stage \<Rightarrow> nat \<Rightarrow> werr option option \<Rightarrow> fan" where
  "subFan c a n ret = Fan 2 [leafAt ''c'' 0 c, leafAt ''a'' 1 a, leafAt ''b'' 2 Start] n [] ret"

definition topFan :: "stage \<Rightarrow> fan option \<Rightarrow> nat \<Rightarrow> werr option option \<Rightarrow> fan" where
  "topFan st sub n ret = Fan 1 [Go ''c'' (Replica 0 False) [seriesOf 1] st sub] n [] ret"

definition answered :: "world \<times> fan" where
  "answered = (ackWorld [''a'', ''c''],
     topFan (Finished None) (Some (subFan (Finished None) (Finished None) 2 (Some None))) 1 (Some None))"

section \<open>Series and rings\<close>

lemma bytesLess_irrefl: "\<not> bytesLess a a"
  by (induction a) auto

lemma bytesLess_trans: "bytesLess a b \<Longrightarrow> bytesLess b c \<Longrightarrow> bytesLess a c"
proof (induction a b arbitrary: c rule: bytesLess.induct)
  case (2 b bs)
  then show ?case by (cases c) auto
next
  case (3 a as b bs)
  then show ?case by (cases c) auto
qed simp

lemma bytesLess_linear: "a = b \<or> bytesLess a b \<or> bytesLess b a"
proof (induction a b rule: bytesLess.induct)
  case (1 a)
  then show ?case by (cases a) auto
qed auto

interpretation label_names: slice_order "\<lambda>a b. bytesLess (zName a) (zName b)"
  using bytesLess_irrefl bytesLess_trans bytesLess_linear by unfold_locales metis+

lemma sortLabels_idem [simp]: "sortLabels (sortLabels ts) = sortLabels ts"
  by (simp add: sortLabels_def label_names.sort_slice_idem)

lemma GetN_serves:
  assumes "ringServes ring t s" and "GetN rh ring t ts n = (r, ring')"
  shows "r = simpleGetN rh s t ts n \<and> ringServes ring' t s"
proof (cases ring)
  case (MultiRing m)
  obtain r' m' where get: "multiGetN rh m t ts n = (r', m')" by fastforce
  from multiGetN_coherent [OF _ get] assms show ?thesis
    by (auto simp: MultiRing get ringServes_def simp del: tenantNodes.simps)
qed (use assms in \<open>auto simp: ringServes_def\<close>)

lemma replicateLoop_serves:
  "replicateLoop rh t is b reps ring = (res, ring') \<Longrightarrow> ringServes ring t s \<Longrightarrow> ringServes ring' t s"
proof (induction rh t "is" b reps ring rule: replicateLoop.induct)
  case (3 rh t i "is" ts wreq reps ring)
  obtain r ring1 where get: "GetN rh ring t ts (of_nat i) = (r, ring1)" by fastforce
  from GetN_serves [OF 3(3) get] have "ringServes ring1 t s" by simp
  then show ?case using 3(1) [OF get [symmetric]] 3(2) get by (auto split: sum.splits prod.splits)
qed auto

lemma replicateStart_serves:
  "replicateStart env b w = (res, w') \<Longrightarrow> wAcks w' = wAcks w \<and> (served env s w \<longrightarrow> served env s w')"
  by (auto simp: replicateStart_def served_def split: option.splits sum.splits prod.splits dest: replicateLoop_serves)

lemma step_acks:
  shows "goStep env w g w' g' \<Longrightarrow> set (wAcks w) \<subseteq> set (wAcks w') \<and> (served env s w \<longrightarrow> served env s w')"
    and "fanStep env w f w' f' \<Longrightarrow> set (wAcks w) \<subseteq> set (wAcks w') \<and> (served env s w \<longrightarrow> served env s w')"
proof (induction rule: goStep_fanStep.inducts)
qed (auto simp: served_def dest: replicateStart_serves [where s = s])

section \<open>Counting the results\<close>

lemma goStep_stage:
  "goStep env w g w' g' \<Longrightarrow> (wrapped (goStage g) \<longrightarrow> wrapped (goStage g')) \<and> (\<forall>r. goStage g' = Finished r \<longleftrightarrow> goStage g = Finished r)"
  by (cases rule: goStep.cases, assumption) (auto simp: wrapped_def)

lemma countOk_simps [simp]:
  "countOk [] = 0"
  "countOk (g # gs) = (if goStage g = Finished None then 1 else 0) + countOk gs"
  "countOk (xs @ ys) = countOk xs + countOk ys"
  by (simp_all add: countOk_def)

lemma tally_step:
  assumes step: "fanStep env w f w' f'" and t: "tally f"
  shows "tally f'"
  using step
proof (cases rule: fanStep.cases)
  case (works g g' k xs ys n es ret)
  from goStep_stage [OF works(3)] t show ?thesis unfolding works(1,2) by simp
next
  case (receive_error k xs ep r b e sub ys n es)
  then obtain e' where "e = Wrap e'" using t by (auto simp: wrapped_def)
  with t receive_error show ?thesis by (auto simp: wrapped_def)
next
  case (closed gs k n es)
  show ?thesis
  proof (cases "es = []")
    case True
    have "goStage g = Finished None" if g: "g \<in> set gs" for g
    proof -
      obtain res where "goStage g = Finished res" using closed g by auto
      moreover have "goStage g \<noteq> Finished (Some e)" for e using t g True closed by auto
      ultimately show ?thesis by (cases res) auto
    qed
    with t True closed show ?thesis by (auto simp: errsErr_def)
  next
    case False
    with t closed show ?thesis by (auto simp: errsErr_def nonEmpty_def)
  qed
qed (use t in \<open>auto simp: wrapped_def nonEmpty_def\<close>)

lemma fanStep_gos:
  assumes "fanStep env w f w' f'" and "\<forall>g \<in> set (fanGos f). P w g"
    and "\<And>g g'. goStep env w g w' g' \<Longrightarrow> P w g \<Longrightarrow> P w' g' \<and> goEndpoint g' = goEndpoint g"
    and "\<And>g. P w g \<Longrightarrow> P w' g"
    and "\<And>v ep r b res sub. P v (Go ep r b (Sending res) sub) \<Longrightarrow> P v (Go ep r b (Finished res) sub)"
  shows "(\<forall>g \<in> set (fanGos f'). P w' g) \<and> fanThreshold f' = fanThreshold f
    \<and> map goEndpoint (fanGos f') = map goEndpoint (fanGos f)"
  using assms(1)
proof (cases rule: fanStep.cases)
  case (works g g' k xs ys n es ret)
  then show ?thesis using assms(2-4) by auto
qed (use assms(2,5) in auto)

section \<open>Batches and their nodes\<close>

lemma rotate_mod_eq: "h mod length s = h' mod length s \<Longrightarrow> rotate h s = rotate h' s"
  by (metis rotate_conv_mod)

lemma assigned_batch:
  assumes "batchOf env s ep b" and "distinct s" and "ts \<in> set b" and "ts' \<in> set b"
  shows "assigned env s ts = assigned env s ts'"
proof -
  have "s \<noteq> []" "s ! (hashOf env ts mod length s) = s ! (hashOf env ts' mod length s)"
    using assms by (auto simp: batchOf_def)
  then have "hashOf env ts mod length s = hashOf env ts' mod length s"
    using assms(2) by (simp add: nth_eq_iff_index_eq)
  from rotate_mod_eq [OF this] show ?thesis by (simp add: assigned_def)
qed

lemma GetN_placed:
  assumes "served env s w" and "wRing w = Some ring" and "hashOf env (sortLabels ts) + length s < 2 ^ 64"
    and "GetN (eHash env) ring (eTenant env) ts (of_nat i) = (Inr (ep, ts'), ring')" and "i < 2 ^ 64"
  shows "i < length s \<and> ep = rotate (hashOf env (sortLabels ts)) s ! i \<and> ts' = sortLabels ts
    \<and> ringServes ring' (eTenant env) s"
proof -
  have r: "simpleGetN (eHash env) s (eTenant env) ts (of_nat i) = Inr (ep, ts')" "ringServes ring' (eTenant env) s"
    using GetN_serves [OF _ assms(4)] assms(1,2) by (auto simp: served_def)
  have "i < length s"
  proof (rule ccontr)
    assume "\<not> i < length s"
    with assms(3,5) have "(of_nat i :: 64 word) \<ge> of_nat (length s)"
      by (simp add: word_le_nat_alt unsigned_of_nat take_bit_nat_eq_self)
    with r(1) show False by (simp add: simpleGetN_def)
  qed
  with simpleGetN_nth [OF this, of "eHash env" "eTenant env" ts] assms(3) r show ?thesis
    by (simp add: hashOf_def)
qed

lemma addToBatch_lookup:
  "map_of (addToBatch ep ts bs) = (map_of bs)(ep \<mapsto> (case map_of bs ep of None \<Rightarrow> [] | Some b \<Rightarrow> b) @ [ts])"
  by (simp add: addToBatch_def update_conv')

lemma distinct_addToBatch: "distinct (map fst bs) \<Longrightarrow> distinct (map fst (addToBatch ep ts bs))"
  by (simp add: addToBatch_def distinct_update)

lemma batches_add:
  assumes "batches env s bs" and "placed env s ts" and "s \<noteq> []"
  shows "batches env s (addToBatch (s ! (hashOf env ts mod length s)) ts bs)"
  using assms by (auto simp: batches_def distinct_addToBatch addToBatch_lookup batchOf_def split: option.splits)

lemma batched_add: "insert ts (batched bs) \<subseteq> batched (addToBatch ep ts bs)"
proof -
  have "\<exists>e' b'. map_of (addToBatch ep ts bs) e' = Some b' \<and> x \<in> set b'"
    if x: "map_of bs e = Some b" "x \<in> set b" for x e b
    using x by (cases "e = ep") (auto simp: addToBatch_lookup)
  moreover have "\<exists>e b. map_of (addToBatch ep ts bs) e = Some b \<and> ts \<in> set b"
    by (rule exI [of _ ep]) (simp add: addToBatch_lookup)
  ultimately show ?thesis by (auto simp: batched_def)
qed

lemma batchLoop_batches:
  assumes "batchLoop (eHash env) (eTenant env) 0 tss bs ring = (Inr bs', ring')"
    and "ringServes ring (eTenant env) s"
    and "\<forall>ts \<in> set tss. hashOf env (sortLabels ts) + length s < 2 ^ 64" and "batches env s bs"
  shows "batches env s bs' \<and> ringServes ring' (eTenant env) s
    \<and> batched bs \<union> sortLabels ` set tss \<subseteq> batched bs'"
  using assms
proof (induction tss arbitrary: bs ring)
  case (Cons ts tss)
  let ?w = "\<lparr>wRing = Some ring, wConns = [], wPeers = [], wAcks = []\<rparr>"
  obtain ep ts' ring1 where get: "GetN (eHash env) ring (eTenant env) ts 0 = (Inr (ep, ts'), ring1)"
    and rest: "batchLoop (eHash env) (eTenant env) 0 tss (addToBatch ep ts' bs) ring1 = (Inr bs', ring')"
    using Cons.prems(1) by (auto split: prod.splits sum.splits)
  have at: "0 < length s" "ep = rotate (hashOf env ts') s ! 0" "ts' = sortLabels ts" "ringServes ring1 (eTenant env) s"
    using GetN_placed [of env s ?w ring ts 0] get Cons.prems(2,3) by (auto simp: served_def)
  have "placed env s ts'" using at(3) Cons.prems(3) by (simp add: placed_def)
  moreover have "ep = s ! (hashOf env ts' mod length s)" using at(1,2) by (simp add: nth_rotate)
  ultimately have "batches env s (addToBatch ep ts' bs)" using batches_add Cons.prems(4) at(1) by blast
  from Cons.IH [OF rest at(4) _ this] Cons.prems(3) batched_add [of ts' bs ep] show ?case
    by (auto simp: at(3))
qed simp

lemma replicateLoop_targets:
  assumes "replicateLoop (eHash env) (eTenant env) is b reps ring = (Inr (b', reps'), ring')"
    and "ringServes ring (eTenant env) s" and "batchOf env s ep b" and "distinct (map fst reps)"
    and "\<forall>i \<in> set is. i < 2 ^ 64" and "snd ` set reps \<subseteq> Collect replicated"
  shows "b' = b \<and> distinct (map fst reps') \<and> (\<forall>i \<in> set is. i < length s)
    \<and> fst ` set reps' = fst ` set reps \<union> (\<lambda>i. rotate (hashOf env (hd b)) s ! i) ` set is
    \<and> snd ` set reps' \<subseteq> Collect replicated"
  using assms
proof (induction "is" arbitrary: reps ring)
  case (Cons i "is")
  let ?w = "\<lparr>wRing = Some ring, wConns = [], wPeers = [], wAcks = []\<rparr>"
  obtain ts bs where b: "b = ts # bs" using Cons.prems(3) by (cases b) (auto simp: batchOf_def)
  have ts: "sortLabels ts = ts" "hashOf env ts + length s < 2 ^ 64"
    using Cons.prems(3) by (auto simp: b batchOf_def placed_def)
  obtain v ts' ring1 where get: "GetN (eHash env) ring (eTenant env) ts (of_nat i) = (Inr (v, ts'), ring1)"
    and rest: "replicateLoop (eHash env) (eTenant env) is (ts' # bs) (AList.update v (Replica (of_nat i) True) reps) ring1
       = (Inr (b', reps'), ring')"
    using Cons.prems(1) by (auto simp: b split: prod.splits sum.splits)
  have at: "i < length s" "v = rotate (hashOf env ts) s ! i" "ts' = ts" "ringServes ring1 (eTenant env) s"
    using GetN_placed [of env s ?w ring ts i] get Cons.prems(2,5) ts by (auto simp: served_def)
  have names: "fst ` set (AList.update v x reps) = insert v (fst ` set reps)" for x
    using dom_update [of v x reps] by (simp add: dom_map_of_conv_image_fst)
  have "snd ` set (AList.update v x reps) \<subseteq> insert x (snd ` set reps)" for x :: replica
    by (induction reps) auto
  then have reps: "snd ` set (AList.update v (Replica (of_nat i) True) reps) \<subseteq> Collect replicated"
    using Cons.prems(6) by fastforce
  have rest': "replicateLoop (eHash env) (eTenant env) is b (AList.update v (Replica (of_nat i) True) reps) ring1
       = (Inr (b', reps'), ring')" using rest by (simp add: at(3) b)
  note IH = Cons.IH [OF rest' at(4) Cons.prems(3) distinct_update [OF Cons.prems(4)] _ reps]
  show ?case using IH Cons.prems(5) at(1,2) names by (simp add: b)
qed simp

section \<open>Acknowledged writes\<close>

lemma Write_nonEmpty: "soundAppender ap \<Longrightarrow> Write ap b = Some e \<Longrightarrow> nonEmpty e"
  by (auto simp: soundAppender_def Write_def nonEmpty_def errsErr_def Let_def split: option.splits if_splits)

lemma determine_None: "determineWriteErrorCause (Some e) k = None \<longleftrightarrow> \<not> nonEmpty e"
proof -
  have "determineWriteErrorCause (Some e) k \<noteq> None" if e: "errs \<noteq> []" "(case cause e of Multi es \<Rightarrow> es | u \<Rightarrow> [u]) = errs" for errs
    using e by (simp add: determineWriteErrorCause_def Let_def split: prod.splits)
  moreover have "(case cause e of Multi es \<Rightarrow> es | u \<Rightarrow> [u]) = [] \<longleftrightarrow> cause e = Multi []" by (simp split: werr.splits)
  ultimately show ?thesis by (auto simp: nonEmpty_def determineWriteErrorCause_def)
qed

lemma leafGo_step:
  assumes "goStep env w g w' g'" and "leafGo env eps b w g"
  shows "leafGo env eps b w' g' \<and> goEndpoint g' = goEndpoint g"
  using assms
proof (cases rule: goStep.cases)
  case (local_write r ep ap res b')
  have "res = None" if d: "determineWriteErrorCause res 1 = None"
  proof (cases res)
    case (Some e)
    with local_write Write_nonEmpty [of ap b' e] have "nonEmpty e" by simp
    with d Some determine_None show ?thesis by simp
  qed
  with local_write assms(2) show ?thesis by (auto simp: leafGo_def)
qed (auto simp: leafGo_def)

lemma leafGo_mono: "leafGo env eps b w g \<Longrightarrow> set (wAcks w) \<subseteq> set (wAcks w') \<Longrightarrow> leafGo env eps b w' g"
  by (auto simp: leafGo_def)

lemma leafGo_finish: "leafGo env eps b w (Go ep r b' (Sending res) sub) \<Longrightarrow> leafGo env eps b w (Go ep r b' (Finished res) sub)"
  by (auto simp: leafGo_def)

lemma subInv_step:
  assumes "fanStep env w f w' f'" and "subInv env eps b w f"
  shows "subInv env eps b w' f'"
proof -
  have acks: "set (wAcks w) \<subseteq> set (wAcks w')" using step_acks(2) [OF assms(1)] by blast
  have "(\<forall>g \<in> set (fanGos f'). leafGo env eps b w' g) \<and> fanThreshold f' = fanThreshold f
    \<and> map goEndpoint (fanGos f') = map goEndpoint (fanGos f)"
  proof (rule fanStep_gos [OF assms(1)])
    show "\<forall>g \<in> set (fanGos f). leafGo env eps b w g" using assms(2) by (simp add: subInv_def)
  qed (rule leafGo_step leafGo_mono [OF _ acks] leafGo_finish; assumption)+
  moreover from this have "length (fanGos f') = length (fanGos f)" using map_eq_imp_length_eq by blast
  ultimately show ?thesis using assms(2) tally_step [OF assms(1)] by (simp add: subInv_def)
qed

lemma subInv_mono: "subInv env eps b w f \<Longrightarrow> set (wAcks w) \<subseteq> set (wAcks w') \<Longrightarrow> subInv env eps b w' f"
  by (auto simp: subInv_def intro: leafGo_mono)

lemma writeQuorum_factor: "factor env < 2 ^ 63 \<Longrightarrow> writeQuorum (eOptions env) = int (factor env div 2 + 1)"
proof -
  let ?rf = "hReplicationFactor (eOptions env)"
  assume small: "factor env < 2 ^ 63"
  have "unat (?rf div 2 + 1) = factor env div 2 + 1"
    using small by (subst unat_add_lem [THEN iffD1]) (simp_all add: factor_def unat_div)
  then have "?rf div 2 + 1 = of_nat (factor env div 2 + 1)" by (metis of_nat_unat ucast_id)
  moreover have "sint (of_nat m :: 64 word) = int m" if "m < 2 ^ 63" for m
    using that by (simp add: signed_of_nat signed_take_bit_int_eq_self)
  ultimately show ?thesis using small by (simp add: writeQuorum_def del: of_nat_Suc of_nat_add)
qed

lemma subInv_quorum:
  assumes "subInv env eps b w f" and "fanRet f = Some None" and "1 < factor env" and "factor env < 2 ^ 63" and "finite eps"
  shows "factor env div 2 + 1 \<le> card {ep \<in> eps. (ep, b) \<in> set (wAcks w)}"
proof -
  obtain k gs n es where f: "f = Fan k gs n es (Some None)" using assms(2) by (cases f) auto
  let ?ok = "filter (\<lambda>g. goStage g = Finished None) gs"
  have inv: "k = int (factor env div 2 + 1)" "distinct (map goEndpoint gs)" "length gs = factor env"
    "\<forall>g \<in> set gs. leafGo env eps b w g"
    "k \<le> int (countOk gs) \<or> (\<forall>g \<in> set gs. goStage g = Finished None)"
    using assms(1) writeQuorum_factor [OF assms(4)] by (auto simp: f subInv_def)
  have "factor env div 2 + 1 \<le> countOk gs"
    using inv(1,3,5) assms(3) by (auto simp: countOk_def filter_id_conv [THEN iffD2])
  also have "\<dots> = card (goEndpoint ` set ?ok)"
    using distinct_card [OF distinct_map_filter [OF inv(2)], of "\<lambda>g. goStage g = Finished None"]
    by (simp add: countOk_def)
  also have "\<dots> \<le> card {ep \<in> eps. (ep, b) \<in> set (wAcks w)}"
    using inv(4) assms(5) by (intro card_mono) (auto simp: leafGo_def)
  finally show ?thesis .
qed

lemma fanStep_ret: "fanStep env w f w' f' \<Longrightarrow> fanRet f = Some v \<Longrightarrow> fanRet f' = Some v"
  by (cases rule: fanStep.cases, assumption) auto

lemma replicateStart_sub:
  assumes "replicateStart env b w = (Inr (b', f), w')" and "served env s w" and "batchOf env s ep b"
    and "distinct s" and "mustReplicate (eOptions env) r"
  shows "b' = b \<and> subInv env (set (assigned env s (hd b))) b w' f"
proof -
  let ?h = "rotate (hashOf env (hd b)) s"
  obtain ring where ring: "wRing w = Some ring" "ringServes ring (eTenant env) s"
    using assms(2) by (auto simp: served_def)
  obtain reps ring' where loop:
      "replicateLoop (eHash env) (eTenant env) [0..<factor env] b [] ring = (Inr (b', reps), ring')"
    and f: "f = newFan (writeQuorum (eOptions env)) (map (\<lambda>(ep, r). (ep, r, b')) reps)"
    using assms(1) ring(1) by (auto simp: replicateStart_def factor_def split: sum.splits prod.splits)
  have "unat (hReplicationFactor (eOptions env)) < 2 ^ LENGTH(64)" by (rule unsigned_less)
  then have "\<forall>i \<in> set [0..<factor env]. i < 2 ^ 64" by (auto simp: factor_def)
  then have t: "b' = b" "distinct (map fst reps)" "\<forall>i < factor env. i < length s"
    "fst ` set reps = (!) ?h ` {0..<factor env}" "snd ` set reps \<subseteq> Collect replicated"
    using replicateLoop_targets [OF loop ring(2) assms(3)] by auto
  have rf: "1 < factor env" using assms(5) by (simp add: mustReplicate_def factor_def word_less_nat_alt)
  have "factor env \<le> length s" using t(3) by (meson less_irrefl not_le)
  then have eps: "set (assigned env s (hd b)) = (!) ?h ` {0..<factor env}"
    using nth_image [of "factor env" ?h] rf by (simp add: assigned_def max_def)
  have "inj_on ((!) ?h) {0..<factor env}" using assms(4) t(3) by (intro inj_on_nth) auto
  then have "length reps = factor env"
    using distinct_card [OF t(2)] t(4) by (simp add: card_image)
  moreover have "leafGo env (set (assigned env s (hd b))) b w' (Go ep r b Start None)" if "(ep, r) \<in> set reps" for ep r
    using that t(4,5) eps by (force simp: leafGo_def mustReplicate_def)
  ultimately show ?thesis
    using t(1,2) by (auto simp: subInv_def f newFan_def wrapped_def countOk_def o_def case_prod_unfold)
qed

lemma topGo_step:
  assumes step: "goStep env w g w' g'" and top: "topGo env s w g" and "distinct s"
  shows "topGo env s w' g' \<and> goBatch g' = goBatch g"
proof -
  have served: "served env s w'" using step_acks(1) [OF step] top by (auto simp: topGo_def)
  show ?thesis
  proof (cases "mustReplicate (eOptions env) (goReplica g)")
    case False
    then have "leafGo env {goEndpoint g} (goBatch g) w g" using top by (simp add: topGo_def)
    from leafGo_step [OF step this] have "leafGo env {goEndpoint g} (goBatch g) w' g'" "goEndpoint g' = goEndpoint g"
      by simp_all
    moreover from this have "goBatch g' = goBatch g" "\<not> mustReplicate (eOptions env) (goReplica g')"
      by (simp_all add: leafGo_def)
    ultimately show ?thesis using top served by (simp add: topGo_def)
  next
    case True
    from step show ?thesis
    proof (cases rule: goStep.cases)
      case (replicate_starts r b b' f ep)
      then show ?thesis
        using replicateStart_sub [OF replicate_starts(4), of s ep] top \<open>distinct s\<close> served by (auto simp: topGo_def)
    next
      case (replicate_works f f' ep r b st)
      then show ?thesis
        using subInv_step [OF replicate_works(3)] fanStep_ret [OF replicate_works(3)] top True served
        by (auto simp: topGo_def)
    next
      case (replicate_returns f res ep r b)
      have "nonEmpty e" if "res = Some e" for e
        using that replicate_returns top True by (cases f) (auto simp: topGo_def subInv_def)
      then have "replicateResult (writeQuorum (eOptions env)) res = None \<Longrightarrow> res = None"
        using determine_None by (cases res) (auto simp: replicateResult_def)
      then show ?thesis using replicate_returns top True by (auto simp: topGo_def)
    qed (use top True served in \<open>auto simp: topGo_def\<close>)
  qed
qed

lemma topGo_mono:
  assumes "topGo env s w g" and "set (wAcks w) \<subseteq> set (wAcks w')" and "served env s w'"
  shows "topGo env s w' g"
  using assms by (auto simp: topGo_def intro: leafGo_mono subInv_mono split: option.splits)

lemma topGo_finish: "topGo env s w (Go ep r b (Sending res) sub) \<Longrightarrow> topGo env s w (Go ep r b (Finished res) sub)"
  by (cases sub; cases "mustReplicate (eOptions env) r") (auto simp: topGo_def leafGo_def)

lemma goStep_static: "goStep env w g w' g' \<Longrightarrow> goEndpoint g' = goEndpoint g \<and> goReplica g' = goReplica g"
  by (cases rule: goStep.cases, assumption) auto

lemma topInv_step:
  assumes "fanStep env w f w' f'" and "topInv env s bs (w, f)" and "distinct s"
  shows "topInv env s bs (w', f')"
proof -
  have acks: "set (wAcks w) \<subseteq> set (wAcks w')" "served env s w'"
    using step_acks(2) [OF assms(1)] assms(2) by (auto simp: topInv_def)
  have "(\<forall>g \<in> set (fanGos f'). topJob env s bs w' g) \<and> fanThreshold f' = fanThreshold f
    \<and> map goEndpoint (fanGos f') = map goEndpoint (fanGos f)"
  proof (rule fanStep_gos [OF assms(1)])
    show "\<forall>g \<in> set (fanGos f). topJob env s bs w g" using assms(2) by (simp add: topInv_def)
    show "topJob env s bs w' g' \<and> goEndpoint g' = goEndpoint g" if "goStep env w g w' g'" "topJob env s bs w g" for g g'
      using goStep_static [OF that(1)] topGo_step [OF that(1) _ assms(3)] that(2) by (simp add: topJob_def)
    show "topJob env s bs w' g" if "topJob env s bs w g" for g
      using that topGo_mono [OF _ acks] by (simp add: topJob_def)
    show "topJob env s bs v (Go ep r b (Finished res) sub)" if "topJob env s bs v (Go ep r b (Sending res) sub)"
      for v ep r b res sub
      using that topGo_finish by (auto simp: topJob_def)
  qed
  with assms(2) acks(2) tally_step [OF assms(1)] show ?thesis by (simp add: topInv_def)
qed

lemma topInv_steps: "(stepRel env)\<^sup>*\<^sup>* p p' \<Longrightarrow> topInv env s bs p \<Longrightarrow> distinct s \<Longrightarrow> topInv env s bs p'"
  by (induction rule: rtranclp_induct) (auto simp: stepRel_def intro: topInv_step)

lemma handleRequest_topInv:
  assumes "handleRequest env 0 tss w = (Inr f, w')" and "wRing w = Some ring" and "ringServes ring (eTenant env) s"
    and "\<forall>ts \<in> set tss. hashOf env (sortLabels ts) + length s < 2 ^ 64"
  obtains bs where "topInv env s bs (w', f)" and "sortLabels ` set tss \<subseteq> batched bs" and "batches env s bs"
proof -
  obtain bs ring' where loop: "batchLoop (eHash env) (eTenant env) 0 tss [] ring = (Inr bs, ring')"
    and f: "f = newFan (int (length bs)) (map (\<lambda>(ep, b). (ep, Replica 0 False, b)) bs)" "w' = w\<lparr>wRing := Some ring'\<rparr>"
    using assms(1,2) by (auto simp: handleRequest_def requestReplica_def forwardStart_def Let_def split: prod.splits sum.splits)
  have bs: "batches env s bs" "ringServes ring' (eTenant env) s" "sortLabels ` set tss \<subseteq> batched bs"
    using batchLoop_batches [OF loop assms(3,4)] by (auto simp: batches_def)
  have "topJob env s bs w' (Go ep (Replica 0 False) b Start None)" if "(ep, b) \<in> set bs" for ep b
  proof -
    have "map_of bs ep = Some b" using that bs(1) by (simp add: batches_def map_of_is_SomeI)
    with bs(1,2) show ?thesis by (auto simp: topJob_def topGo_def batches_def served_def f(2) leafGo_def)
  qed
  then have "topInv env s bs (w', f)"
    using bs(2) by (auto simp: topInv_def f newFan_def wrapped_def countOk_def served_def case_prod_unfold)
  with bs that show ?thesis by blast
qed

lemma topInv_acked:
  assumes inv: "topInv env s bs (w, f)" and ret: "fanRet f = Some None" and "batches env s bs" and "distinct s"
    and ts: "ts \<in> batched bs" and "factor env < 2 ^ 63"
  shows "factor env div 2 + 1 \<le> card {ep \<in> set (assigned env s ts). \<exists>b. (ep, b) \<in> set (wAcks w) \<and> ts \<in> set b}" (is "_ \<le> card ?A")
proof -
  obtain ep b where b: "map_of bs ep = Some b" "ts \<in> set b" using ts by (auto simp: batched_def)
  have batch: "batchOf env s ep b" using assms(3) b(1) by (simp add: batches_def)
  obtain k gs n es where f: "f = Fan k gs n es (Some None)" using ret by (cases f) auto
  have gs: "map goEndpoint gs = map fst bs" "k = int (length bs)" "\<forall>g \<in> set gs. topJob env s bs w g"
    "k \<le> int (countOk gs) \<or> (\<forall>g \<in> set gs. goStage g = Finished None)"
    using inv by (auto simp: topInv_def f)
  have "length gs = length bs" using gs(1) map_eq_imp_length_eq by blast
  have all: "\<forall>g \<in> set gs. goStage g = Finished None"
  proof (rule ccontr)
    assume some: "\<not> ?thesis"
    then obtain g where "g \<in> set gs" "goStage g \<noteq> Finished None" by blast
    then have "countOk gs < length gs" unfolding countOk_def by (rule length_filter_less)
    with gs(2,4) some \<open>length gs = length bs\<close> show False by simp
  qed
  have "ep \<in> set (map goEndpoint gs)" using map_of_SomeD [OF b(1)] by (force simp: gs(1))
  then obtain g where g: "g \<in> set gs" "goEndpoint g = ep" by auto
  then have job: "goBatch g = b" "goReplica g = Replica 0 False" "topGo env s w g" "goStage g = Finished None"
    using gs(3) all b(1) by (auto simp: topJob_def)
  show ?thesis
  proof (cases "mustReplicate (eOptions env) (goReplica g)")
    case True
    then obtain sub where "subInv env (set (assigned env s (hd b))) b w sub" "fanRet sub = Some None"
      using job by (auto simp: topGo_def split: option.splits)
    moreover have "1 < factor env" using True by (simp add: mustReplicate_def factor_def word_less_nat_alt)
    ultimately have "factor env div 2 + 1 \<le> card {ep \<in> set (assigned env s (hd b)). (ep, b) \<in> set (wAcks w)}"
      using subInv_quorum assms(6) by blast
    also have "assigned env s (hd b) = assigned env s ts"
      using assigned_batch [OF batch \<open>distinct s\<close> _ b(2)] batch by (simp add: batchOf_def)
    finally show ?thesis using b(2) by (fastforce intro: order_trans card_mono)
  next
    case False
    then have rf: "factor env \<le> 1" using job(2) by (simp add: mustReplicate_def factor_def word_less_nat_alt)
    have "(ep, b) \<in> set (wAcks w)" using job False g by (simp add: topGo_def leafGo_def)
    moreover have "ep \<in> set (assigned env s ts)"
    proof -
      have "s \<noteq> []" "ep = rotate (hashOf env ts) s ! 0" using batch b(2) by (auto simp: batchOf_def nth_rotate)
      then show ?thesis using rf by (cases "rotate (hashOf env ts) s") (auto simp: assigned_def)
    qed
    ultimately have "{ep} \<subseteq> ?A" using b(2) by auto
    from card_mono [OF _ this] rf show ?thesis by simp
  qed
qed

text \<open>
  C2: an acknowledged write is stored by a majority: whatever the network and the storage answer and in whatever
  order, if a request that was not yet replicated (replica number 0) is answered with success, then for
  every series of it more than half of the nodes the ring assigns to the series have acknowledged a batch
  that contains it. The nodes of the tenant's ring are distinct, the hash of no series lies within the
  number of nodes of \<open>2^64\<close>, and the replication factor is below \<open>2^63\<close>.
\<close>

theorem handleRequest_quorum:
  assumes "handleRequest env 0 tss w0 = (Inr f0, w)" and "(stepRel env)\<^sup>*\<^sup>* (w, f0) (w', f)" and "fanRet f = Some None"
    and "wRing w0 = Some ring" and "ringServes ring (eTenant env) s" and "distinct s"
    and "\<forall>ts \<in> set tss. hashOf env (sortLabels ts) + length s < 2 ^ 64" and "factor env < 2 ^ 63"
    and "ts \<in> set tss"
  shows "factor env div 2 + 1 \<le>
    card {ep \<in> set (assigned env s (sortLabels ts)). \<exists>b. (ep, b) \<in> set (wAcks w') \<and> sortLabels ts \<in> set b}"
proof -
  obtain bs where bs: "topInv env s bs (w, f0)" "sortLabels ` set tss \<subseteq> batched bs" "batches env s bs"
    using handleRequest_topInv [OF assms(1,4,5,7)] .
  have "topInv env s bs (w', f)" using topInv_steps [OF assms(2) bs(1) assms(6)] .
  from topInv_acked [OF this assms(3) bs(3) assms(6) _ assms(8)] bs(2) assms(9) show ?thesis by auto
qed

section \<open>Progress\<close>

lemma length_update_le: "length (AList.update k v al) \<le> Suc (length al)"
  by (induction al) auto

lemma snd_update: "snd ` set (AList.update k v al) \<subseteq> insert v (snd ` set al)"
  by (induction al) auto

lemma replicateLoop_shape:
  "replicateLoop rh t is b reps ring = (Inr (b', reps'), ring') \<Longrightarrow> snd ` set reps \<subseteq> Collect replicated \<Longrightarrow>
     length reps' \<le> length reps + length is \<and> snd ` set reps' \<subseteq> Collect replicated"
proof (induction rh t "is" b reps ring rule: replicateLoop.induct)
  case (3 rh t i "is" ts wreq reps ring)
  obtain ep ts' ring1 where get: "GetN rh ring t ts (of_nat i) = (Inr (ep, ts'), ring1)"
    and rest: "replicateLoop rh t is (ts' # wreq) (AList.update ep (Replica (of_nat i) True) reps) ring1
       = (Inr (b', reps'), ring')"
    using 3(2) by (auto split: prod.splits sum.splits)
  have "snd ` set (AList.update ep (Replica (of_nat i) True) reps) \<subseteq> Collect replicated"
    by (rule order_trans [OF snd_update]) (use 3(3) in simp)
  from 3(1) [OF get [symmetric] _ _ rest this] length_update_le [of ep "Replica (of_nat i) True" reps]
  show ?case by fastforce
qed auto

lemma replicateStart_shape:
  assumes "replicateStart env b w = (Inr (b', f), w')"
  shows "fanWork (eOptions env) f \<le> 1 + 3 * factor env \<and> fanLive f"
proof -
  obtain ring reps ring' where loop:
      "replicateLoop (eHash env) (eTenant env) [0..<factor env] b [] ring = (Inr (b', reps), ring')"
    and f: "f = newFan (writeQuorum (eOptions env)) (map (\<lambda>(ep, r). (ep, r, b')) reps)"
    using assms by (auto simp: replicateStart_def factor_def split: option.splits sum.splits prod.splits)
  have reps: "length reps \<le> factor env" "snd ` set reps \<subseteq> Collect replicated"
    using replicateLoop_shape [OF loop] by auto
  have "sum_list (map (\<lambda>(ep, r). goWork (eOptions env) (Go ep r b' Start None)) reps) \<le> length reps * 3"
    using reps(2) by (induction reps) (auto simp: mustReplicate_def)
  with reps(1) show ?thesis by (auto simp: f newFan_def o_def case_prod_unfold)
qed

lemma step_work:
  shows "goStep env w g w' g' \<Longrightarrow> goWork (eOptions env) g' < goWork (eOptions env) g"
    and "fanStep env w f w' f' \<Longrightarrow> fanWork (eOptions env) f' < fanWork (eOptions env) f"
proof (induction rule: goStep_fanStep.inducts)
  case (replicate_starts r b w b' f w' ep)
  from replicateStart_shape [OF replicate_starts(2)] replicate_starts(1) show ?case by (simp add: factor_def)
qed auto

lemma step_live:
  shows "goStep env w g w' g' \<Longrightarrow> goLive g \<Longrightarrow> goLive g'"
    and "fanStep env w f w' f' \<Longrightarrow> fanLive f \<Longrightarrow> fanLive f'"
proof (induction rule: goStep_fanStep.inducts)
  case (replicate_starts r b w b' f w' ep)
  from replicateStart_shape [OF replicate_starts(2)] show ?case by simp
qed auto

lemma start_steps:
  "\<exists>w' g'. goStep env w (Go ep r b Start None) w' g'"
proof (cases "mustReplicate (eOptions env) r")
  case True
  obtain res w' where start: "replicateStart env b w = (res, w')" by fastforce
  show ?thesis
  proof (cases res)
    case (Inl e)
    with replicate_fails [OF True] start show ?thesis by blast
  next
    case (Inr p)
    with replicate_starts [OF True] start show ?thesis by (cases p) blast
  qed
next
  case False
  let ?ap = "\<lparr>apTenant = None, apOpen = None, apGetRef = (\<lambda>_. 0), apAppend = (\<lambda>_. (0, None)),
    apExemplar = (\<lambda>_. None), apCommit = None\<rparr>"
  show ?thesis
  proof (cases "ep = hEndpoint (eOptions env)")
    case True
    have "soundAppender ?ap" by (simp add: soundAppender_def)
    from local_write [OF False True this refl] show ?thesis by blast
  next
    case remote: False
    show ?thesis
      using backs_off [OF False remote, of 0] allowed [OF False remote, of 0] by (cases "backingOff 0 ep (wPeers w)") blast+
  qed
qed

lemma live_progress:
  shows "goLive g \<Longrightarrow> (\<exists>res. goStage g = Sending res \<or> goStage g = Finished res) \<or> (\<exists>w' g'. goStep env w g w' g')"
    and "fanLive f \<Longrightarrow> fanRet f = None \<Longrightarrow> \<exists>w' f'. fanStep env w f w' f'"
proof (induction g and f rule: goLive_fanLive.induct)
  case (1 ep r b st sub)
  show ?case
  proof (cases st)
    case Start
    with 1 have "sub = None" by simp
    with Start start_steps show ?thesis by blast
  next
    case Allowed
    with 1 have "sub = None" by simp
    with Allowed remote_ok show ?thesis by blast
  next
    case Waiting
    with 1 obtain f where f: "sub = Some f" "fanLive f" by auto
    show ?thesis
    proof (cases "fanRet f")
      case None
      with 1 f obtain w' f' where "fanStep env w f w' f'" by blast
      with f Waiting replicate_works show ?thesis by blast
    next
      case (Some res)
      with f Waiting replicate_returns show ?thesis by blast
    qed
  qed auto
next
  case (2 k gs n es ret)
  have ret: "ret = None" using 2 by simp
  consider (closed) "\<forall>g \<in> set gs. \<exists>res. goStage g = Finished res"
    | (sending) g res where "g \<in> set gs" "goStage g = Sending res"
    | (works) g w' g' where "g \<in> set gs" "goStep env w g w' g'"
    using 2 by (metis fanLive.simps)
  then show ?case
  proof cases
    case closed
    then show ?thesis using goStep_fanStep.closed ret by blast
  next
    case sending
    obtain ep r b sub where g: "g = Go ep r b (Sending res) sub" using sending(2) by (cases g) auto
    obtain xs ys where gs: "gs = xs @ g # ys" using split_list [OF sending(1)] by blast
    show ?thesis
    proof (cases res)
      case None
      show ?thesis unfolding gs g ret None by (intro exI) (rule receive_ok)
    next
      case (Some e)
      show ?thesis unfolding gs g ret Some by (intro exI) (rule receive_error)
    qed
  next
    case works
    obtain xs ys where "gs = xs @ g # ys" using split_list [OF works(1)] by blast
    then show ?thesis using goStep_fanStep.works [OF works(2)] by blast
  qed
qed

lemma steps_work:
  "(stepRel env ^^ n) (w, f) (w', f') \<Longrightarrow> fanLive f \<Longrightarrow>
     n + fanWork (eOptions env) f' \<le> fanWork (eOptions env) f \<and> fanLive f'"
proof (induction n arbitrary: w' f')
  case (Suc n)
  obtain v g where g: "(stepRel env ^^ n) (w, f) (v, g)" "fanStep env v g w' f'"
    using Suc.prems(1) by (auto simp: stepRel_def)
  from Suc.IH [OF g(1) Suc.prems(2)] step_work(2) [OF g(2)] step_live(2) [OF g(2)] show ?case by simp
qed simp

lemma batchLoop_length:
  "batchLoop rh t n tss bs ring = (Inr bs', ring') \<Longrightarrow> length bs' \<le> length bs + length tss"
proof (induction tss arbitrary: bs ring)
  case (Cons ts tss)
  obtain ep ts' ring1 where "batchLoop rh t n tss (addToBatch ep ts' bs) ring1 = (Inr bs', ring')"
    using Cons.prems by (auto split: prod.splits sum.splits)
  moreover have "length (addToBatch ep ts' bs) \<le> Suc (length bs)"
    by (simp add: addToBatch_def length_update_le)
  ultimately show ?case using Cons.IH by fastforce
qed simp

lemma handleRequest_work:
  assumes "handleRequest env rep tss w = (Inr f, w')"
  shows "fanLive f \<and> fanWork (eOptions env) f \<le> 1 + (4 + 3 * factor env) * length tss"
proof -
  obtain r ring bs ring' where loop: "batchLoop (eHash env) (eTenant env) (repN r) tss [] ring = (Inr bs, ring')"
    and f: "f = newFan (int (length bs)) (map (\<lambda>(ep, b). (ep, r, b)) bs)"
    using assms by (auto simp: handleRequest_def forwardStart_def split: option.splits prod.splits sum.splits)
  have "sum_list (map (\<lambda>(ep, b). goWork (eOptions env) (Go ep r b Start None)) bs) \<le> (4 + 3 * factor env) * length bs"
    by (induction bs) (auto simp: factor_def)
  also have "\<dots> \<le> (4 + 3 * factor env) * length tss" using batchLoop_length [OF loop] by simp
  finally show ?thesis by (auto simp: f newFan_def o_def case_prod_unfold)
qed

text \<open>
  C30: a request always gets an answer: a run takes at most \<open>1 + (4 + 3 * factor) * length tss\<close> steps, and as long
  as the request has not been answered some step is possible, even if the forward timeout never fires
  (\<open>eTimeout\<close> may be false); no interleaving of the goroutines deadlocks.
\<close>

theorem handleRequest_returns:
  assumes "handleRequest env rep tss w0 = (Inr f0, w)" and "(stepRel env ^^ n) (w, f0) (w', f)"
  shows "n \<le> 1 + (4 + 3 * factor env) * length tss \<and> (fanRet f = None \<longrightarrow> (\<exists>next. stepRel env (w', f) next))"
proof -
  have "n + fanWork (eOptions env) f \<le> fanWork (eOptions env) f0" "fanLive f"
    using steps_work [OF assms(2)] handleRequest_work [OF assms(1)] by auto
  with handleRequest_work [OF assms(1)] live_progress(2) [of f env w'] show ?thesis
    by (auto simp: stepRel_def)
qed

section \<open>A replicated write\<close>

lemma sampleHash: "seriesHash sumRing [] (seriesOf 1) = 767"
  by (simp add: seriesOf_hash)

lemma sampleGetN:
  "n \<in> {0, 1, 2} \<Longrightarrow> GetN sumRing sampleRing [] (seriesOf 1) n
     = (Inr ([''a'', ''b'', ''c''] ! unat ((767 + n) mod 3), seriesOf 1), sampleRing)"
  by (auto simp: sampleRing_def simpleGetN_def seriesOf_sorted sampleHash word_le_nat_alt)

lemma sample_start: "handleRequest sampleReceiver 0 [seriesOf 1] sampleWorld = (Inr (topFan Start None 0 None), sampleWorld)"
  by (simp add: handleRequest_def requestReplica_def sampleReceiver_def forwardStart_def sampleWorld_def sampleGetN
      topFan_def newFan_def addToBatch_def)

lemma sample_replicate:
  "replicateStart sampleReceiver [seriesOf 1] sampleWorld = (Inr ([seriesOf 1], subFan Start Start 0 None), sampleWorld)"
  by (simp add: replicateStart_def sampleReceiver_def sampleWorld_def sampleGetN upt_rec
      subFan_def newFan_def leafAt_def writeQuorum_def)

lemma sample_top: "fanStep sampleReceiver w f w' f' \<Longrightarrow>
    stepRel sampleReceiver (w, topFan st (Some f) n ret) (w', topFan st (Some f') n ret)"
  using goStep_fanStep.works [OF replicate_works, of sampleReceiver w f w' f' 1 "[]" "''c''" "Replica 0 False" "[seriesOf 1]" st "[]" n "[]" ret]
  by (simp add: stepRel_def topFan_def)

lemma sample_c: "goStep sampleReceiver w (leafAt ''c'' 0 x) w' (leafAt ''c'' 0 y) \<Longrightarrow>
    fanStep sampleReceiver w (subFan x a n ret) w' (subFan y a n ret)"
  using goStep_fanStep.works [of sampleReceiver w "leafAt ''c'' 0 x" w' "leafAt ''c'' 0 y" 2 "[]" "[leafAt ''a'' 1 a, leafAt ''b'' 2 Start]" n "[]" ret]
  by (simp add: subFan_def)

lemma sample_a: "goStep sampleReceiver w (leafAt ''a'' 1 x) w' (leafAt ''a'' 1 y) \<Longrightarrow>
    fanStep sampleReceiver w (subFan c x n ret) w' (subFan c y n ret)"
  using goStep_fanStep.works [of sampleReceiver w "leafAt ''a'' 1 x" w' "leafAt ''a'' 1 y" 2 "[leafAt ''c'' 0 c]" "[leafAt ''b'' 2 Start]" n "[]" ret]
  by (simp add: subFan_def)

lemma sample_allowed: "ep \<in> {''a'', ''c''} \<Longrightarrow> goStep sampleReceiver (ackWorld eps) (leafAt ep n Start) (ackWorld eps) (leafAt ep n Allowed)"
  using allowed [of sampleReceiver "Replica n True" ep 0 "ackWorld eps" "[seriesOf 1]"]
  by (auto simp: leafAt_def mustReplicate_def sampleReceiver_def backingOff_def ackWorld_def sampleWorld_def List.insert_def)

lemma sample_remote: "goStep sampleReceiver (ackWorld eps) (leafAt ep n Allowed) (ackWorld (ep # eps)) (leafAt ep n (Sending None))"
  using remote_ok [of sampleReceiver "ackWorld eps" ep "Replica n True" "[seriesOf 1]"]
  by (simp add: leafAt_def ackWorld_def sampleWorld_def)

lemma sample_receive_c:
  "fanStep sampleReceiver w (subFan (Sending None) a 0 None) w (subFan (Finished None) a 1 None)"
  using receive_ok [of sampleReceiver w 2 "[]" "''c''" "Replica 0 True" "[seriesOf 1]" None
      "[leafAt ''a'' 1 a, leafAt ''b'' 2 Start]" 0 "[]"]
  by (simp add: subFan_def leafAt_def)

lemma sample_receive_a:
  "fanStep sampleReceiver w (subFan c (Sending None) 1 None) w (subFan c (Finished None) 2 (Some None))"
  using receive_ok [of sampleReceiver w 2 "[leafAt ''c'' 0 c]" "''a''" "Replica 1 True" "[seriesOf 1]" None
      "[leafAt ''b'' 2 Start]" 1 "[]"]
  by (simp add: subFan_def leafAt_def numeral_2_eq_2)

lemma ackWorld_Nil: "ackWorld [] = sampleWorld"
  by (simp add: ackWorld_def sampleWorld_def)

lemma sample_run: "(stepRel sampleReceiver ^^ 9) (sampleWorld, topFan Start None 0 None) answered"
proof -
  let ?R = "stepRel sampleReceiver"
  have 1: "?R (sampleWorld, topFan Start None 0 None) (ackWorld [], topFan Waiting (Some (subFan Start Start 0 None)) 0 None)"
    using goStep_fanStep.works [OF replicate_starts [OF _ sample_replicate], of "Replica 0 False" 1 "[]" "''c''" "[]" 0 "[]" None]
    by (simp add: stepRel_def topFan_def mustReplicate_def sampleReceiver_def ackWorld_Nil word_less_nat_alt)
  have 2: "?R (ackWorld [], topFan Waiting (Some (subFan Start Start 0 None)) 0 None)
      (ackWorld [], topFan Waiting (Some (subFan Allowed Start 0 None)) 0 None)"
    by (intro sample_top sample_c sample_allowed) simp
  have 3: "?R (ackWorld [], topFan Waiting (Some (subFan Allowed Start 0 None)) 0 None)
      (ackWorld [''c''], topFan Waiting (Some (subFan (Sending None) Start 0 None)) 0 None)"
    by (intro sample_top sample_c sample_remote)
  have 4: "?R (ackWorld [''c''], topFan Waiting (Some (subFan (Sending None) Start 0 None)) 0 None)
      (ackWorld [''c''], topFan Waiting (Some (subFan (Finished None) Start 1 None)) 0 None)"
    by (intro sample_top sample_receive_c)
  have 5: "?R (ackWorld [''c''], topFan Waiting (Some (subFan (Finished None) Start 1 None)) 0 None)
      (ackWorld [''c''], topFan Waiting (Some (subFan (Finished None) Allowed 1 None)) 0 None)"
    by (intro sample_top sample_a sample_allowed) simp
  have 6: "?R (ackWorld [''c''], topFan Waiting (Some (subFan (Finished None) Allowed 1 None)) 0 None)
      (ackWorld [''a'', ''c''], topFan Waiting (Some (subFan (Finished None) (Sending None) 1 None)) 0 None)"
    by (intro sample_top sample_a sample_remote)
  have 7: "?R (ackWorld [''a'', ''c''], topFan Waiting (Some (subFan (Finished None) (Sending None) 1 None)) 0 None)
      (ackWorld [''a'', ''c''], topFan Waiting (Some (subFan (Finished None) (Finished None) 2 (Some None))) 0 None)"
    by (intro sample_top sample_receive_a)
  let ?sub = "subFan (Finished None) (Finished None) 2 (Some None)"
  have 8: "?R (ackWorld [''a'', ''c''], topFan Waiting (Some ?sub) 0 None)
      (ackWorld [''a'', ''c''], topFan (Sending None) (Some ?sub) 0 None)"
    using goStep_fanStep.works [OF replicate_returns, of ?sub None sampleReceiver "ackWorld [''a'', ''c'']" 1 "[]" "''c''"
        "Replica 0 False" "[seriesOf 1]" "[]" 0 "[]" None]
    by (simp add: stepRel_def topFan_def subFan_def replicateResult_def)
  have 9: "?R (ackWorld [''a'', ''c''], topFan (Sending None) (Some ?sub) 0 None) answered"
    using receive_ok [of sampleReceiver "ackWorld [''a'', ''c'']" 1 "[]" "''c''" "Replica 0 False" "[seriesOf 1]" "Some ?sub" "[]" 0 "[]"]
    by (simp add: stepRel_def topFan_def answered_def)
  note 1 2 3 4 5 6 7 8 9
  then have "(?R OO ?R OO ?R OO ?R OO ?R OO ?R OO ?R OO ?R OO ?R) (sampleWorld, topFan Start None 0 None) answered"
    by blast
  then show ?thesis by (simp add: numeral_eq_Suc relcompp_assoc eq_OO)
qed

lemma sample_served: "ringServes sampleRing (eTenant sampleReceiver) [''a'', ''b'', ''c'']"
  by (simp add: ringServes_def sampleRing_def)

lemma sample_facts:
  "hashOf sampleReceiver (sortLabels (seriesOf 1)) = 767" "factor sampleReceiver = 3"
  "fanRet (snd answered) = Some None" "wRing sampleWorld = Some sampleRing"
  "(stepRel sampleReceiver)\<^sup>*\<^sup>* (sampleWorld, topFan Start None 0 None) (fst answered, snd answered)"
  using relpowp_imp_rtranclp [OF sample_run]
  by (simp_all add: hashOf_def seriesOf_sorted sampleHash factor_def sampleReceiver_def answered_def topFan_def sampleWorld_def)

theorem handleRequest_quorum_witness:
  "handleRequest sampleReceiver 0 [seriesOf 1] sampleWorld = (Inr (topFan Start None 0 None), sampleWorld)
   \<and> 2 \<le> card {ep \<in> set (assigned sampleReceiver [''a'', ''b'', ''c''] (sortLabels (seriesOf 1))).
         \<exists>b. (ep, b) \<in> set (wAcks (fst answered)) \<and> sortLabels (seriesOf 1) \<in> set b}"
  using handleRequest_quorum [OF sample_start sample_facts(5,3,4) sample_served] sample_start
  by (simp add: sample_facts)

theorem handleRequest_returns_witness:
  "(stepRel sampleReceiver ^^ 9) (sampleWorld, topFan Start None 0 None) answered
   \<and> 9 \<le> 1 + (4 + 3 * factor sampleReceiver) * length [seriesOf 1]"
  using handleRequest_returns [OF sample_start, of 9 "fst answered" "snd answered"] sample_run by simp

text \<open>
  Nodes that the configuration lists twice count once: the only goroutine of such a batch succeeds, the
  threshold of two is not reached, and the call returns success all the same.
\<close>

lemma duplicate_nodes_no_quorum:
  assumes "hReplicationFactor (eOptions env) = 3" and "wRing w = Some (SimpleRing [a, a, a])" and "b \<noteq> []"
  shows "\<exists>b' w'. replicateStart env b w = (Inr (b', Fan 2 [Go a (Replica 2 True) b' Start None] 0 [] None), w')
    \<and> fanStep env w' (Fan 2 [Go a (Replica 2 True) b' (Finished None) None] 1 [] None)
         w' (Fan 2 [Go a (Replica 2 True) b' (Finished None) None] 1 [] (Some None))"
proof -
  obtain ts bs where b: "b = ts # bs" using assms(3) by (cases b) auto
  have get: "simpleGetN rh [a, a, a] t x n = Inr (a, sortLabels x)" if "n \<in> {0, 1, 2}" for rh t x n
  proof -
    have "[a, a, a] ! unat (h mod 3) = a" for h :: "64 word"
    proof -
      have "unat (h mod 3) < 3" by (simp add: unat_mod)
      then show ?thesis by (auto simp: less_Suc_eq numeral_3_eq_3)
    qed
    then show ?thesis using that by (auto simp: simpleGetN_def Let_def word_le_nat_alt)
  qed
  have start: "replicateStart env b w = (Inr (sortLabels ts # bs, Fan 2 [Go a (Replica 2 True) (sortLabels ts # bs) Start None] 0 [] None), w)"
    by (simp add: replicateStart_def assms(1,2) b upt_rec get newFan_def writeQuorum_def)
  show ?thesis
    using goStep_fanStep.closed [of "[Go a (Replica 2 True) (sortLabels ts # bs) (Finished None) None]" env w 2 1 "[]"] start
    by (auto simp: errsErr_def)
qed

end
