(* ===== verification/Postings.thy ===== *)
theory Postings
  imports Labelpb
begin

text \<open>
  Iterators over sorted lists of series references: the big-endian lists of an index file
  (\<^verbatim>\<open>bigEndianPostings\<close> in \<^verbatim>\<open>pkg/store/bucket.go\<close>) and the compressed lists of the index cache
  (\<^verbatim>\<open>pkg/store/postings_codec.go\<close>: differences as varints, then snappy).

  The interface \<^verbatim>\<open>index.Postings\<close> is the locale \<open>postings_iterator\<close>: \<open>pending\<close> is the list of values an iterator
  has not yet returned. The encoder is a client of the interface and verified once, against its laws.
  The varint functions of the Go library are defined here; snappy is a parameter.
\<close>

unbundle bit_operations_syntax

section \<open>Big-endian postings\<close>

fun be32 :: "bytes \<Rightarrow> 32 word" where
  "be32 (a # b # c # d # bs) =
     push_bit 24 (ucast a) OR push_bit 16 (ucast b) OR push_bit 8 (ucast c) OR ucast d"
| "be32 bs = 0"

record be_postings =
  beList :: bytes
  beCur :: "32 word"

definition newBigEndianPostings :: "bytes \<Rightarrow> be_postings" where
  "newBigEndianPostings bs = \<lparr>beList = bs, beCur = 0\<rparr>"

definition beAt :: "be_postings \<Rightarrow> 64 word" where
  "beAt it = ucast (beCur it)"

definition beNext :: "be_postings \<Rightarrow> bool \<times> be_postings" where
  "beNext it =
     (if length (beList it) \<ge> 4
      then (True, it\<lparr>beCur := be32 (beList it), beList := drop 4 (beList it)\<rparr>)
      else (False, it))"

text \<open>\<^verbatim>\<open>sort.Search\<close>: the smallest index in \<open>[i, j)\<close> at which \<open>f\<close> holds, by bisection.\<close>

function search :: "(nat \<Rightarrow> bool) \<Rightarrow> nat \<Rightarrow> nat \<Rightarrow> nat" where
  "search f i j =
     (if i < j then let h = (i + j) div 2 in if \<not> f h then search f (h + 1) j else search f i h else i)"
  by pat_completeness auto
termination
  by (relation "measure (\<lambda>(f, i, j). j - i)") auto

declare search.simps [simp del]

definition beSeek :: "64 word \<Rightarrow> be_postings \<Rightarrow> bool \<times> be_postings" where
  "beSeek x it =
     (if beAt it \<ge> x then (True, it)
      else let num = length (beList it) div 4;
               i = search (\<lambda>i. be32 (drop (i * 4) (beList it)) \<ge> ucast x) 0 num
           in if i < num
              then (True, it\<lparr>beCur := be32 (drop (i * 4) (beList it)), beList := drop (i * 4 + 4) (beList it)\<rparr>)
              else (False, it\<lparr>beList := []\<rparr>))"

definition beLength :: "be_postings \<Rightarrow> nat" where
  "beLength it = length (beList it) div 4"

section \<open>Difference-encoded postings\<close>

text \<open>\<^verbatim>\<open>binary.Uvarint\<close>; \<open>None\<close> when the buffer is too small or the value overflows.\<close>

fun uvarint :: "nat \<Rightarrow> 64 word \<Rightarrow> bytes \<Rightarrow> (64 word \<times> bytes) option" where
  "uvarint i x [] = None"
| "uvarint i x (b # bs) =
     (if b < 0x80
      then if i > 9 \<or> i = 9 \<and> b > 1 then None else Some (x OR push_bit (7 * i) (ucast b), bs)
      else uvarint (Suc i) (x OR push_bit (7 * i) (ucast (b AND 0x7F))) bs)"

record dv_postings =
  dvBuf :: bytes
  dvErr :: bool
  dvCur :: "64 word"

definition newDiffVarintPostings :: "bytes \<Rightarrow> dv_postings" where
  "newDiffVarintPostings bs = \<lparr>dvBuf = bs, dvErr = False, dvCur = 0\<rparr>"

definition dvNext :: "dv_postings \<Rightarrow> bool \<times> dv_postings" where
  "dvNext it =
     (if dvErr it \<or> dvBuf it = [] then (False, it)
      else case uvarint 0 0 (dvBuf it) of
             None \<Rightarrow> (False, it\<lparr>dvErr := True\<rparr>)
           | Some (val, rest) \<Rightarrow> (True, it\<lparr>dvBuf := rest, dvCur := dvCur it + val\<rparr>))"

lemma uvarint_consumes: "uvarint i x bs = Some (v, rest) \<Longrightarrow> length rest < length bs"
  by (induction i x bs rule: uvarint.induct) (auto split: if_splits simp: less_Suc_eq)

function dvSeekLoop :: "64 word \<Rightarrow> dv_postings \<Rightarrow> bool \<times> dv_postings" where
  "dvSeekLoop x it =
     (case dvNext it of
        (False, it') \<Rightarrow> (False, it')
      | (True, it') \<Rightarrow> if dvCur it' \<ge> x then (True, it') else dvSeekLoop x it')"
  by pat_completeness auto
termination
  by (relation "measure (\<lambda>(x, it). length (dvBuf it))")
    (auto simp: dvNext_def dest: uvarint_consumes split: if_splits option.splits)

declare dvSeekLoop.simps [simp del]

definition dvSeek :: "64 word \<Rightarrow> dv_postings \<Rightarrow> bool \<times> dv_postings" where
  "dvSeek x it = (if dvCur it \<ge> x then (True, it) else dvSeekLoop x it)"

section \<open>The codec\<close>

datatype codec_error = NotIncreasing | PostingsErr | HeaderNotFound | SnappyError | OutOfFuel

text \<open>
  The loop over a postings iterator, given by its operations. The fuel is the number of values plus one.
\<close>

fun encodeLoop ::
  "('s \<Rightarrow> bool \<times> 's) \<Rightarrow> ('s \<Rightarrow> 64 word) \<Rightarrow> ('s \<Rightarrow> bool) \<Rightarrow> nat \<Rightarrow> 64 word \<Rightarrow> 's \<Rightarrow> codec_error + bytes" where
  "encodeLoop next at err 0 prev p = Inl OutOfFuel"
| "encodeLoop next at err (Suc fuel) prev p =
     (case next p of
        (False, p) \<Rightarrow> if err p then Inl PostingsErr else Inr []
      | (True, p) \<Rightarrow>
          if at p < prev then Inl NotIncreasing
          else map_sum id ((@) (encodeVarint (at p - prev))) (encodeLoop next at err fuel (at p) p))"

record snappy =
  snEncode :: "bytes \<Rightarrow> bytes"
  snDecode :: "bytes \<Rightarrow> bytes option"

definition codecHeaderSnappy :: bytes where
  "codecHeaderSnappy = [0x64, 0x76, 0x73]"

definition isDiffVarintSnappyEncodedPostings :: "bytes \<Rightarrow> bool" where
  "isDiffVarintSnappyEncodedPostings input = (take 3 input = codecHeaderSnappy)"

definition diffVarintSnappyEncode ::
  "snappy \<Rightarrow> ('s \<Rightarrow> bool \<times> 's) \<Rightarrow> ('s \<Rightarrow> 64 word) \<Rightarrow> ('s \<Rightarrow> bool) \<Rightarrow> nat \<Rightarrow> 's \<Rightarrow> codec_error + bytes" where
  "diffVarintSnappyEncode sn next at err len p =
     map_sum id (\<lambda>buf. codecHeaderSnappy @ snEncode sn buf) (encodeLoop next at err (Suc len) 0 p)"

definition diffVarintSnappyDecode :: "snappy \<Rightarrow> bytes \<Rightarrow> codec_error + dv_postings" where
  "diffVarintSnappyDecode sn input =
     (if \<not> isDiffVarintSnappyEncodedPostings input then Inl HeaderNotFound
      else case snDecode sn (drop 3 input) of
             None \<Rightarrow> Inl SnappyError
           | Some raw \<Rightarrow> Inr (newDiffVarintPostings raw))"

text \<open>The values an iterator has not yet returned.\<close>

fun bePending :: "bytes \<Rightarrow> 64 word list" where
  "bePending (a # b # c # d # bs) = ucast (be32 [a, b, c, d]) # bePending bs"
| "bePending bs = []"

function dvPending :: "64 word \<Rightarrow> bytes \<Rightarrow> 64 word list" where
  "dvPending cur bs =
     (case uvarint 0 0 bs of None \<Rightarrow> [] | Some (val, rest) \<Rightarrow> (cur + val) # dvPending (cur + val) rest)"
  by pat_completeness auto
termination
  by (relation "measure (\<lambda>(cur, bs). length bs)") (auto dest: uvarint_consumes)

declare dvPending.simps [simp del]

definition differences :: "64 word list \<Rightarrow> bytes" where
  "differences vs = concat (map2 (\<lambda>prev v. encodeVarint (v - prev)) (0 # vs) vs)"

text \<open>The contract of \<^verbatim>\<open>index.Postings\<close>. \<open>seekable\<close> says for which values \<^verbatim>\<open>Seek\<close> may be called.\<close>

locale postings_iterator =
  fixes next_op :: "'s \<Rightarrow> bool \<times> 's"
    and seek_op :: "64 word \<Rightarrow> 's \<Rightarrow> bool \<times> 's"
    and at_op :: "'s \<Rightarrow> 64 word"
    and err_op :: "'s \<Rightarrow> bool"
    and wf :: "'s \<Rightarrow> bool"
    and pending :: "'s \<Rightarrow> 64 word list"
    and seekable :: "64 word \<Rightarrow> bool"
  assumes next_none: "wf s \<Longrightarrow> pending s = [] \<Longrightarrow> \<exists>s'. next_op s = (False, s') \<and> \<not> err_op s'"
    and next_some: "wf s \<Longrightarrow> pending s = v # vs \<Longrightarrow>
      \<exists>s'. next_op s = (True, s') \<and> at_op s' = v \<and> pending s' = vs \<and> wf s'"
    and seek_here: "at_op s \<ge> x \<Longrightarrow> seek_op x s = (True, s)"
    and seek_none: "wf s \<Longrightarrow> at_op s < x \<Longrightarrow> sorted (pending s) \<Longrightarrow> seekable x \<Longrightarrow>
      dropWhile (\<lambda>v. v < x) (pending s) = [] \<Longrightarrow> \<not> fst (seek_op x s)"
    and seek_some: "wf s \<Longrightarrow> at_op s < x \<Longrightarrow> sorted (pending s) \<Longrightarrow> seekable x \<Longrightarrow>
      dropWhile (\<lambda>v. v < x) (pending s) = v # vs \<Longrightarrow>
      \<exists>s'. seek_op x s = (True, s') \<and> at_op s' = v \<and> pending s' = vs \<and> wf s'"
begin

lemma encodeLoop_pending:
  "wf s \<Longrightarrow> length (pending s) < fuel \<Longrightarrow> sorted (prev # pending s) \<Longrightarrow>
     encodeLoop next_op at_op err_op fuel prev s
       = Inr (concat (map2 (\<lambda>prev v. encodeVarint (v - prev)) (prev # pending s) (pending s)))"
proof (induction fuel arbitrary: prev s)
  case (Suc fuel)
  show ?case
  proof (cases "pending s")
    case Nil
    with next_none [OF Suc.prems(1) Nil] show ?thesis by auto
  next
    case (Cons v vs)
    obtain s' where s': "next_op s = (True, s')" "at_op s' = v" "pending s' = vs" "wf s'"
      using next_some [OF Suc.prems(1) Cons] by blast
    with Suc.prems Suc.IH [of s' v] Cons show ?thesis by (auto simp: not_less)
  qed
qed simp

lemma encodeLoop_unsorted:
  "wf s \<Longrightarrow> length (pending s) < fuel \<Longrightarrow> \<not> sorted (prev # pending s) \<Longrightarrow>
     encodeLoop next_op at_op err_op fuel prev s = Inl NotIncreasing"
proof (induction fuel arbitrary: prev s)
  case (Suc fuel)
  obtain v vs where Cons: "pending s = v # vs" using Suc.prems by (cases "pending s") auto
  obtain s' where s': "next_op s = (True, s')" "at_op s' = v" "pending s' = vs" "wf s'"
    using next_some [OF Suc.prems(1) Cons] by blast
  show ?case
  proof (cases "v < prev")
    case False
    then have "\<not> sorted (v # vs)" using Suc.prems(3) Cons by (auto simp: not_less intro: order_trans)
    with False s' Suc.prems Suc.IH [of s' v] Cons show ?thesis by simp
  qed (use s' in simp)
qed simp

end

section \<open>Big-endian lists implement the interface\<close>

definition beWf :: "be_postings \<Rightarrow> bool" where
  "beWf it \<longleftrightarrow> length (beList it) mod 4 = 0"

lemma length_bePending: "length (bePending bs) = length bs div 4"
  by (induction bs rule: bePending.induct) auto

lemma drop4 [simp]: "drop (4 + n) (a # b # c # d # bs) = drop n bs"
  by (simp add: numeral_eq_Suc)

lemma bePending_nth: "i < length bs div 4 \<Longrightarrow> bePending bs ! i = ucast (be32 (drop (i * 4) bs))"
proof (induction bs arbitrary: i rule: bePending.induct)
  case (1 a b c d bs)
  then show ?case by (cases i) auto
qed auto

lemma bePending_short: "length bs < 4 \<Longrightarrow> bePending bs = []"
  using length_bePending [of bs] by simp

lemma bePending_drop: "bePending (drop (i * 4) bs) = drop i (bePending bs)"
proof (induction bs arbitrary: i rule: bePending.induct)
  case (1 a b c d bs)
  then show ?case by (cases i) auto
qed (simp_all add: bePending_short)

lemma search_first:
  assumes "\<And>a b. a \<le> b \<Longrightarrow> b < j \<Longrightarrow> f a \<Longrightarrow> f b" and "i \<le> j"
  shows "i \<le> search f i j \<and> search f i j \<le> j \<and> (\<forall>k. i \<le> k \<and> k < search f i j \<longrightarrow> \<not> f k)
    \<and> (search f i j < j \<longrightarrow> f (search f i j))"
  using assms
proof (induction f i j rule: search.induct)
  case (1 f i j)
  show ?case
  proof (cases "i < j")
    case True
    let ?h = "(i + j) div 2"
    have h: "i \<le> ?h" "?h < j" using True by auto
    show ?thesis
    proof (cases "f ?h")
      case fh: True
      have IH: "i \<le> search f i ?h \<and> search f i ?h \<le> ?h \<and> (\<forall>k. i \<le> k \<and> k < search f i ?h \<longrightarrow> \<not> f k)
        \<and> (search f i ?h < ?h \<longrightarrow> f (search f i ?h))"
        using 1(2) [OF True refl] fh 1(3) h by (meson not_not order_less_trans)
      have "search f i j = search f i ?h" using True fh by (subst search.simps) (simp add: Let_def)
      with IH h fh show ?thesis by (metis le_less order_less_imp_le order_less_le_trans)
    next
      case fh: False
      have IH: "?h + 1 \<le> search f (?h + 1) j \<and> search f (?h + 1) j \<le> j
        \<and> (\<forall>k. ?h + 1 \<le> k \<and> k < search f (?h + 1) j \<longrightarrow> \<not> f k) \<and> (search f (?h + 1) j < j \<longrightarrow> f (search f (?h + 1) j))"
        using 1(1) [OF True refl fh] 1(3) h by (metis Suc_eq_plus1 Suc_leI)
      have eq: "search f i j = search f (?h + 1) j" using True fh by (subst search.simps) (simp add: Let_def)
      have "\<not> f k" if k: "i \<le> k" "k < search f (?h + 1) j" for k
      proof (cases "k \<le> ?h")
        case True
        with fh 1(3) [of k ?h] h(2) show ?thesis by blast
      next
        case False
        with IH k show ?thesis by auto
      qed
      with IH eq h show ?thesis by (metis Suc_eq_plus1 Suc_leD le_trans)
    qed
  next
    case False
    then have "search f i j = i" by (subst search.simps) simp
    with False 1(4) show ?thesis by auto
  qed
qed

lemma dropWhile_index:
  "\<forall>k < i. P (xs ! k) \<Longrightarrow> i \<le> length xs \<Longrightarrow> (i < length xs \<longrightarrow> \<not> P (xs ! i)) \<Longrightarrow> dropWhile P xs = drop i xs"
proof (induction xs arbitrary: i)
  case (Cons x xs)
  show ?case
  proof (cases i)
    case 0
    with Cons.prems show ?thesis by auto
  next
    case (Suc j)
    have "P x" using Cons.prems(1) Suc by force
    moreover have "\<forall>k < j. P (xs ! k)" using Cons.prems(1) Suc by force
    ultimately show ?thesis using Cons.IH [of j] Cons.prems Suc by simp
  qed
qed simp

lemma ucast_32_le: "x < 2 ^ 32 \<Longrightarrow> (ucast x :: 32 word) \<le> b \<longleftrightarrow> x \<le> ucast b" for x :: "64 word"
proof -
  have "unat b < 2 ^ LENGTH(32)" by (rule unsigned_less)
  then show "x < 2 ^ 32 \<Longrightarrow> ?thesis"
    by (simp add: word_le_nat_alt word_less_nat_alt unsigned_ucast_eq take_bit_nat_eq_self)
qed

lemma beSeek_search:
  assumes "beAt it < x" and "sorted (bePending (beList it))" and "x < 2 ^ 32"
  shows "beSeek x it =
    (case dropWhile (\<lambda>v. v < x) (bePending (beList it)) of
       [] \<Rightarrow> (False, it\<lparr>beList := []\<rparr>)
     | v # vs \<Rightarrow> (let i = length (bePending (beList it)) - Suc (length vs)
         in (True, it\<lparr>beCur := be32 (drop (i * 4) (beList it)), beList := drop (i * 4 + 4) (beList it)\<rparr>)))"
proof -
  let ?bs = "beList it" and ?vs = "bePending (beList it)"
  let ?f = "\<lambda>i. be32 (drop (i * 4) ?bs) \<ge> ucast x"
  define i where "i = search ?f 0 (length ?bs div 4)"
  have f: "?f k \<longleftrightarrow> x \<le> ?vs ! k" if "k < length ?bs div 4" for k
    using that assms(3) by (simp add: bePending_nth ucast_32_le)
  have "?f b" if "a \<le> b" "b < length ?bs div 4" "?f a" for a b
    using that f [of a] f [of b] sorted_nth_mono [OF assms(2), of a b] by (simp add: length_bePending)
  from search_first [of "length ?bs div 4" ?f 0, OF this] have i:
    "i \<le> length ?bs div 4" "\<forall>k < i. \<not> ?f k" "i < length ?bs div 4 \<longrightarrow> ?f i"
    by (auto simp: i_def)
  have drop: "dropWhile (\<lambda>v. v < x) ?vs = drop i ?vs"
    using i f by (intro dropWhile_index) (auto simp: length_bePending not_le not_less)
  have seek: "beSeek x it = (if i < length ?bs div 4
      then (True, it\<lparr>beCur := be32 (drop (i * 4) ?bs), beList := drop (i * 4 + 4) ?bs\<rparr>)
      else (False, it\<lparr>beList := []\<rparr>))"
    using assms(1) by (simp add: beSeek_def i_def Let_def not_le)
  show ?thesis
  proof (cases "i < length ?bs div 4")
    case True
    then have "drop i ?vs = ?vs ! i # drop (Suc i) ?vs" by (simp add: Cons_nth_drop_Suc length_bePending)
    moreover have "length ?vs - Suc (length (drop (Suc i) ?vs)) = i" using True by (simp add: length_bePending)
    ultimately show ?thesis using True by (simp add: drop seek)
  next
    case False
    then show ?thesis using i(1) by (simp add: drop seek length_bePending)
  qed
qed

interpretation be: postings_iterator beNext beSeek beAt "\<lambda>_. False" "\<lambda>_. True" "\<lambda>it. bePending (beList it)" "\<lambda>x. x < 2 ^ 32"
proof
  fix s :: be_postings and v vs
  show "\<exists>s'. beNext s = (False, s') \<and> \<not> False" if "bePending (beList s) = []"
    using that length_bePending [of "beList s"] by (auto simp: beNext_def)
  show "\<exists>s'. beNext s = (True, s') \<and> beAt s' = v \<and> bePending (beList s') = vs \<and> True"
    if p: "bePending (beList s) = v # vs"
  proof -
    have "0 < length (beList s) div 4" using p length_bePending [of "beList s"] by simp
    then have "length (beList s) \<ge> 4" by simp
    moreover have "v = ucast (be32 (beList s))" "vs = bePending (drop 4 (beList s))"
      using p bePending_nth [of 0 "beList s"] bePending_drop [of 1 "beList s"] \<open>0 < length (beList s) div 4\<close> by simp_all
    ultimately show ?thesis by (simp add: beNext_def beAt_def)
  qed
next
  fix s :: be_postings and x v vs
  show "beSeek x s = (True, s)" if "beAt s \<ge> x" using that by (simp add: beSeek_def)
  assume a: "beAt s < x" "sorted (bePending (beList s))" "x < 2 ^ 32"
  show "\<not> fst (beSeek x s)" if "dropWhile (\<lambda>v. v < x) (bePending (beList s)) = []"
    using beSeek_search [OF a] that by simp
  show "\<exists>s'. beSeek x s = (True, s') \<and> beAt s' = v \<and> bePending (beList s') = vs \<and> True"
    if d: "dropWhile (\<lambda>v. v < x) (bePending (beList s)) = v # vs"
  proof -
    define i where "i = length (bePending (beList s)) - Suc (length vs)"
    obtain us where us: "bePending (beList s) = us @ v # vs" by (metis d takeWhile_dropWhile_id)
    then have "i = length us" by (simp add: i_def)
    with us have "v = bePending (beList s) ! i" "vs = drop (Suc i) (bePending (beList s))"
      "i < length (beList s) div 4"
      by (simp_all flip: length_bePending)
    moreover have "beSeek x s = (True, s\<lparr>beCur := be32 (drop (i * 4) (beList s)), beList := drop (i * 4 + 4) (beList s)\<rparr>)"
      using beSeek_search [OF a] d by (simp add: i_def Let_def)
    ultimately show ?thesis
      using bePending_nth [of i "beList s"] bePending_drop [of "Suc i" "beList s"] by (simp add: beAt_def add.commute)
  qed
qed

section \<open>Difference-encoded lists implement the interface\<close>

function dvWf :: "bytes \<Rightarrow> bool" where
  "dvWf bs \<longleftrightarrow> bs = [] \<or> (case uvarint 0 0 bs of None \<Rightarrow> False | Some (_, rest) \<Rightarrow> dvWf rest)"
  by pat_completeness auto
termination
  by (relation "measure length") (auto dest: uvarint_consumes)

declare dvWf.simps [simp del]

lemma dvPending_Nil [simp]: "dvPending cur [] = []"
  by (simp add: dvPending.simps)

lemma dvNext_pending:
  assumes "dvWf (dvBuf it)" and "\<not> dvErr it"
  shows "(case dvPending (dvCur it) (dvBuf it) of
     [] \<Rightarrow> dvNext it = (False, it)
   | v # vs \<Rightarrow> \<exists>it'. dvNext it = (True, it') \<and> dvCur it' = v \<and> dvPending (dvCur it') (dvBuf it') = vs
       \<and> dvWf (dvBuf it') \<and> \<not> dvErr it')"
proof (cases "dvBuf it = []")
  case True
  then show ?thesis by (simp add: dvNext_def)
next
  case False
  then obtain val rest where "uvarint 0 0 (dvBuf it) = Some (val, rest)" "dvWf rest"
    using assms(1) by (subst (asm) dvWf.simps) (auto split: option.splits)
  then show ?thesis using False assms(2) by (subst dvPending.simps) (simp add: dvNext_def)
qed

lemma dvSeekLoop_pending:
  "dvWf (dvBuf it) \<Longrightarrow> \<not> dvErr it \<Longrightarrow>
   (case dropWhile (\<lambda>v. v < x) (dvPending (dvCur it) (dvBuf it)) of
      [] \<Rightarrow> \<not> fst (dvSeekLoop x it)
    | v # vs \<Rightarrow> \<exists>it'. dvSeekLoop x it = (True, it') \<and> dvCur it' = v \<and> dvPending (dvCur it') (dvBuf it') = vs
        \<and> dvWf (dvBuf it') \<and> \<not> dvErr it')"
proof (induction x it rule: dvSeekLoop.induct)
  case (1 x it)
  note nxt = dvNext_pending [OF 1(2,3)]
  show ?case
  proof (cases "dvPending (dvCur it) (dvBuf it)")
    case Nil
    then show ?thesis using nxt by (subst dvSeekLoop.simps) simp
  next
    case (Cons v vs)
    then obtain it' where it': "dvNext it = (True, it')" "dvCur it' = v" "dvPending (dvCur it') (dvBuf it') = vs"
      "dvWf (dvBuf it')" "\<not> dvErr it'" using nxt by auto
    show ?thesis
    proof (cases "v < x")
      case True
      then have below: "\<not> x \<le> dvCur it'" using it'(2) by simp
      then have eq: "dvSeekLoop x it = dvSeekLoop x it'" using it'(1) by (subst dvSeekLoop.simps) simp
      show ?thesis unfolding eq using below 1(1) [OF it'(1) [symmetric] _ _ it'(4,5)] True Cons it'(3) by simp
    next
      case False
      then have "dvSeekLoop x it = (True, it')" using it' by (subst dvSeekLoop.simps) (simp add: not_less)
      then show ?thesis using False Cons it' by simp
    qed
  qed
qed

interpretation dv: postings_iterator dvNext dvSeek dvCur dvErr "\<lambda>it. dvWf (dvBuf it) \<and> \<not> dvErr it"
  "\<lambda>it. dvPending (dvCur it) (dvBuf it)" "\<lambda>_. True"
proof
  fix s :: dv_postings and v vs
  assume wf: "dvWf (dvBuf s) \<and> \<not> dvErr s"
  show "\<exists>s'. dvNext s = (False, s') \<and> \<not> dvErr s'" if "dvPending (dvCur s) (dvBuf s) = []"
    using dvNext_pending [of s] wf that by auto
  show "\<exists>s'. dvNext s = (True, s') \<and> dvCur s' = v \<and> dvPending (dvCur s') (dvBuf s') = vs \<and> dvWf (dvBuf s') \<and> \<not> dvErr s'"
    if "dvPending (dvCur s) (dvBuf s) = v # vs"
    using dvNext_pending [of s] wf that by auto
next
  fix s :: dv_postings and x v vs
  show "dvSeek x s = (True, s)" if "x \<le> dvCur s" using that by (simp add: dvSeek_def)
  assume a: "dvWf (dvBuf s) \<and> \<not> dvErr s" "dvCur s < x"
  show "\<not> fst (dvSeek x s)" if "dropWhile (\<lambda>v. v < x) (dvPending (dvCur s) (dvBuf s)) = []"
    using dvSeekLoop_pending [of s x] a(1) a(2) [folded not_le] that by (simp add: dvSeek_def)
  show "\<exists>s'. dvSeek x s = (True, s') \<and> dvCur s' = v \<and> dvPending (dvCur s') (dvBuf s') = vs \<and> dvWf (dvBuf s') \<and> \<not> dvErr s'"
    if "dropWhile (\<lambda>v. v < x) (dvPending (dvCur s) (dvBuf s)) = v # vs"
    using dvSeekLoop_pending [of s x] a(1) a(2) [folded not_le] that by (simp add: dvSeek_def)
qed

section \<open>Round trip\<close>

lemma small_ucast:
  fixes v :: "64 word"
  assumes "v < 0x80"
  shows "(ucast v :: byte) < 0x80 \<and> ucast (ucast v :: byte) = v \<and> (1 < (ucast v :: byte) \<longleftrightarrow> 1 < v)"
  using assms by (simp add: word_less_nat_alt unsigned_ucast_eq unsigned_take_bit_eq take_bit_nat_eq_self word_unat_eq_iff)

lemma uvarint_encode:
  "i \<le> 9 \<Longrightarrow> unat v < 2 ^ (64 - 7 * i) \<Longrightarrow> uvarint i x (encodeVarint v @ rest) = Some (x OR push_bit (7 * i) v, rest)"
proof (induction v arbitrary: i x rule: encodeVarint.induct)
  case (1 v)
  show ?case
  proof (cases "v \<ge> 0x80")
    case True
    have "7 * i < 57" "unat (drop_bit 7 v) < 2 ^ (64 - 7 * Suc i)"
      using drop_bit_fits [OF True 1(3)] by (simp_all add: add.commute)
    with 1(1) [OF True, of "Suc i"]
    have "uvarint (Suc i) x' (encodeVarint (drop_bit 7 v) @ rest) = Some (x' OR push_bit (7 * i + 7) (drop_bit 7 v), rest)" for x'
      by (simp add: add.commute)
    then show ?thesis
      using True by (simp add: encodeVarint.simps [of v] low_bits high_byte or.assoc split_bits del: push_bit_and)
  next
    case False
    then have "encodeVarint v = [ucast v]" by (subst encodeVarint.simps) simp
    moreover have "i = 9 \<longrightarrow> \<not> 1 < v" using 1(3) by (auto simp: word_less_nat_alt)
    ultimately show ?thesis using 1(2) small_ucast [of v] False by (auto simp: not_le)
  qed
qed

lemma encodeVarint_nonempty: "encodeVarint v \<noteq> []"
  by (subst encodeVarint.simps) simp

lemma dvPending_differences:
  "sorted (prev # vs) \<Longrightarrow>
     dvPending prev (concat (map2 (\<lambda>prev v. encodeVarint (v - prev)) (prev # vs) vs)) = vs
     \<and> dvWf (concat (map2 (\<lambda>prev v. encodeVarint (v - prev)) (prev # vs) vs))"
proof (induction vs arbitrary: prev)
  case Nil
  then show ?case by (simp add: dvWf.simps)
next
  case (Cons v vs)
  let ?rest = "concat (map2 (\<lambda>prev v. encodeVarint (v - prev)) (v # vs) vs)"
  have "unat (v - prev) < 2 ^ LENGTH(64)" by (rule unsigned_less)
  then have u: "uvarint 0 0 (encodeVarint (v - prev) @ ?rest) = Some (v - prev, ?rest)"
    using uvarint_encode [of 0 "v - prev" 0 ?rest] by simp
  from Cons have IH: "dvPending v ?rest = vs" "dvWf ?rest" by simp_all
  show ?case using u IH by (subst dvPending.simps, subst dvWf.simps) (simp add: encodeVarint_nonempty)
qed

lemma codec_sorted:
  assumes "\<forall>b. snDecode sn (snEncode sn b) = Some b" and "sorted (bePending (beList p))"
  shows "\<exists>data it. diffVarintSnappyEncode sn beNext beAt (\<lambda>_. False) (beLength p) p = Inr data
    \<and> isDiffVarintSnappyEncodedPostings data \<and> diffVarintSnappyDecode sn data = Inr it
    \<and> dvPending (dvCur it) (dvBuf it) = bePending (beList p) \<and> dvWf (dvBuf it) \<and> \<not> dvErr it"
proof -
  let ?vs = "bePending (beList p)"
  have len: "length ?vs < Suc (beLength p)" by (simp add: beLength_def length_bePending)
  have "sorted (0 # ?vs)" using assms(2) by simp
  from be.encodeLoop_pending [OF _ len this] dvPending_differences [OF this] assms(1) show ?thesis
    by (simp add: diffVarintSnappyEncode_def diffVarintSnappyDecode_def isDiffVarintSnappyEncodedPostings_def
        codecHeaderSnappy_def newDiffVarintPostings_def)
qed

text \<open>
  C37: the compressed postings of the index cache are lossless: for every sorted big-endian list, encoding
  succeeds and decoding the result gives an iterator over exactly the same references, without an error;
  a list that is not sorted is rejected.
\<close>

theorem postings_codec_roundtrip:
  assumes "\<forall>b. snDecode sn (snEncode sn b) = Some b"
  shows "case diffVarintSnappyEncode sn beNext beAt (\<lambda>_. False) (beLength p) p of
      Inr data \<Rightarrow> sorted (bePending (beList p)) \<and>
        (\<exists>it. diffVarintSnappyDecode sn data = Inr it \<and> dvPending (dvCur it) (dvBuf it) = bePending (beList p)
           \<and> dvWf (dvBuf it) \<and> \<not> dvErr it)
    | Inl e \<Rightarrow> e = NotIncreasing \<and> \<not> sorted (bePending (beList p))"
proof (cases "sorted (bePending (beList p))")
  case True
  with codec_sorted [OF assms True] show ?thesis by auto
next
  case False
  then have "\<not> sorted (0 # bePending (beList p))" by simp
  moreover have "length (bePending (beList p)) < Suc (beLength p)" by (simp add: beLength_def length_bePending)
  ultimately have "encodeLoop beNext beAt (\<lambda>_. False) (Suc (beLength p)) 0 p = Inl NotIncreasing"
    by (intro be.encodeLoop_unsorted) auto
  then show ?thesis using False by (simp add: diffVarintSnappyEncode_def del: encodeLoop.simps)
qed

definition storedSnappy :: snappy where
  "storedSnappy = \<lparr>snEncode = id, snDecode = Some\<rparr>"

theorem postings_codec_roundtrip_witness:
  "(\<exists>data it. diffVarintSnappyEncode storedSnappy beNext beAt (\<lambda>_. False) 2 (newBigEndianPostings [0, 0, 0, 5, 0, 0, 1, 0]) = Inr data
     \<and> diffVarintSnappyDecode storedSnappy data = Inr it \<and> dvPending (dvCur it) (dvBuf it) = [5, 256])"
proof -
  have pend: "bePending [0, 0, 0, 5, 0, 0, 1, 0] = [5, 256]" by simp
  have enc: "diffVarintSnappyEncode storedSnappy beNext beAt (\<lambda>_. False) 2 (newBigEndianPostings [0, 0, 0, 5, 0, 0, 1, 0]) \<noteq> Inl e" for e
    using postings_codec_roundtrip [of storedSnappy "newBigEndianPostings [0, 0, 0, 5, 0, 0, 1, 0]"] pend
    by (auto simp: storedSnappy_def beLength_def newBigEndianPostings_def)
  then obtain data where "diffVarintSnappyEncode storedSnappy beNext beAt (\<lambda>_. False) 2 (newBigEndianPostings [0, 0, 0, 5, 0, 0, 1, 0]) = Inr data"
    by (metis sum.exhaust)
  with postings_codec_roundtrip [of storedSnappy "newBigEndianPostings [0, 0, 0, 5, 0, 0, 1, 0]"] pend show ?thesis
    by (auto simp: storedSnappy_def beLength_def newBigEndianPostings_def)
qed

text \<open>\<^verbatim>\<open>Seek\<close> of a big-endian list compares only the low 32 bits of its argument.\<close>

lemma beSeek_truncates: "beSeek (2 ^ 32) (newBigEndianPostings [0, 0, 0, 5]) = (True, \<lparr>beList = [], beCur = 5\<rparr>)"
  by (simp add: beSeek_def beAt_def newBigEndianPostings_def Let_def search.simps)

end
