(* ===== verification/Bucket_Index.thy ===== *)
theory Bucket_Index
  imports Postings
begin

text \<open>
  How the store gateway reads the postings of a block (\<^verbatim>\<open>pkg/store/bucket.go\<close>): they come from the index cache or, in
  few combined range reads, from the index in the object store. The main result is that fetching is exact
  and never slices out of bounds.

  An iterator over postings is represented by the list of its values, which the interface
  \<open>postings_iterator\<close> justifies. Reads of the index either fail or return the bytes they ask for. The reads of the parts run
  concurrently in the code and write to different entries of the output; here they run in order.
\<close>

section \<open>Combining ranges\<close>

record part =
  partStart :: "64 word"
  partEnd :: "64 word"
  partFrom :: nat
  partTo :: nat

type_synonym ranges = "(64 word \<times> 64 word) list"

fun growPart :: "64 word \<Rightarrow> 64 word \<Rightarrow> nat \<Rightarrow> ranges \<Rightarrow> 64 word \<times> nat \<times> ranges" where
  "growPart maxGapSize e k [] = (e, k, [])"
| "growPart maxGapSize e k ((s, e') # rs) =
     (if e + maxGapSize < s then (e, k, (s, e') # rs)
      else growPart maxGapSize (if e \<le> e' then e' else e) (Suc k) rs)"

lemma growPart_shorter: "growPart g e k rs = (e', k', rest) \<Longrightarrow> length rest \<le> length rs"
  by (induction g e k rs rule: growPart.induct) (auto split: if_splits)

function Partition :: "64 word \<Rightarrow> nat \<Rightarrow> ranges \<Rightarrow> part list" where
  "Partition maxGapSize j [] = []"
| "Partition maxGapSize j ((s, e) # rs) =
     (let (e', k, rest) = growPart maxGapSize e (Suc j) rs
      in \<lparr>partStart = s, partEnd = e', partFrom = j, partTo = k\<rparr> # Partition maxGapSize k rest)"
  by pat_completeness auto
termination
  by (relation "measure (\<lambda>(g, j, rs). length rs)") (auto dest: growPart_shorter [OF sym])

section \<open>Fetching postings\<close>

datatype offset = Range int int | NotFoundRange | OffsetErr

datatype fetch_error = DecodeError | OffsetError | ReadError | InvalidSize | SlicePanic

record block_index =
  biCache :: "string \<times> string \<Rightarrow> bytes option"
  biOffset :: "string \<times> string \<Rightarrow> offset"
  biRead :: "int \<Rightarrow> int \<Rightarrow> bytes option"
  biSnappy :: snappy
  biDecode :: "bytes \<Rightarrow> 64 word list option"
  biGap :: "64 word"

definition cachedPostings :: "block_index \<Rightarrow> bytes \<Rightarrow> fetch_error + 64 word list" where
  "cachedPostings bi b =
     (if isDiffVarintSnappyEncodedPostings b
      then case diffVarintSnappyDecode (biSnappy bi) b of
             Inl _ \<Rightarrow> Inl DecodeError
           | Inr it \<Rightarrow> Inr (dvPending (dvCur it) (dvBuf it))
      else case biDecode bi b of None \<Rightarrow> Inl DecodeError | Some l \<Rightarrow> Inr l)"

text \<open>The loop over the keys: what is known already, and the pointers to fetch.\<close>

fun keysLoop ::
  "block_index \<Rightarrow> nat \<Rightarrow> (string \<times> string) list \<Rightarrow> fetch_error + 64 word list option list \<times> (nat \<times> int \<times> int) list" where
  "keysLoop bi ix [] = Inr ([], [])"
| "keysLoop bi ix (key # keys) =
     (case biCache bi key of
        Some b \<Rightarrow>
          (case cachedPostings bi b of
             Inl e \<Rightarrow> Inl e
           | Inr l \<Rightarrow> map_sum id (\<lambda>(out, ptrs). (Some l # out, ptrs)) (keysLoop bi (Suc ix) keys))
      | None \<Rightarrow>
          (case biOffset bi key of
             NotFoundRange \<Rightarrow> map_sum id (\<lambda>(out, ptrs). (Some [] # out, ptrs)) (keysLoop bi (Suc ix) keys)
           | OffsetErr \<Rightarrow> Inl OffsetError
           | Range s e \<Rightarrow> map_sum id (\<lambda>(out, ptrs). (None # out, (ix, s, e) # ptrs)) (keysLoop bi (Suc ix) keys)))"

definition resizePostings :: "bytes \<Rightarrow> fetch_error + bytes" where
  "resizePostings b =
     (if length b < 4 then Inl InvalidSize
      else let size = 4 + unat (be32 b) * 4
           in if length b < size then Inl InvalidSize else Inr (take size b))"

definition sliceBytes :: "bytes \<Rightarrow> int \<Rightarrow> int \<Rightarrow> fetch_error + bytes" where
  "sliceBytes b lo hi =
     (if 0 \<le> lo \<and> lo \<le> hi \<and> hi \<le> int (length b) then Inr (take (nat (hi - lo)) (drop (nat lo) b)) else Inl SlicePanic)"

definition cacheData :: "block_index \<Rightarrow> bytes \<Rightarrow> bytes" where
  "cacheData bi pBytes =
     (let bep = newBigEndianPostings (drop 4 pBytes)
      in case diffVarintSnappyEncode (biSnappy bi) beNext beAt (\<lambda>_. False) (beLength bep) bep of
           Inr data \<Rightarrow> data
         | Inl _ \<Rightarrow> pBytes)"

type_synonym fetched = "64 word list option list \<times> ((string \<times> string) \<times> bytes) list"

fun fillPart ::
  "block_index \<Rightarrow> (string \<times> string) list \<Rightarrow> int \<Rightarrow> bytes \<Rightarrow> (nat \<times> int \<times> int) list \<Rightarrow> fetched \<Rightarrow> fetch_error + fetched" where
  "fillPart bi keys start b [] st = Inr st"
| "fillPart bi keys start b ((ix, s, e) # ptrs) (out, stores) =
     (case sliceBytes b (s - start) (e - start) of
        Inl x \<Rightarrow> Inl x
      | Inr c \<Rightarrow>
          (case resizePostings c of
             Inl x \<Rightarrow> Inl x
           | Inr pBytes \<Rightarrow>
               fillPart bi keys start b ptrs
                 (out[ix := Some (bePending (drop 4 pBytes))], stores @ [(keys ! ix, cacheData bi pBytes)])))"

fun partsLoop ::
  "block_index \<Rightarrow> (string \<times> string) list \<Rightarrow> (nat \<times> int \<times> int) list \<Rightarrow> part list \<Rightarrow> fetched \<Rightarrow> fetch_error + fetched" where
  "partsLoop bi keys ptrs [] st = Inr st"
| "partsLoop bi keys ptrs (p # parts) st =
     (let start = sint (partStart p); len = sint (partEnd p) - start
      in case biRead bi start len of
           None \<Rightarrow> Inl ReadError
         | Some b \<Rightarrow>
             (case fillPart bi keys start b (drop (partFrom p) (take (partTo p) ptrs)) st of
                Inl x \<Rightarrow> Inl x
              | Inr st \<Rightarrow> partsLoop bi keys ptrs parts st))"

definition fetchPostings :: "block_index \<Rightarrow> (string \<times> string) list \<Rightarrow> fetch_error + fetched" where
  "fetchPostings bi keys =
     (case keysLoop bi 0 keys of
        Inl e \<Rightarrow> Inl e
      | Inr (out, ptrs) \<Rightarrow>
          let ptrs = sort_slice (\<lambda>a b. fst (snd a) < fst (snd b)) ptrs;
              parts = Partition (biGap bi) 0 (map (\<lambda>(_, s, e). (of_int s, of_int e)) ptrs)
          in partsLoop bi keys ptrs parts (out, []))"

text \<open>The format of a postings list in an index file.\<close>

definition put32 :: "32 word \<Rightarrow> bytes" where
  "put32 w = [ucast (drop_bit 24 w), ucast (drop_bit 16 w), ucast (drop_bit 8 w), ucast w]"

definition postingsEntry :: "64 word list \<Rightarrow> bytes" where
  "postingsEntry vs = put32 (of_nat (length vs)) @ concat (map (put32 \<circ> ucast) vs)"

definition goodPostings :: "64 word list \<Rightarrow> bool" where
  "goodPostings vs \<longleftrightarrow> sorted_wrt (<) vs \<and> length vs < 2 ^ 32 \<and> (\<forall>v \<in> set vs. v < 2 ^ 32)"

text \<open>The index file holds the postings of each key where the header says, and the cache agrees with it.\<close>

definition goodIndex :: "block_index \<Rightarrow> bytes \<Rightarrow> (string \<times> string \<Rightarrow> 64 word list) \<Rightarrow> bool" where
  "goodIndex bi idx post \<longleftrightarrow>
     length idx + unat (biGap bi) < 2 ^ 63
     \<and> (\<forall>b. snDecode (biSnappy bi) (snEncode (biSnappy bi) b) = Some b)
     \<and> (\<forall>key. goodPostings (post key))
     \<and> (\<forall>key b. biCache bi key = Some b \<longrightarrow> cachedPostings bi b = Inr (post key))
     \<and> (\<forall>s l b. biRead bi s l = Some b \<longrightarrow> b = take (nat l) (drop (nat s) idx))
     \<and> (\<forall>key. case biOffset bi key of
          NotFoundRange \<Rightarrow> post key = []
        | OffsetErr \<Rightarrow> True
        | Range s e \<Rightarrow> 0 \<le> s \<and> s \<le> e \<and> e \<le> int (length idx)
            \<and> (\<exists>rest. take (nat (e - s)) (drop (nat s) idx) = postingsEntry (post key) @ rest))"

section \<open>Ranges are covered\<close>

lemma growPart_spec:
  "growPart g e k rs = (e', k', rest) \<Longrightarrow>
     \<exists>xs. rs = xs @ rest \<and> k' = k + length xs \<and> e \<le> e' \<and> (\<forall>r \<in> set xs. snd r \<le> e')
       \<and> e' \<in> insert e (snd ` set xs) \<and> (\<forall>r rs'. rest = r # rs' \<longrightarrow> e' + g < fst r)"
proof (induction g e k rs rule: growPart.induct)
  case (2 g e k s x rs)
  show ?case
  proof (cases "e + g < s")
    case False
    with 2 obtain xs where xs: "rs = xs @ rest" "k' = Suc k + length xs" "(if e \<le> x then x else e) \<le> e'"
      "\<forall>r \<in> set xs. snd r \<le> e'" "e' \<in> insert (if e \<le> x then x else e) (snd ` set xs)"
      "\<forall>r rs'. rest = r # rs' \<longrightarrow> e' + g < fst r" by auto
    then show ?thesis by (intro exI [of _ "(s, x) # xs"]) (auto split: if_splits)
  qed (use 2 in auto)
qed auto

definition coversFrom :: "64 word \<Rightarrow> nat \<Rightarrow> ranges \<Rightarrow> part list \<Rightarrow> bool" where
  "coversFrom g j rs parts \<longleftrightarrow>
     concat (map (\<lambda>p. [partFrom p..<partTo p]) parts) = [j..<j + length rs]
     \<and> (\<forall>p \<in> set parts. partFrom p < partTo p \<and> partStart p \<in> fst ` set rs \<and> partEnd p \<in> snd ` set rs
          \<and> (\<forall>i. partFrom p \<le> i \<and> i < partTo p \<longrightarrow> partStart p \<le> fst (rs ! (i - j)) \<and> snd (rs ! (i - j)) \<le> partEnd p))
     \<and> sorted_wrt (\<lambda>p q. partEnd p + g < partStart q) parts"

lemma Partition_coversFrom:
  "sorted_wrt (\<lambda>a b. fst a \<le> fst b) rs \<Longrightarrow> coversFrom g j rs (Partition g j rs)"
proof (induction g j rs rule: Partition.induct)
  case (2 g j s e rs)
  obtain e' k rest where grow: "growPart g e (Suc j) rs = (e', k, rest)" by (metis prod_cases3)
  from growPart_spec [OF this] obtain xs where xs: "rs = xs @ rest" "k = Suc j + length xs" "e \<le> e'"
    "\<forall>r \<in> set xs. snd r \<le> e'" "e' \<in> insert e (snd ` set xs)" "\<forall>r rs'. rest = r # rs' \<longrightarrow> e' + g < fst r" by blast
  have IH: "coversFrom g k rest (Partition g k rest)"
    using 2(1) [OF grow [symmetric] refl] 2(2) xs(1) by (simp add: sorted_wrt_append)
  have first: "s \<le> fst (((s, e) # rs) ! (i - j)) \<and> snd (((s, e) # rs) ! (i - j)) \<le> e'" if "j \<le> i" "i < k" for i
  proof (cases "i - j")
    case (Suc n)
    then have "rs ! n = xs ! n" "xs ! n \<in> set xs" using that xs(1,2) by (auto simp: nth_append)
    with 2(2) xs(1,4) Suc show ?thesis by auto
  qed (use xs(3) in simp)
  have later: "rest ! (i - k) = ((s, e) # rs) ! (i - j)" if "k \<le> i" for i
  proof -
    have "i - j = Suc (length xs + (i - k))" using that xs(2) by simp
    then show ?thesis by (simp add: xs(1) nth_append)
  qed
  have gap: "e' + g < partStart q" if "q \<in> set (Partition g k rest)" for q
  proof -
    have "partStart q \<in> fst ` set rest" using IH that unfolding coversFrom_def by blast
    then obtain r where "r \<in> set rest" "partStart q = fst r" by blast
    moreover from this obtain r0 rs' where "rest = r0 # rs'" by (cases rest) auto
    ultimately show ?thesis using xs(6) 2(2) xs(1) by (auto simp: sorted_wrt_append intro: order_less_le_trans)
  qed
  have inRest: "partFrom p < partTo p \<and> k \<le> partFrom p \<and> partStart p \<in> fst ` set rest \<and> partEnd p \<in> snd ` set rest
      \<and> (\<forall>i. partFrom p \<le> i \<and> i < partTo p \<longrightarrow> partStart p \<le> fst (rest ! (i - k)) \<and> snd (rest ! (i - k)) \<le> partEnd p)"
    if "p \<in> set (Partition g k rest)" for p
  proof -
    have "partFrom p < partTo p" using IH that unfolding coversFrom_def by blast
    then have "partFrom p \<in> set (concat (map (\<lambda>p. [partFrom p..<partTo p]) (Partition g k rest)))"
      using that by auto
    then have "k \<le> partFrom p" using IH unfolding coversFrom_def by simp
    then show ?thesis using IH that unfolding coversFrom_def by blast
  qed
  have parts: "Partition g j ((s, e) # rs) = \<lparr>partStart = s, partEnd = e', partFrom = j, partTo = k\<rparr> # Partition g k rest"
    by (simp add: grow)
  show ?case
    unfolding coversFrom_def
  proof (intro conjI)
    show "concat (map (\<lambda>p. [partFrom p..<partTo p]) (Partition g j ((s, e) # rs))) = [j..<j + length ((s, e) # rs)]"
    proof -
      have "concat (map (\<lambda>p. [partFrom p..<partTo p]) (Partition g j ((s, e) # rs))) = [j..<k] @ [k..<k + length rest]"
        using IH unfolding coversFrom_def parts by simp
      also have "\<dots> = [j..<k + length rest]" using upt_add_eq_append [of j k "length rest"] xs(2) by simp
      also have "k + length rest = j + length ((s, e) # rs)" using xs(1,2) by simp
      finally show ?thesis .
    qed
    show "sorted_wrt (\<lambda>p q. partEnd p + g < partStart q) (Partition g j ((s, e) # rs))"
      using IH gap unfolding coversFrom_def parts by simp
    show "\<forall>p \<in> set (Partition g j ((s, e) # rs)). partFrom p < partTo p
          \<and> partStart p \<in> fst ` set ((s, e) # rs) \<and> partEnd p \<in> snd ` set ((s, e) # rs)
          \<and> (\<forall>i. partFrom p \<le> i \<and> i < partTo p \<longrightarrow>
               partStart p \<le> fst (((s, e) # rs) ! (i - j)) \<and> snd (((s, e) # rs) ! (i - j)) \<le> partEnd p)"
    proof
      fix p
      assume "p \<in> set (Partition g j ((s, e) # rs))"
      then consider "p = \<lparr>partStart = s, partEnd = e', partFrom = j, partTo = k\<rparr>" | "p \<in> set (Partition g k rest)"
        by (auto simp: grow)
      then show "partFrom p < partTo p
          \<and> partStart p \<in> fst ` set ((s, e) # rs) \<and> partEnd p \<in> snd ` set ((s, e) # rs)
          \<and> (\<forall>i. partFrom p \<le> i \<and> i < partTo p \<longrightarrow>
               partStart p \<le> fst (((s, e) # rs) ! (i - j)) \<and> snd (((s, e) # rs) ! (i - j)) \<le> partEnd p)"
      proof cases
        case 1
        with first xs(1,2,5) show ?thesis by auto
      next
        case 2
        from inRest [OF this] have r: "partFrom p < partTo p" "k \<le> partFrom p" "partStart p \<in> fst ` set rest"
          "partEnd p \<in> snd ` set rest"
          "\<And>i. partFrom p \<le> i \<Longrightarrow> i < partTo p \<Longrightarrow> partStart p \<le> fst (rest ! (i - k)) \<and> snd (rest ! (i - k)) \<le> partEnd p"
          by blast+
        have "partStart p \<le> fst (((s, e) # rs) ! (i - j)) \<and> snd (((s, e) # rs) ! (i - j)) \<le> partEnd p"
          if "partFrom p \<le> i" "i < partTo p" for i
          using r(5) [OF that] later [of i] r(2) that(1) by simp
        with r(1,3,4) xs(1) show ?thesis by auto
      qed
    qed
  qed
qed (simp add: coversFrom_def)

text \<open>A part starts with its first range and ends with one of its ranges.\<close>

definition partEnds :: "nat \<Rightarrow> ranges \<Rightarrow> part \<Rightarrow> bool" where
  "partEnds j rs p \<longleftrightarrow> j \<le> partFrom p \<and> partStart p = fst (rs ! (partFrom p - j))
     \<and> (\<exists>i. partFrom p \<le> i \<and> i < partTo p \<and> partEnd p = snd (rs ! (i - j)))"

lemma partEnds_shift:
  assumes "partEnds k rest p" and "rs = xs @ rest" and "k = j + length xs"
  shows "partEnds j rs p"
proof -
  have shift: "rest ! (i - k) = rs ! (i - j)" if "k \<le> i" for i
  proof -
    have "i - j = length xs + (i - k)" using that assms(3) by simp
    then show ?thesis by (simp add: assms(2))
  qed
  obtain i where i: "k \<le> partFrom p" "partStart p = fst (rest ! (partFrom p - k))"
    "partFrom p \<le> i" "i < partTo p" "partEnd p = snd (rest ! (i - k))"
    using assms(1) unfolding partEnds_def by blast
  have "partStart p = fst (rs ! (partFrom p - j))" using i(2) shift [OF i(1)] by simp
  moreover have "partEnd p = snd (rs ! (i - j))" using i(5) shift [of i] i(1,3) by simp
  moreover have "j \<le> partFrom p" using i(1) assms(3) by simp
  ultimately show ?thesis unfolding partEnds_def using i(3,4) by blast
qed

lemma Partition_ends: "p \<in> set (Partition g j rs) \<Longrightarrow> partEnds j rs p"
proof (induction g j rs rule: Partition.induct)
  case (2 g j s e rs)
  obtain e' k rest where grow: "growPart g e (Suc j) rs = (e', k, rest)" by (metis prod_cases3)
  from growPart_spec [OF this] obtain xs where xs: "rs = xs @ rest" "k = Suc j + length xs"
    "e' \<in> insert e (snd ` set xs)" by blast
  have "p = \<lparr>partStart = s, partEnd = e', partFrom = j, partTo = k\<rparr> \<or> p \<in> set (Partition g k rest)"
    using "2.prems" by (auto simp: grow)
  then show ?case
  proof
    assume p: "p = \<lparr>partStart = s, partEnd = e', partFrom = j, partTo = k\<rparr>"
    have "\<exists>i. j \<le> i \<and> i < k \<and> e' = snd (((s, e) # rs) ! (i - j))"
    proof (cases "e' = e")
      case True
      then show ?thesis using xs(2) by (intro exI [of _ j]) simp
    next
      case False
      then obtain n where "n < length xs" "e' = snd (xs ! n)" using xs(3) by (auto simp: in_set_conv_nth)
      then show ?thesis using xs(1,2) by (intro exI [of _ "Suc (j + n)"]) (simp add: nth_append)
    qed
    then show ?thesis by (simp add: p partEnds_def)
  next
    assume "p \<in> set (Partition g k rest)"
    then have "partEnds k rest p" using "2.IH" grow by simp
    then show ?thesis by (rule partEnds_shift [of _ _ _ _ "(s, e) # xs"]) (simp_all add: xs)
  qed
qed simp

text \<open>
  C36: the partitioner combines ranges without losing any: its parts are consecutive, non-empty runs of the
  ranges, which are sorted by start, and together contain every range exactly once. Each part starts
  where its first range starts, ends where one of its ranges ends, and encloses all its ranges. An
  earlier part ends more than the allowed gap before a later one starts, provided that adding the gap
  to the end of a range does not exceed 64 bits.
\<close>

theorem Partition_covers:
  assumes "sorted_wrt (\<lambda>a b. fst a \<le> fst b) rs"
  shows "concat (map (\<lambda>p. [partFrom p..<partTo p]) (Partition g 0 rs)) = [0..<length rs]
    \<and> (\<forall>p \<in> set (Partition g 0 rs). partFrom p < partTo p
         \<and> partStart p = fst (rs ! partFrom p)
         \<and> (\<exists>i. partFrom p \<le> i \<and> i < partTo p \<and> partEnd p = snd (rs ! i))
         \<and> (\<forall>i. partFrom p \<le> i \<and> i < partTo p \<longrightarrow> partStart p \<le> fst (rs ! i) \<and> snd (rs ! i) \<le> partEnd p))
    \<and> ((\<forall>r \<in> set rs. unat (snd r) + unat g < 2 ^ 64) \<longrightarrow>
         sorted_wrt (\<lambda>p q. unat (partEnd p) + unat g < unat (partStart q)) (Partition g 0 rs))"
proof -
  note cov = Partition_coversFrom [OF assms, of g 0, unfolded coversFrom_def]
  have "sorted_wrt (\<lambda>p q. unat (partEnd p) + unat g < unat (partStart q)) (Partition g 0 rs)"
    if small: "\<forall>r \<in> set rs. unat (snd r) + unat g < 2 ^ 64"
  proof (rule sorted_wrt_mono_rel)
    show "sorted_wrt (\<lambda>p q. partEnd p + g < partStart q) (Partition g 0 rs)" using cov by blast
    fix p q
    assume "p \<in> set (Partition g 0 rs)" and lt: "partEnd p + g < partStart q"
    then have "partEnd p \<in> snd ` set rs" using cov by blast
    then have "unat (partEnd p) + unat g < 2 ^ 64" using small by auto
    then have "unat (partEnd p + g) = unat (partEnd p) + unat g" by (simp add: unat_add_lem [THEN iffD1])
    then show "unat (partEnd p) + unat g < unat (partStart q)" using lt by (simp add: word_less_nat_alt)
  qed
  moreover have "partFrom p < partTo p \<and> partStart p = fst (rs ! partFrom p)
      \<and> (\<exists>i. partFrom p \<le> i \<and> i < partTo p \<and> partEnd p = snd (rs ! i))
      \<and> (\<forall>i. partFrom p \<le> i \<and> i < partTo p \<longrightarrow> partStart p \<le> fst (rs ! i) \<and> snd (rs ! i) \<le> partEnd p)"
    if p: "p \<in> set (Partition g 0 rs)" for p
  proof -
    have "partStart p = fst (rs ! partFrom p)" "\<exists>i. partFrom p \<le> i \<and> i < partTo p \<and> partEnd p = snd (rs ! i)"
      using Partition_ends [OF p] by (simp_all add: partEnds_def)
    moreover have "partFrom p < partTo p
        \<and> (\<forall>i. partFrom p \<le> i \<and> i < partTo p \<longrightarrow> partStart p \<le> fst (rs ! (i - 0)) \<and> snd (rs ! (i - 0)) \<le> partEnd p)"
      using cov p by blast
    ultimately show ?thesis unfolding diff_zero by blast
  qed
  moreover have "concat (map (\<lambda>p. [partFrom p..<partTo p]) (Partition g 0 rs)) = [0..<length rs]"
    using cov by simp
  ultimately show ?thesis by blast
qed

theorem Partition_covers_witness:
  "map (\<lambda>p. (partStart p, partEnd p, partFrom p, partTo p)) (Partition 2 0 [(1, 10), (3, 5), (11, 20), (100, 110)])
      = [(1, 20, 0, 3), (100, 110, 3, 4)]
   \<and> concat (map (\<lambda>p. [partFrom p..<partTo p]) (Partition 2 0 [(1, 10), (3, 5), (11, 20), (100, 110)])) = [0..<4]
   \<and> sorted_wrt (\<lambda>p q. unat (partEnd p) + 2 < unat (partStart q))
       (Partition 2 0 [(1, 10), (3, 5), (11, 20), (100, 110)])"
proof -
  let ?rs = "[(1, 10), (3, 5), (11, 20), (100 :: 64 word, 110 :: 64 word)]"
  have sorted: "sorted_wrt (\<lambda>a b. fst a \<le> fst b) ?rs" by (simp add: word_le_nat_alt)
  have small: "\<forall>r \<in> set ?rs. unat (snd r) + unat (2 :: 64 word) < 2 ^ 64" by simp
  have parts: "map (\<lambda>p. (partStart p, partEnd p, partFrom p, partTo p)) (Partition 2 0 ?rs)
      = [(1, 20, 0, 3), (100, 110, 3, 4)]"
    by (simp add: word_le_nat_alt word_less_nat_alt)
  note cov = Partition_covers [OF sorted, of 2]
  have "concat (map (\<lambda>p. [partFrom p..<partTo p]) (Partition 2 0 ?rs)) = [0..<4]"
    using cov [THEN conjunct1] by (simp add: numeral_eq_Suc)
  moreover have "sorted_wrt (\<lambda>p q. unat (partEnd p) + unat (2 :: 64 word) < unat (partStart q)) (Partition 2 0 ?rs)"
    using cov [THEN conjunct2, THEN conjunct2, THEN mp, OF small] .
  ultimately show ?thesis using parts by simp
qed

section \<open>Postings in the index file\<close>

lemma be32_put32: "be32 (put32 w @ rest) = w"
proof (rule bit_eqI)
  fix n
  assume "possible_bit TYPE(32 word) n"
  then have "n < 32" by (simp add: possible_bit_word)
  then consider "n < 8" | "8 \<le> n" "n < 16" | "16 \<le> n" "n < 24" | "24 \<le> n" "n < 32" by linarith
  then show "bit (be32 (put32 w @ rest)) n = bit w n"
    by cases (auto simp: put32_def bit_simps bit_ucast_iff)
qed

lemma bePending_put32:
  "\<forall>v \<in> set vs. v < 2 ^ 32 \<Longrightarrow> bePending (concat (map (put32 \<circ> ucast) vs)) = vs"
proof (induction vs)
  case (Cons v vs)
  have "ucast (ucast v :: 32 word) = v"
    using Cons.prems by (simp add: word_less_nat_alt word_unat_eq_iff unsigned_ucast_eq unsigned_take_bit_eq take_bit_nat_eq_self)
  with Cons be32_put32 [of "ucast v" "[]"] show ?case by (simp add: put32_def)
qed simp

lemma length_postingsEntry: "length (postingsEntry vs) = 4 + 4 * length vs"
proof -
  have "length (concat (map (put32 \<circ> ucast) us)) = 4 * length us" for us :: "64 word list"
    by (induction us) (simp_all add: put32_def)
  then show ?thesis by (simp add: postingsEntry_def put32_def)
qed

lemma resizePostings_entry: "length vs < 2 ^ 32 \<Longrightarrow> resizePostings (postingsEntry vs @ rest) = Inr (postingsEntry vs)"
proof -
  assume "length vs < 2 ^ 32"
  then have "unat (be32 (postingsEntry vs @ rest)) = length vs"
    using be32_put32 [of "of_nat (length vs)" "concat (map (put32 \<circ> ucast) vs) @ rest"]
    by (simp add: postingsEntry_def unsigned_of_nat take_bit_nat_eq_self)
  then show ?thesis using length_postingsEntry [of vs] by (simp add: resizePostings_def Let_def mult.commute)
qed

lemma bePending_entry: "goodPostings vs \<Longrightarrow> bePending (drop 4 (postingsEntry vs)) = vs"
  using bePending_put32 [of vs] by (simp add: goodPostings_def postingsEntry_def put32_def)

lemma cacheData_entry:
  assumes "\<forall>b. snDecode (biSnappy bi) (snEncode (biSnappy bi) b) = Some b" and "goodPostings vs"
  shows "cachedPostings bi (cacheData bi (postingsEntry vs)) = Inr vs"
proof -
  let ?p = "newBigEndianPostings (drop 4 (postingsEntry vs))"
  have pend: "bePending (beList ?p) = vs" using bePending_entry [OF assms(2)] by (simp add: newBigEndianPostings_def)
  have "sorted vs" using assms(2) by (auto simp: goodPostings_def intro: sorted_wrt_mono_rel [of _ "(<)"])
  with codec_sorted [OF assms(1), of ?p] pend show ?thesis
    by (auto simp: cacheData_def cachedPostings_def Let_def)
qed

section \<open>Fetching is exact\<close>

definition filled :: "(string \<times> string \<Rightarrow> 64 word list) \<Rightarrow> (string \<times> string) list \<Rightarrow> nat set \<Rightarrow> 64 word list option list \<Rightarrow> bool" where
  "filled post keys todo out \<longleftrightarrow>
     length out = length keys \<and> (\<forall>i < length keys. i \<notin> todo \<longrightarrow> out ! i = Some (post (keys ! i)))"

definition goodStores :: "block_index \<Rightarrow> (string \<times> string \<Rightarrow> 64 word list) \<Rightarrow> ((string \<times> string) \<times> bytes) list \<Rightarrow> bool" where
  "goodStores bi post stores \<longleftrightarrow> (\<forall>(key, b) \<in> set stores. cachedPostings bi b = Inr (post key))"

definition goodPtr :: "block_index \<Rightarrow> (string \<times> string) list \<Rightarrow> nat \<times> int \<times> int \<Rightarrow> bool" where
  "goodPtr bi keys = (\<lambda>(ix, s, e). ix < length keys \<and> biOffset bi (keys ! ix) = Range s e)"

lemma goodIndexD:
  assumes "goodIndex bi idx post"
  shows "length idx + unat (biGap bi) < 2 ^ 63" "\<forall>b. snDecode (biSnappy bi) (snEncode (biSnappy bi) b) = Some b"
    and "goodPostings (post key)" and "biCache bi key = Some b \<Longrightarrow> cachedPostings bi b = Inr (post key)"
    and "biRead bi s l = Some b \<Longrightarrow> b = take (nat l) (drop (nat s) idx)"
    and "biOffset bi key = NotFoundRange \<Longrightarrow> post key = []"
    and "biOffset bi key = Range s e \<Longrightarrow> 0 \<le> s \<and> s \<le> e \<and> e \<le> int (length idx)
      \<and> (\<exists>rest. take (nat (e - s)) (drop (nat s) idx) = postingsEntry (post key) @ rest)"
proof -
  have "case biOffset bi key of
      NotFoundRange \<Rightarrow> post key = []
    | OffsetErr \<Rightarrow> True
    | Range s e \<Rightarrow> 0 \<le> s \<and> s \<le> e \<and> e \<le> int (length idx)
        \<and> (\<exists>rest. take (nat (e - s)) (drop (nat s) idx) = postingsEntry (post key) @ rest)"
    using assms unfolding goodIndex_def by blast
  then show "biOffset bi key = NotFoundRange \<Longrightarrow> post key = []"
    and "biOffset bi key = Range s e \<Longrightarrow> 0 \<le> s \<and> s \<le> e \<and> e \<le> int (length idx)
      \<and> (\<exists>rest. take (nat (e - s)) (drop (nat s) idx) = postingsEntry (post key) @ rest)"
    by simp_all
qed (use assms in \<open>unfold goodIndex_def, blast+\<close>)

lemma keysLoop_filled:
  assumes "goodIndex bi idx post"
  shows "case keysLoop bi (length pre) keys of
      Inl e \<Rightarrow> e = OffsetError
    | Inr (out, ptrs) \<Rightarrow> length out = length keys \<and> (\<forall>p \<in> set ptrs. goodPtr bi (pre @ keys) p)
        \<and> (\<forall>i < length keys. length pre + i \<notin> fst ` set ptrs \<longrightarrow> out ! i = Some (post (keys ! i)))"
proof (induction keys arbitrary: pre)
  case (Cons key keys)
  have good: "biCache bi key = Some b \<Longrightarrow> cachedPostings bi b = Inr (post key)"
    "biOffset bi key = NotFoundRange \<Longrightarrow> post key = []" for b
    using goodIndexD(4,6) [OF assms] by blast+
  show ?case
  proof (cases "keysLoop bi (Suc (length pre)) keys")
    case (Inl e)
    with Cons [of "pre @ [key]"] good show ?thesis by (auto split: option.splits offset.splits)
  next
    case (Inr p)
    obtain out ptrs where p: "p = (out, ptrs)" by fastforce
    have IH: "length out = length keys" "\<forall>p \<in> set ptrs. goodPtr bi (pre @ key # keys) p"
      "\<forall>i < length keys. Suc (length pre + i) \<notin> fst ` set ptrs \<longrightarrow> out ! i = Some (post (keys ! i))"
      using Cons [of "pre @ [key]"] Inr p by auto
    have tail: "(x # out) ! i = Some (post ((key # keys) ! i))"
      if "x = Some (post key) \<or> length pre \<in> I" "fst ` set ptrs \<subseteq> I" "i < Suc (length keys)" "length pre + i \<notin> I" for x i I
    proof (cases i)
      case (Suc n)
      then have "Suc (length pre + n) \<notin> fst ` set ptrs" using that(2,4) by (metis add_Suc_right subsetD)
      with Suc that(3) IH(3) show ?thesis by simp
    qed (use that in auto)
    show ?thesis
      using Inr p good IH(1,2) tail [where I = "fst ` set ptrs", OF _ subset_refl]
        tail [where I = "insert (length pre) (fst ` set ptrs)", OF _ subset_insertI]
      by (auto simp: goodPtr_def nth_append split: option.splits offset.splits)
  qed
qed simp

lemma sliceBytes_within:
  assumes "0 \<le> start" and "start \<le> s" and "s \<le> e" and "e \<le> start + len" and "e \<le> int (length idx)"
  shows "sliceBytes (take (nat len) (drop (nat start) idx)) (s - start) (e - start)
    = Inr (take (nat (e - s)) (drop (nat s) idx))"
proof -
  have "nat (s - start) + nat start = nat s" using assms by simp
  then have "drop (nat (s - start)) (take (nat len) (drop (nat start) idx)) = take (nat len - nat (s - start)) (drop (nat s) idx)"
    by (simp add: drop_take)
  moreover have "nat (e - s) \<le> nat len - nat (s - start)" using assms by simp
  ultimately show ?thesis using assms by (simp add: sliceBytes_def min_def)
qed

lemma fillPart_filled:
  assumes good: "goodIndex bi idx post" and "0 \<le> start"
    and "\<forall>(ix, s, e) \<in> set ptrs. goodPtr bi keys (ix, s, e) \<and> start \<le> s \<and> e \<le> start + len"
    and "filled post keys (fst ` set ptrs \<union> T) out" and "goodStores bi post stores"
  shows "\<exists>out' stores'. fillPart bi keys start (take (nat len) (drop (nat start) idx)) ptrs (out, stores) = Inr (out', stores')
    \<and> filled post keys T out' \<and> goodStores bi post stores'"
  using assms(3-5)
proof (induction ptrs arbitrary: out stores)
  case (Cons p ptrs)
  obtain ix s e where p: "p = (ix, s, e)" by (metis prod_cases3)
  have ptr: "ix < length keys" "biOffset bi (keys ! ix) = Range s e" "start \<le> s" "e \<le> start + len"
    using Cons.prems(1) by (auto simp: p goodPtr_def)
  obtain rest where at: "0 \<le> s" "s \<le> e" "e \<le> int (length idx)"
    "take (nat (e - s)) (drop (nat s) idx) = postingsEntry (post (keys ! ix)) @ rest"
    using goodIndexD(7) [OF good ptr(2)] by blast
  have gp: "goodPostings (post (keys ! ix))" using goodIndexD(3) [OF good] .
  have step: "fillPart bi keys start (take (nat len) (drop (nat start) idx)) (p # ptrs) (out, stores)
     = fillPart bi keys start (take (nat len) (drop (nat start) idx)) ptrs
         (out[ix := Some (post (keys ! ix))], stores @ [(keys ! ix, cacheData bi (postingsEntry (post (keys ! ix))))])"
    using sliceBytes_within [OF assms(2) ptr(3) at(2) ptr(4) at(3)] at(4) gp
      resizePostings_entry [of "post (keys ! ix)" rest] bePending_entry [OF gp]
    by (simp add: p goodPostings_def)
  have "filled post keys (fst ` set ptrs \<union> T) (out[ix := Some (post (keys ! ix))])"
    using Cons.prems(2) ptr(1) by (auto simp: filled_def p nth_list_update)
  moreover have "goodStores bi post (stores @ [(keys ! ix, cacheData bi (postingsEntry (post (keys ! ix))))])"
    using Cons.prems(3) cacheData_entry [OF goodIndexD(2) [OF good] gp] by (auto simp: goodStores_def)
  ultimately show ?case unfolding step using Cons.IH Cons.prems(1) by auto
qed (auto simp: filled_def)

definition partPtrs :: "(nat \<times> int \<times> int) list \<Rightarrow> part \<Rightarrow> (nat \<times> int \<times> int) list" where
  "partPtrs ptrs p = drop (partFrom p) (take (partTo p) ptrs)"

definition goodPart :: "(nat \<times> int \<times> int) list \<Rightarrow> part \<Rightarrow> bool" where
  "goodPart ptrs p \<longleftrightarrow> 0 \<le> sint (partStart p)
     \<and> (\<forall>(ix, s, e) \<in> set (partPtrs ptrs p). sint (partStart p) \<le> s \<and> e \<le> sint (partEnd p))"

lemma partsLoop_filled:
  assumes good: "goodIndex bi idx post" and "\<forall>p \<in> set ptrs. goodPtr bi keys p" and "\<forall>p \<in> set parts. goodPart ptrs p"
    and "filled post keys (fst ` set (concat (map (partPtrs ptrs) parts))) out" and "goodStores bi post stores"
  shows "case partsLoop bi keys ptrs parts (out, stores) of
      Inl e \<Rightarrow> e = ReadError
    | Inr (out', stores') \<Rightarrow> filled post keys {} out' \<and> goodStores bi post stores'"
  using assms(3-5)
proof (induction parts arbitrary: out stores)
  case (Cons p parts)
  let ?start = "sint (partStart p)" and ?len = "sint (partEnd p) - sint (partStart p)"
  show ?case
  proof (cases "biRead bi ?start ?len")
    case (Some b)
    have b: "b = take (nat ?len) (drop (nat ?start) idx)" using goodIndexD(5) [OF good Some] .
    have inside: "\<forall>(ix, s, e) \<in> set (partPtrs ptrs p). goodPtr bi keys (ix, s, e) \<and> ?start \<le> s \<and> e \<le> ?start + ?len"
      using Cons.prems(1) assms(2) by (fastforce simp: goodPart_def partPtrs_def dest: in_set_dropD in_set_takeD)
    have start: "0 \<le> ?start" using Cons.prems(1) by (simp add: goodPart_def)
    have "filled post keys (fst ` set (partPtrs ptrs p) \<union> fst ` set (concat (map (partPtrs ptrs) parts))) out"
      using Cons.prems(2) by (simp add: image_Un)
    from fillPart_filled [OF good start inside this Cons.prems(3)] obtain out' stores' where
      "fillPart bi keys ?start b (partPtrs ptrs p) (out, stores) = Inr (out', stores')"
      "filled post keys (fst ` set (concat (map (partPtrs ptrs) parts))) out'" "goodStores bi post stores'"
      unfolding b by blast
    with Cons Some show ?thesis by (simp add: partPtrs_def)
  qed simp
qed (simp add: filled_def)

lemma word_of_offset:
  assumes "0 \<le> a" and "a < 2 ^ 63" and "0 \<le> b" and "b < 2 ^ 63"
  shows "sint (of_int a :: 64 word) = a" and "(of_int a :: 64 word) \<le> of_int b \<longleftrightarrow> a \<le> b"
proof -
  show "sint (of_int a :: 64 word) = a"
    using assms by (simp add: signed_of_int signed_take_bit_int_eq_self)
  show "(of_int a :: 64 word) \<le> of_int b \<longleftrightarrow> a \<le> b"
    using assms by (simp add: word_le_def uint_word_of_int take_bit_int_eq_self)
qed

lemma partition_good:
  assumes good: "goodIndex bi idx post" and ptrs: "\<forall>p \<in> set ptrs. goodPtr bi keys p"
    and sorted: "sorted_wrt (\<lambda>a b. fst (snd a) \<le> fst (snd b)) ptrs"
    and parts: "parts = Partition (biGap bi) 0 (map (\<lambda>(_, s, e). (of_int s, of_int e)) ptrs)"
  shows "(\<forall>p \<in> set parts. goodPart ptrs p) \<and> set (concat (map (partPtrs ptrs) parts)) = set ptrs"
proof -
  let ?rs = "map (\<lambda>(_, s, e). (of_int s :: 64 word, of_int e :: 64 word)) ptrs"
  have range: "0 \<le> s \<and> s \<le> e \<and> e < 2 ^ 63" if "(ix, s, e) \<in> set ptrs" for ix s e
    using ptrs that goodIndexD(1) [OF good] goodIndexD(7) [OF good, of "keys ! ix" s e] by (force simp: goodPtr_def)
  have "sorted_wrt (\<lambda>a b. fst a \<le> fst b) ?rs"
    using sorted range
  proof (induction ptrs)
    case (Cons p ptrs)
    obtain ix s e where p: "p = (ix, s, e)" by (metis prod_cases3)
    have "(of_int s :: 64 word) \<le> of_int s'" if q: "(ix', s', e') \<in> set ptrs" for ix' s' e'
    proof -
      have "s \<le> s'" using Cons.prems(1) q by (auto simp: p)
      moreover have "0 \<le> s" "s < 2 ^ 63" "0 \<le> s'" "s' < 2 ^ 63"
        using Cons.prems(2) [of ix s e] Cons.prems(2) [of ix' s' e'] q by (auto simp: p)
      ultimately show ?thesis using word_of_offset(2) by blast
    qed
    with Cons show ?case by (auto simp: p)
  qed simp
  from Partition_coversFrom [OF this, of "biGap bi" 0]
  have cover: "concat (map (\<lambda>p. [partFrom p..<partTo p]) parts) = [0..<length ptrs]"
    and inside: "\<And>p i. p \<in> set parts \<Longrightarrow> partFrom p \<le> i \<Longrightarrow> i < partTo p \<Longrightarrow>
       partStart p \<le> fst (?rs ! i) \<and> snd (?rs ! i) \<le> partEnd p"
    and ends: "\<And>p. p \<in> set parts \<Longrightarrow> partStart p \<in> fst ` set ?rs \<and> partEnd p \<in> snd ` set ?rs"
    unfolding coversFrom_def parts [symmetric] by auto
  have index: "partTo p \<le> length ptrs" if "p \<in> set parts" "partFrom p < partTo p" for p
  proof -
    have "partTo p - 1 \<in> set (concat (map (\<lambda>p. [partFrom p..<partTo p]) parts))" using that by force
    then show ?thesis unfolding cover using that(2) by simp
  qed
  have "goodPart ptrs p" if p: "p \<in> set parts" for p
  proof -
    obtain s0 e0 where s0: "partStart p = of_int s0" "0 \<le> s0" "s0 < 2 ^ 63" and e0: "partEnd p = of_int e0" "0 \<le> e0" "e0 < 2 ^ 63"
      using ends [OF p] range by fastforce
    have "sint (partStart p) \<le> s \<and> e \<le> sint (partEnd p)" if q: "(ix, s, e) \<in> set (partPtrs ptrs p)" for ix s e
    proof -
      obtain n where n: "n < length (partPtrs ptrs p)" "partPtrs ptrs p ! n = (ix, s, e)"
        using q by (auto simp: in_set_conv_nth)
      moreover from this have "partFrom p \<le> length (take (partTo p) ptrs)" by (simp add: partPtrs_def min_def split: if_splits)
      ultimately have i: "partFrom p + n < partTo p" "partFrom p + n < length ptrs" "ptrs ! (partFrom p + n) = (ix, s, e)"
        by (auto simp: partPtrs_def)
      then have "(ix, s, e) \<in> set ptrs" by (metis nth_mem)
      from range [OF this] inside [OF p, of "partFrom p + n"] i s0 e0 show ?thesis
        using word_of_offset(2) [of s0 s] word_of_offset(2) [of e e0] word_of_offset(1) [of s0 0] word_of_offset(1) [of e0 0]
        by auto
    qed
    with s0 word_of_offset(1) [of s0 0] show ?thesis by (auto simp: goodPart_def)
  qed
  moreover have "ptrs ! i \<in> set (concat (map (partPtrs ptrs) parts))" if "i < length ptrs" for i
  proof -
    have "i \<in> set (concat (map (\<lambda>p. [partFrom p..<partTo p]) parts))" unfolding cover using that by simp
    then obtain p where p: "p \<in> set parts" "partFrom p \<le> i" "i < partTo p" by auto
    then have "partPtrs ptrs p ! (i - partFrom p) = ptrs ! i" "i - partFrom p < length (partPtrs ptrs p)"
      using that by (auto simp: partPtrs_def)
    then have "ptrs ! i \<in> set (partPtrs ptrs p)" by (metis nth_mem)
    with p show ?thesis by auto
  qed
  then have "set ptrs \<subseteq> set (concat (map (partPtrs ptrs) parts))" by (metis in_set_conv_nth subsetI)
  moreover have "set (concat (map (partPtrs ptrs) parts)) \<subseteq> set ptrs"
    by (auto simp: partPtrs_def dest: in_set_dropD in_set_takeD)
  ultimately show ?thesis by blast
qed

interpretation ptr_start: slice_order "\<lambda>a b :: nat \<times> int \<times> int. fst (snd a) < fst (snd b)"
  by (rule slice_order_key)

lemma fetchPostings_filled:
  assumes good: "goodIndex bi idx post"
  shows "case fetchPostings bi keys of
      Inl e \<Rightarrow> e = OffsetError \<or> e = ReadError
    | Inr (out, stores) \<Rightarrow> out = map (Some \<circ> post) keys \<and> goodStores bi post stores"
proof (cases "keysLoop bi 0 keys")
  case (Inl e)
  then show ?thesis using keysLoop_filled [OF good, where pre = "[]" and keys = keys] by (simp add: fetchPostings_def)
next
  case (Inr p)
  obtain out ptrs where p: "p = (out, ptrs)" by fastforce
  have keys: "length out = length keys" "\<forall>p \<in> set ptrs. goodPtr bi keys p"
    "\<forall>i < length keys. i \<notin> fst ` set ptrs \<longrightarrow> out ! i = Some (post (keys ! i))"
    using keysLoop_filled [OF good, where pre = "[]" and keys = keys] Inr p by auto
  define sorted where "sorted = sort_slice (\<lambda>a b. fst (snd a) < fst (snd b)) ptrs"
  define parts where "parts = Partition (biGap bi) 0 (map (\<lambda>(_, s, e). (of_int s, of_int e)) sorted)"
  have "sorted_wrt (\<lambda>a b. fst (snd a) \<le> fst (snd b)) sorted"
    using ptr_start.sorted_sort_slice [of ptrs] by (simp add: sorted_def not_less)
  moreover have ptrs: "set sorted = set ptrs" by (simp add: sorted_def)
  ultimately have pg: "\<forall>p \<in> set parts. goodPart sorted p" "set (concat (map (partPtrs sorted) parts)) = set sorted"
    using partition_good [OF good _ _ parts_def] keys(2) by auto
  have "filled post keys (fst ` set (concat (map (partPtrs sorted) parts))) out"
    unfolding pg(2) ptrs filled_def using keys(1,3) by blast
  moreover have "goodStores bi post []" by (simp add: goodStores_def)
  moreover have "\<forall>p \<in> set sorted. goodPtr bi keys p" using keys(2) ptrs by simp
  ultimately have res: "case partsLoop bi keys sorted parts (out, []) of
      Inl e \<Rightarrow> e = ReadError
    | Inr (out', stores') \<Rightarrow> filled post keys {} out' \<and> goodStores bi post stores'"
    using partsLoop_filled [OF good _ pg(1)] by blast
  have "fetchPostings bi keys = partsLoop bi keys sorted parts (out, [])"
    using Inr p by (simp add: fetchPostings_def sorted_def parts_def Let_def)
  with res show ?thesis
    by (auto simp: filled_def intro: nth_equalityI split: sum.splits)
qed

text \<open>
  C35: fetching is exact and safe: whichever keys are cached and however their ranges are combined, the postings
  returned for every key are those of the index, in the order of the keys; what is written to the cache
  decodes to the same postings again; and no slice of a fetched range is out of bounds, so the only
  failures are those of the index header and of the object store.
\<close>

theorem fetchPostings_exact:
  assumes "goodIndex bi idx post"
  shows "case fetchPostings bi keys of
      Inl e \<Rightarrow> e = OffsetError \<or> e = ReadError
    | Inr (out, stores) \<Rightarrow> out = map (Some \<circ> post) keys
        \<and> list_all (\<lambda>(key, b). cachedPostings bi b = Inr (post key)) stores"
  using fetchPostings_filled [OF assms, of keys]
  by (auto simp: goodStores_def list_all_iff split: sum.splits prod.splits)

end
