(* ===== verification/Bucket_Query.thy ===== *)
theory Bucket_Query
  imports Bucket_Index
begin

text \<open>
  How the store gateway finds the series of a query in a block (\<^verbatim>\<open>pkg/store/bucket.go\<close>, \<^verbatim>\<open>opts.go\<close>): matchers become groups
  of posting keys, the keys are fetched at once and set operations give the references of the series. The
  set operations on postings and the matchers are Prometheus library code and parameters.
\<close>

section \<open>Matchers and posting groups\<close>

datatype match_type = MatchEqual | MatchNotEqual | MatchRegexp | MatchNotRegexp

record matcher =
  mType :: match_type
  mName :: string
  mValue :: string
  mMatches :: "string \<Rightarrow> bool"

definition isRegexMetaCharacter :: "char \<Rightarrow> bool" where
  "isRegexMetaCharacter c \<longleftrightarrow> c \<in> set ''.+*?()|[]{}^$''"

text \<open>The loop over the pattern; the builders in reverse order, the current one first.\<close>

fun setLoop :: "bool \<Rightarrow> string \<Rightarrow> string list \<Rightarrow> string \<Rightarrow> string list option" where
  "setLoop escaped cur sets [] = Some (rev (cur # sets))"
| "setLoop True cur sets (c # cs) =
     (if isRegexMetaCharacter c then setLoop False (cur @ [c]) sets cs
      else if c = CHR 0x5C then setLoop False (cur @ [CHR 0x5C]) sets cs
      else None)"
| "setLoop False cur sets (c # cs) =
     (if isRegexMetaCharacter c then if c = CHR ''|'' then setLoop False [] (cur # sets) cs else None
      else if c = CHR 0x5C then setLoop True cur sets cs
      else setLoop False (cur @ [c]) sets cs)"

definition findSetMatches :: "string \<Rightarrow> string list" where
  "findSetMatches pattern =
     (case setLoop False [] [] pattern of None \<Rightarrow> [] | Some sets \<Rightarrow> filter (\<lambda>s. length s > 0) sets)"

record posting_group =
  pgAddAll :: bool
  pgAddKeys :: "(string \<times> string) list"
  pgRemoveKeys :: "(string \<times> string) list"

definition newPostingGroup :: "bool \<Rightarrow> (string \<times> string) list \<Rightarrow> (string \<times> string) list \<Rightarrow> posting_group" where
  "newPostingGroup addAll addKeys removeKeys = \<lparr>pgAddAll = addAll, pgAddKeys = addKeys, pgRemoveKeys = removeKeys\<rparr>"

text \<open>\<open>lvals\<close> lists the values of a label; reading them may fail.\<close>

definition toPostingGroup :: "(string \<Rightarrow> string list option) \<Rightarrow> matcher \<Rightarrow> posting_group option" where
  "toPostingGroup lvals m =
     (if mType m = MatchRegexp \<and> length (findSetMatches (mValue m)) > 0
      then Some (newPostingGroup False (map (Pair (mName m)) (findSetMatches (mValue m))) [])
      else if mMatches m ''''
      then case lvals (mName m) of
             None \<Rightarrow> None
           | Some vals \<Rightarrow>
               Some (newPostingGroup True [] (map (Pair (mName m)) (filter (\<lambda>v. \<not> mMatches m v) vals)))
      else if mType m = MatchEqual
      then Some (newPostingGroup False [(mName m, mValue m)] [])
      else case lvals (mName m) of
             None \<Rightarrow> None
           | Some vals \<Rightarrow> Some (newPostingGroup False (map (Pair (mName m)) (filter (mMatches m) vals)) []))"

record posting_ops =
  poMerge :: "64 word list list \<Rightarrow> 64 word list"
  poIntersect :: "64 word list list \<Rightarrow> 64 word list"
  poWithout :: "64 word list \<Rightarrow> 64 word list \<Rightarrow> 64 word list"

datatype expand_error = LabelValuesError | FetchError fetch_error | NilPostings | VersionError

text \<open>The loop over the matchers; \<open>Inr None\<close> is the early return for an empty group.\<close>

fun groupsLoop :: "(string \<Rightarrow> string list option) \<Rightarrow> matcher list \<Rightarrow> expand_error + posting_group list option" where
  "groupsLoop lvals [] = Inr (Some [])"
| "groupsLoop lvals (m # ms) =
     (case toPostingGroup lvals m of
        None \<Rightarrow> Inl LabelValuesError
      | Some pg \<Rightarrow>
          if \<not> pgAddAll pg \<and> pgAddKeys pg = [] then Inr None
          else map_sum id (map_option ((#) pg)) (groupsLoop lvals ms))"

text \<open>The second loop over the groups, which pairs keys and fetched postings by position.\<close>

fun pairGroups :: "posting_ops \<Rightarrow> posting_group list \<Rightarrow> 64 word list list \<Rightarrow> 64 word list list \<times> 64 word list list" where
  "pairGroups ops [] ps = ([], [])"
| "pairGroups ops (g # gs) ps =
     (let na = length (pgAddKeys g); nr = length (pgRemoveKeys g);
          (adds, removals) = pairGroups ops gs (drop (na + nr) ps)
      in (if na > 0 then poMerge ops (take na ps) # adds else adds, take nr (drop na ps) @ removals))"

definition groupKeys :: "posting_group \<Rightarrow> (string \<times> string) list" where
  "groupKeys g = pgAddKeys g @ pgRemoveKeys g"

definition ExpandedPostings ::
  "block_index \<Rightarrow> posting_ops \<Rightarrow> (string \<Rightarrow> string list option) \<Rightarrow> nat option \<Rightarrow> matcher list \<Rightarrow> expand_error + 64 word list" where
  "ExpandedPostings bi ops lvals version ms =
     (case groupsLoop lvals ms of
        Inl e \<Rightarrow> Inl e
      | Inr None \<Rightarrow> Inr []
      | Inr (Some groups) \<Rightarrow>
          if groups = [] then Inr []
          else
            let allRequested = list_ex pgAddAll groups;
                hasAdds = list_ex (\<lambda>g. length (pgAddKeys g) > 0) groups;
                groups = (if allRequested \<and> \<not> hasAdds then groups @ [newPostingGroup True [('''', '''')] []] else groups)
            in case fetchPostings bi (concat (map groupKeys groups)) of
                 Inl e \<Rightarrow> Inl (FetchError e)
               | Inr (out, _) \<Rightarrow>
                   if None \<in> set out then Inl NilPostings
                   else
                     let (adds, removals) = pairGroups ops groups (map the out);
                         ids = poWithout ops (poIntersect ops adds) (poMerge ops removals)
                     in case version of
                          None \<Rightarrow> Inl VersionError
                        | Some v \<Rightarrow> Inr (if v \<ge> 2 then map (\<lambda>id. id * 16) ids else ids))"

text \<open>The documented behaviour of the set operations on postings, of matchers and of the index.\<close>

definition opsLaw :: "posting_ops \<Rightarrow> bool" where
  "opsLaw ops \<longleftrightarrow>
     (\<forall>ls. (\<forall>l \<in> set ls. sorted_wrt (<) l) \<longrightarrow>
        sorted_wrt (<) (poMerge ops ls) \<and> set (poMerge ops ls) = (\<Union>l \<in> set ls. set l)
        \<and> (ls \<noteq> [] \<longrightarrow> sorted_wrt (<) (poIntersect ops ls) \<and> set (poIntersect ops ls) = (\<Inter>l \<in> set ls. set l)))
     \<and> (\<forall>a b. sorted_wrt (<) a \<and> sorted_wrt (<) b \<longrightarrow>
        sorted_wrt (<) (poWithout ops a b) \<and> set (poWithout ops a b) = set a - set b)"

text \<open>
  How a regular expression writes a choice between literal strings: as in \<^verbatim>\<open>regexp.QuoteMeta\<close> every
  special character of a literal is escaped by a backslash, and a bar separates the alternatives.
\<close>

definition regexpSpecial :: "char \<Rightarrow> bool" where
  "regexpSpecial c \<longleftrightarrow> c \<in> set (CHR 0x5C # ''.+*?()|[]{}^$'')"

definition quoteMeta :: "string \<Rightarrow> string" where
  "quoteMeta s = concat (map (\<lambda>c. if regexpSpecial c then [CHR 0x5C, c] else [c]) s)"

fun literalAlternatives :: "string list \<Rightarrow> string" where
  "literalAlternatives [] = []"
| "literalAlternatives [a] = quoteMeta a"
| "literalAlternatives (a # as) = quoteMeta a @ CHR ''|'' # literalAlternatives as"

text \<open>
  The documented behaviour of a matcher: equality compares with its value; a regular expression that
  is a choice between literals matches, anchored at both ends, just these literals; an expression that
  ends in a backslash which escapes nothing does not compile. Nothing is said of other expressions.
\<close>

definition soundMatcher :: "matcher \<Rightarrow> bool" where
  "soundMatcher m \<longleftrightarrow> mName m \<noteq> ''''
     \<and> (mType m = MatchEqual \<longrightarrow> (\<forall>v. mMatches m v \<longleftrightarrow> v = mValue m))
     \<and> (mType m = MatchRegexp \<longrightarrow>
          (\<forall>alts. alts \<noteq> [] \<longrightarrow>
             (mValue m = literalAlternatives alts \<longrightarrow> (\<forall>v. mMatches m v \<longleftrightarrow> v \<in> set alts))
             \<and> mValue m \<noteq> literalAlternatives alts @ [CHR 0x5C]))"

text \<open>No alternative of a choice between literals is empty, unless all of them are.\<close>

definition noEmptyAlternative :: "matcher \<Rightarrow> bool" where
  "noEmptyAlternative m \<longleftrightarrow>
     (mType m = MatchRegexp \<longrightarrow>
        (\<forall>alts. mValue m = literalAlternatives alts \<and> '''' \<in> set alts \<longrightarrow> set alts = {''''}))"

type_synonym block_series = "(64 word \<times> labels) list"

definition keyPostings :: "block_series \<Rightarrow> string \<times> string \<Rightarrow> 64 word list" where
  "keyPostings series key =
     (if key = ('''', '''') then map fst series
      else map fst (filter (\<lambda>(r, ls). map_of ls (fst key) = Some (snd key)) series))"

definition goodSeries :: "block_series \<Rightarrow> (string \<Rightarrow> string list option) \<Rightarrow> bool" where
  "goodSeries series lvals \<longleftrightarrow>
     sorted_wrt (<) (map fst series)
     \<and> (\<forall>(r, ls) \<in> set series. \<forall>(n, v) \<in> set ls. n \<noteq> '''' \<and> v \<noteq> '''')
     \<and> (\<forall>n vals. lvals n = Some vals \<longrightarrow> set vals = {v. \<exists>(r, ls) \<in> set series. map_of ls n = Some v})"

definition labelValue :: "labels \<Rightarrow> string \<Rightarrow> string" where
  "labelValue ls n = (case map_of ls n of Some v \<Rightarrow> v | None \<Rightarrow> '''')"

definition matchesAll :: "matcher list \<Rightarrow> labels \<Rightarrow> bool" where
  "matchesAll ms ls \<longleftrightarrow> (\<forall>m \<in> set ms. mMatches m (labelValue ls (mName m)))"

definition hasKey :: "labels \<Rightarrow> string \<times> string \<Rightarrow> bool" where
  "hasKey ls key \<longleftrightarrow> map_of ls (fst key) = Some (snd key)"

definition inGroup :: "posting_group \<Rightarrow> labels \<Rightarrow> bool" where
  "inGroup g ls \<longleftrightarrow> (pgAddAll g \<or> (\<exists>key \<in> set (pgAddKeys g). hasKey ls key)) \<and> \<not> (\<exists>key \<in> set (pgRemoveKeys g). hasKey ls key)"

definition groupsOf :: "posting_group list \<Rightarrow> posting_group list" where
  "groupsOf groups =
     (if list_ex pgAddAll groups \<and> \<not> list_ex (\<lambda>g. length (pgAddKeys g) > 0) groups
      then groups @ [newPostingGroup True [('''', '''')] []] else groups)"

section \<open>Groups select what their matchers match\<close>

lemma findSetMatches_nonempty: "v \<in> set (findSetMatches p) \<Longrightarrow> v \<noteq> ''''"
  by (auto simp: findSetMatches_def split: option.splits)

lemma quoteMeta_Nil [simp]: "quoteMeta [] = []"
  by (simp add: quoteMeta_def)

lemma literalAlternatives_simps:
  "alts \<noteq> [] \<Longrightarrow> literalAlternatives ([] # alts) = CHR ''|'' # literalAlternatives alts"
  "literalAlternatives ((c # a) # alts) =
     (if regexpSpecial c then [CHR 0x5C, c] else [c]) @ literalAlternatives (a # alts)"
  by (cases alts; simp add: quoteMeta_def)+

lemma meta_special: "isRegexMetaCharacter c \<or> c = CHR 0x5C \<longleftrightarrow> regexpSpecial c"
  by (auto simp: isRegexMetaCharacter_def regexpSpecial_def)

text \<open>The loop over the pattern inverts the printing of literal alternatives, and finds nothing else.\<close>

lemma setLoop_prints:
  assumes "setLoop escaped cur sets cs = Some res"
  shows "\<exists>a alts. res = rev sets @ (cur @ a) # alts
    \<and> (let p = (if escaped then CHR 0x5C # cs else cs)
       in p = literalAlternatives (a # alts) \<or> p = literalAlternatives (a # alts) @ [CHR 0x5C])"
  using assms
proof (induction escaped cur sets cs rule: setLoop.induct)
  case (1 escaped cur sets)
  then show ?case by (intro exI [of _ "[]"]) (auto simp: quoteMeta_def)
next
  case (2 cur sets c cs)
  then have sp: "regexpSpecial c" and "setLoop False (cur @ [c]) sets cs = Some res"
    by (auto simp: meta_special [symmetric] split: if_splits)
  then obtain a alts where "res = rev sets @ (cur @ [c] @ a) # alts"
    "cs = literalAlternatives (a # alts) \<or> cs = literalAlternatives (a # alts) @ [CHR 0x5C]"
    using 2 by (auto split: if_splits)
  then show ?case
    using sp by (intro exI [of _ "c # a"] exI [of _ alts]) (auto simp: literalAlternatives_simps(2))
next
  case (3 cur sets c cs)
  consider (bar) "c = CHR ''|''" "setLoop False [] (cur # sets) cs = Some res"
    | (escape) "c = CHR 0x5C" "\<not> isRegexMetaCharacter c" "setLoop True cur sets cs = Some res"
    | (literal) "c \<noteq> CHR 0x5C" "\<not> isRegexMetaCharacter c" "setLoop False (cur @ [c]) sets cs = Some res"
    using 3(4) by (auto split: if_splits)
  then show ?case
  proof cases
    case bar
    have "isRegexMetaCharacter c" using bar(1) by (simp add: isRegexMetaCharacter_def)
    then obtain a alts where "res = rev (cur # sets) @ ([] @ a) # alts"
      "cs = literalAlternatives (a # alts) \<or> cs = literalAlternatives (a # alts) @ [CHR 0x5C]"
      using 3(1) bar by auto
    then show ?thesis
      using bar(1) by (intro exI [of _ "[]"] exI [of _ "a # alts"]) (auto simp: literalAlternatives_simps(1))
  next
    case escape
    then show ?thesis using 3(2) by auto
  next
    case literal
    then have sp: "\<not> regexpSpecial c" using meta_special by blast
    obtain a alts where "res = rev sets @ (cur @ [c] @ a) # alts"
      "cs = literalAlternatives (a # alts) \<or> cs = literalAlternatives (a # alts) @ [CHR 0x5C]"
      using 3(3) literal by auto
    then show ?thesis
      using sp by (intro exI [of _ "c # a"] exI [of _ alts]) (auto simp: literalAlternatives_simps(2))
  qed
qed

lemma setLoop_reads:
  "setLoop False cur sets (literalAlternatives (a # alts)) = Some (rev sets @ (cur @ a) # alts)"
proof (induction alts arbitrary: a cur sets)
  case Nil
  show ?case
  proof (induction a arbitrary: cur)
    case (Cons c a)
    then show ?case using meta_special [of c]
      by (auto simp: literalAlternatives_simps(2) isRegexMetaCharacter_def simp del: literalAlternatives.simps)
  qed (simp add: quoteMeta_def)
next
  case (Cons b alts)
  note IH = Cons.IH
  show ?case
  proof (induction a arbitrary: cur)
    case Nil
    show ?case
      using IH [of "[]" "cur # sets" b]
      by (simp add: literalAlternatives_simps(1) isRegexMetaCharacter_def del: literalAlternatives.simps)
  next
    case (Cons c a)
    then show ?case using meta_special [of c]
      by (auto simp: literalAlternatives_simps(2) isRegexMetaCharacter_def simp del: literalAlternatives.simps)
  qed
qed

lemma setMatches_iff:
  assumes "soundMatcher m" and "noEmptyAlternative m" and "mType m = MatchRegexp" and "findSetMatches (mValue m) \<noteq> []"
  shows "mMatches m v \<longleftrightarrow> v \<in> set (findSetMatches (mValue m))"
proof -
  obtain sets where sets: "setLoop False [] [] (mValue m) = Some sets"
    using assms(4) by (auto simp: findSetMatches_def split: option.splits)
  obtain a alts where alts: "sets = a # alts"
    "mValue m = literalAlternatives sets \<or> mValue m = literalAlternatives sets @ [CHR 0x5C]"
    using setLoop_prints [OF sets] unfolding Let_def by auto
  then have val: "mValue m = literalAlternatives sets" and mm: "mMatches m v \<longleftrightarrow> v \<in> set sets"
    using assms(1,3) unfolding soundMatcher_def by (metis list.distinct(1))+
  have found: "set (findSetMatches (mValue m)) = set sets - {''''}" using sets by (auto simp: findSetMatches_def)
  then have "'''' \<notin> set sets" using assms(2-4) val by (auto simp: noEmptyAlternative_def)
  then show ?thesis using mm found by simp
qed

lemma toPostingGroup_selects:
  assumes "toPostingGroup lvals m = Some g" and "soundMatcher m \<and> noEmptyAlternative m" and "goodSeries series lvals" and "(r, ls) \<in> set series"
  shows "(inGroup g ls \<longleftrightarrow> mMatches m (labelValue ls (mName m)))
    \<and> (pgAddAll g \<longrightarrow> pgAddKeys g = []) \<and> (\<not> pgAddAll g \<longrightarrow> pgRemoveKeys g = [])
    \<and> (\<forall>key \<in> set (groupKeys g). fst key \<noteq> '''')"
proof -
  have nonempty: "v \<noteq> ''''" if "map_of ls n = Some v" for n v
    using assms(3,4) map_of_SomeD [OF that] by (fastforce simp: goodSeries_def)
  have vals: "v \<in> set vals" if "lvals (mName m) = Some vals" "map_of ls (mName m) = Some v" for vals v
    using that assms(3,4) by (fastforce simp: goodSeries_def)
  consider (sets) "mType m = MatchRegexp" "findSetMatches (mValue m) \<noteq> []"
    | (empty) "\<not> (mType m = MatchRegexp \<and> findSetMatches (mValue m) \<noteq> [])" "mMatches m ''''"
    | (equal) "mType m = MatchEqual" "\<not> mMatches m ''''"
    | (other) "\<not> (mType m = MatchRegexp \<and> findSetMatches (mValue m) \<noteq> [])" "\<not> mMatches m ''''" "mType m \<noteq> MatchEqual"
    by blast
  then show ?thesis
  proof cases
    case sets
    then have g: "g = newPostingGroup False (map (Pair (mName m)) (findSetMatches (mValue m))) []"
      using assms(1) by (simp add: toPostingGroup_def)
    have eq: "mMatches m v \<longleftrightarrow> v \<in> set (findSetMatches (mValue m))" for v
      using setMatches_iff assms(2) sets by blast
    have "mName m \<noteq> ''''" using assms(2) by (simp add: soundMatcher_def)
    then show ?thesis
      unfolding eq using findSetMatches_nonempty [of _ "mValue m"]
      by (cases "map_of ls (mName m)") (auto simp: g newPostingGroup_def inGroup_def hasKey_def labelValue_def groupKeys_def)
  next
    case empty
    then obtain vs where vs: "lvals (mName m) = Some vs"
      and g: "g = newPostingGroup True [] (map (Pair (mName m)) (filter (\<lambda>v. \<not> mMatches m v) vs))"
      using assms(1) by (auto simp: toPostingGroup_def split: option.splits)
    show ?thesis
      using assms(2) vals [OF vs] empty(2)
      by (cases "map_of ls (mName m)") (auto simp: g newPostingGroup_def inGroup_def hasKey_def labelValue_def groupKeys_def soundMatcher_def)
  next
    case equal
    then have g: "g = newPostingGroup False [(mName m, mValue m)] []" using assms(1) by (simp add: toPostingGroup_def)
    have eq: "mMatches m v \<longleftrightarrow> v = mValue m" for v using assms(2) equal(1) by (simp add: soundMatcher_def)
    have "mName m \<noteq> ''''" "mValue m \<noteq> ''''" using assms(2) equal(2) eq [of "''''"] by (auto simp: soundMatcher_def)
    then show ?thesis
      unfolding eq by (cases "map_of ls (mName m)") (auto simp: g newPostingGroup_def inGroup_def hasKey_def labelValue_def groupKeys_def)
  next
    case other
    then obtain vs where vs: "lvals (mName m) = Some vs"
      and g: "g = newPostingGroup False (map (Pair (mName m)) (filter (mMatches m) vs)) []"
      using assms(1) by (auto simp: toPostingGroup_def split: option.splits)
    show ?thesis
      using assms(2) vals [OF vs] other(2)
      by (cases "map_of ls (mName m)") (auto simp: g newPostingGroup_def inGroup_def hasKey_def labelValue_def groupKeys_def soundMatcher_def)
  qed
qed

section \<open>Expanding matchers\<close>

lemma groupsLoop_groups:
  assumes "groupsLoop lvals ms = Inr (Some groups)"
  shows "list_all2 (\<lambda>m g. toPostingGroup lvals m = Some g \<and> (pgAddAll g \<or> pgAddKeys g \<noteq> [])) ms groups"
  using assms
proof (induction ms arbitrary: groups)
  case (Cons m ms)
  then obtain g gs where "toPostingGroup lvals m = Some g" "pgAddAll g \<or> pgAddKeys g \<noteq> []"
    "groupsLoop lvals ms = Inr (Some gs)" "groups = g # gs"
    by (cases "groupsLoop lvals ms") (auto split: option.splits if_splits)
  with Cons.IH show ?case by simp
qed simp

lemma groupsLoop_empty:
  assumes "groupsLoop lvals ms = Inr None"
  shows "\<exists>m \<in> set ms. \<exists>g. toPostingGroup lvals m = Some g \<and> \<not> pgAddAll g \<and> pgAddKeys g = []"
  using assms
proof (induction ms)
  case (Cons m ms)
  then show ?case by (cases "groupsLoop lvals ms") (auto split: option.splits if_splits)
qed simp

lemma pairGroups_post:
  "pairGroups ops groups (map post (concat (map groupKeys groups)))
     = (map (\<lambda>g. poMerge ops (map post (pgAddKeys g))) (filter (\<lambda>g. pgAddKeys g \<noteq> []) groups),
        map post (concat (map pgRemoveKeys groups)))"
proof (induction groups)
  case (Cons g groups)
  have "drop (length (pgAddKeys g) + length (pgRemoveKeys g)) (map post (concat (map groupKeys (g # groups))))
      = map post (concat (map groupKeys groups))"
    by (simp add: groupKeys_def)
  with Cons show ?case by (simp add: groupKeys_def Let_def)
qed simp

lemma keyPostings_sorted: "sorted_wrt (<) (map fst series) \<Longrightarrow> sorted_wrt (<) (keyPostings series key)"
  by (induction series) (auto simp: keyPostings_def)

lemma keyPostings_iff:
  assumes "sorted_wrt (<) (map fst series)" and "(r, ls) \<in> set series" and "fst key \<noteq> ''''"
  shows "r \<in> set (keyPostings series key) \<longleftrightarrow> hasKey ls key"
proof -
  have "distinct (map fst series)" using assms(1) by (simp add: strict_sorted_iff)
  then have same: "ls' = ls" if "(r, ls') \<in> set series" for ls'
    using that assms(2) by (meson eq_key_imp_eq_value)
  have "key \<noteq> ('''', '''')" using assms(3) by (cases key) simp
  then have "keyPostings series key = map fst (filter (\<lambda>(r, ls). hasKey ls key) series)"
    by (simp add: keyPostings_def hasKey_def)
  then have "r \<in> set (keyPostings series key) \<longleftrightarrow> (\<exists>ls'. (r, ls') \<in> set series \<and> hasKey ls' key)"
    by (simp add: image_iff Bex_def)
  with same assms(2) show ?thesis by blast
qed

lemma keyPostings_subset: "set (keyPostings series key) \<subseteq> fst ` set series"
  by (auto simp: keyPostings_def)

text \<open>The references the set operations select, for groups as the loop over the matchers builds them.\<close>

lemma selected_refs:
  assumes ops: "opsLaw ops" and strict: "sorted_wrt (<) (map fst series)" and "groups \<noteq> []"
    and shape: "\<forall>g \<in> set groups. (pgAddAll g \<longleftrightarrow> pgAddKeys g = []) \<and> (\<forall>key \<in> set (groupKeys g). fst key \<noteq> '''')"
    and res: "pairGroups ops (groupsOf groups) (map (keyPostings series) (concat (map groupKeys (groupsOf groups)))) = (adds, removals)"
  shows "poWithout ops (poIntersect ops adds) (poMerge ops removals)
    = map fst (filter (\<lambda>(r, ls). \<forall>g \<in> set groups. inGroup g ls) series)"
proof -
  let ?post = "keyPostings series" and ?gs = "groupsOf groups"
  let ?ids = "poWithout ops (poIntersect ops adds) (poMerge ops removals)"
  have adds: "adds = map (\<lambda>g. poMerge ops (map ?post (pgAddKeys g))) (filter (\<lambda>g. pgAddKeys g \<noteq> []) ?gs)"
    and removals: "removals = map ?post (concat (map pgRemoveKeys ?gs))"
    using res unfolding pairGroups_post by auto
  have merge: "sorted_wrt (<) (poMerge ops (map ?post ks)) \<and> set (poMerge ops (map ?post ks)) = (\<Union>k \<in> set ks. set (?post k))" for ks
    using ops keyPostings_sorted [OF strict] by (simp add: opsLaw_def)
  have nonempty: "adds \<noteq> []"
  proof (cases "list_ex pgAddAll groups \<and> \<not> list_ex (\<lambda>g. length (pgAddKeys g) > 0) groups")
    case True
    then show ?thesis by (simp add: adds groupsOf_def newPostingGroup_def)
  next
    case False
    then obtain g where "g \<in> set groups" "pgAddKeys g \<noteq> []"
      using shape \<open>groups \<noteq> []\<close> by (cases groups) (auto simp: list_ex_iff)
    then show ?thesis using False by (auto simp: adds groupsOf_def filter_empty_conv)
  qed
  have inter: "sorted_wrt (<) (poIntersect ops adds) \<and> set (poIntersect ops adds) = (\<Inter>l \<in> set adds. set l)"
    using ops merge nonempty by (simp add: opsLaw_def adds)
  have ids: "sorted_wrt (<) ?ids" "set ?ids = (\<Inter>l \<in> set adds. set l) - (\<Union>k \<in> set (concat (map pgRemoveKeys ?gs)). set (?post k))"
    using ops inter merge [of "concat (map pgRemoveKeys ?gs)"] unfolding removals by (simp_all add: opsLaw_def)
  have member: "r \<in> set ?ids \<longleftrightarrow> (\<forall>g \<in> set groups. inGroup g ls)" if r: "(r, ls) \<in> set series" for r ls
  proof -
    have all: "r \<in> set (?post ('''', ''''))" using r by (force simp: keyPostings_def)
    have key: "r \<in> set (?post k) \<longleftrightarrow> hasKey ls k" if "g \<in> set groups" "k \<in> set (groupKeys g)" for g k
      using keyPostings_iff [OF strict r] shape that by blast
    have "(r \<in> (\<Inter>l \<in> set adds. set l)) \<longleftrightarrow> (\<forall>g \<in> set ?gs. pgAddKeys g \<noteq> [] \<longrightarrow> (\<exists>k \<in> set (pgAddKeys g). r \<in> set (?post k)))"
      using merge by (auto simp: adds)
    also have "\<dots> \<longleftrightarrow> (\<forall>g \<in> set groups. pgAddKeys g \<noteq> [] \<longrightarrow> (\<exists>k \<in> set (pgAddKeys g). r \<in> set (?post k)))"
      using all by (auto simp: groupsOf_def newPostingGroup_def)
    also have "\<dots> \<longleftrightarrow> (\<forall>g \<in> set groups. pgAddAll g \<or> (\<exists>k \<in> set (pgAddKeys g). hasKey ls k))"
      using shape key by (fastforce simp: groupKeys_def)
    finally have "(r \<in> (\<Inter>l \<in> set adds. set l)) \<longleftrightarrow> (\<forall>g \<in> set groups. pgAddAll g \<or> (\<exists>k \<in> set (pgAddKeys g). hasKey ls k))" .
    moreover have "(r \<in> (\<Union>k \<in> set (concat (map pgRemoveKeys ?gs)). set (?post k))) \<longleftrightarrow> (\<exists>g \<in> set groups. \<exists>k \<in> set (pgRemoveKeys g). hasKey ls k)"
    proof -
      have "set (concat (map pgRemoveKeys ?gs)) = (\<Union>g \<in> set groups. set (pgRemoveKeys g))"
        by (simp add: groupsOf_def newPostingGroup_def)
      moreover have "r \<in> set (?post k) \<longleftrightarrow> hasKey ls k" if "g \<in> set groups" "k \<in> set (pgRemoveKeys g)" for g k
        using key that by (simp add: groupKeys_def)
      ultimately show ?thesis by (metis (no_types, lifting) UN_iff)
    qed
    ultimately show ?thesis unfolding ids(2) by (auto simp: inGroup_def)
  qed
  have "set ?ids \<subseteq> fst ` set series"
  proof -
    obtain l where l: "l \<in> set adds" using nonempty by (cases adds) auto
    then obtain ks where "l = poMerge ops (map ?post ks)" by (auto simp: adds)
    then have "set l \<subseteq> fst ` set series" using merge keyPostings_subset by fastforce
    then show ?thesis using ids(2) l by blast
  qed
  with member have "set ?ids = set (map fst (filter (\<lambda>(r, ls). \<forall>g \<in> set groups. inGroup g ls) series))" by fastforce
  moreover have "sorted_wrt (<) (map fst (filter (\<lambda>(r, ls). \<forall>g \<in> set groups. inGroup g ls) series))"
    using strict by (induction series) auto
  ultimately show ?thesis using ids(1) strict_sorted_equal by blast
qed

lemma groups_match:
  assumes "groupsLoop lvals ms = Inr (Some groups)" and "\<forall>m \<in> set ms. soundMatcher m \<and> noEmptyAlternative m" and "goodSeries series lvals"
    and "(r, ls) \<in> set series"
  shows "(\<forall>g \<in> set groups. inGroup g ls) \<longleftrightarrow> matchesAll ms ls"
    and "\<forall>g \<in> set groups. (pgAddAll g \<longleftrightarrow> pgAddKeys g = []) \<and> (\<forall>key \<in> set (groupKeys g). fst key \<noteq> '''')"
proof -
  have "((\<forall>g \<in> set groups. inGroup g ls) \<longleftrightarrow> matchesAll ms ls)
    \<and> (\<forall>g \<in> set groups. (pgAddAll g \<longleftrightarrow> pgAddKeys g = []) \<and> (\<forall>key \<in> set (groupKeys g). fst key \<noteq> ''''))"
    using groupsLoop_groups [OF assms(1)] assms(2)
  proof (induction rule: list_all2_induct)
    case (Cons m ms g groups)
    have "soundMatcher m \<and> noEmptyAlternative m" using Cons.prems by simp
    from toPostingGroup_selects [OF _ this assms(3,4), of g] Cons show ?case by (auto simp: matchesAll_def)
  qed (simp add: matchesAll_def)
  then show "(\<forall>g \<in> set groups. inGroup g ls) \<longleftrightarrow> matchesAll ms ls"
    and "\<forall>g \<in> set groups. (pgAddAll g \<longleftrightarrow> pgAddKeys g = []) \<and> (\<forall>key \<in> set (groupKeys g). fst key \<noteq> '''')"
    by simp_all
qed

text \<open>
  C34: a query finds exactly the series it asks for: if \<^verbatim>\<open>ExpandedPostings\<close> succeeds for a non-empty list
  of matchers on a non-empty block, it returns, in order, the references of the series of the block
  whose labels satisfy every matcher, where a missing label counts as empty; from index version 2 on,
  each reference is multiplied by 16. The matchers, the set operations and the index behave as
  documented, and no regular expression is a choice between the empty string and other literals.
\<close>

theorem ExpandedPostings_exact:
  assumes "ExpandedPostings bi ops lvals (Some version) ms = Inr ids" and "ms \<noteq> []"
    and "goodIndex bi idx (keyPostings series)" and "goodSeries series lvals" and "series \<noteq> []"
    and "opsLaw ops" and "\<forall>m \<in> set ms. soundMatcher m \<and> noEmptyAlternative m"
  shows "ids = map (\<lambda>r. if version \<ge> 2 then r * 16 else r) (map fst (filter (\<lambda>(r, ls). matchesAll ms ls) series))"
proof (cases "groupsLoop lvals ms")
  case (Inl e)
  then show ?thesis using assms(1) by (simp add: ExpandedPostings_def)
next
  case (Inr res)
  show ?thesis
  proof (cases res)
    case None
    then obtain m g where g: "m \<in> set ms" "toPostingGroup lvals m = Some g" "\<not> pgAddAll g" "pgAddKeys g = []"
      using groupsLoop_empty Inr by blast
    have "\<not> matchesAll ms ls" if "(r, ls) \<in> set series" for r ls
      using toPostingGroup_selects [OF g(2) _ assms(4) that] g assms(7) by (auto simp: inGroup_def matchesAll_def)
    then have "filter (\<lambda>(r, ls). matchesAll ms ls) series = []" by (auto simp: filter_empty_conv)
    then show ?thesis using assms(1) Inr None by (simp add: ExpandedPostings_def)
  next
    case (Some groups)
    have loop: "groupsLoop lvals ms = Inr (Some groups)" using Inr Some by simp
    have "groups \<noteq> []" using groupsLoop_groups [OF loop] assms(2) by auto
    have strict: "sorted_wrt (<) (map fst series)" using assms(4) by (simp add: goodSeries_def)
    obtain r0 ls0 where "(r0, ls0) \<in> set series" using assms(5) by (cases series) auto
    note shape = groups_match(2) [OF loop assms(7,4) this]
    obtain out stores where fetch: "fetchPostings bi (concat (map groupKeys (groupsOf groups))) = Inr (out, stores)"
      using assms(1) loop \<open>groups \<noteq> []\<close>
      by (auto simp: ExpandedPostings_def groupsOf_def Let_def split: sum.splits)
    have out: "out = map (Some \<circ> keyPostings series) (concat (map groupKeys (groupsOf groups)))"
      using fetchPostings_filled [OF assms(3), of "concat (map groupKeys (groupsOf groups))"] fetch by simp
    obtain adds removals where pair: "pairGroups ops (groupsOf groups) (map the out) = (adds, removals)" by fastforce
    have "ids = (if version \<ge> 2 then map (\<lambda>id. id * 16) (poWithout ops (poIntersect ops adds) (poMerge ops removals))
        else poWithout ops (poIntersect ops adds) (poMerge ops removals))"
      using assms(1) loop \<open>groups \<noteq> []\<close> fetch pair
      by (auto simp: ExpandedPostings_def groupsOf_def Let_def split: if_splits)
    also have "poWithout ops (poIntersect ops adds) (poMerge ops removals)
        = map fst (filter (\<lambda>(r, ls). \<forall>g \<in> set groups. inGroup g ls) series)"
      using selected_refs [OF assms(6) strict \<open>groups \<noteq> []\<close> shape] pair by (simp add: out comp_def)
    also have "filter (\<lambda>(r, ls). \<forall>g \<in> set groups. inGroup g ls) series = filter (\<lambda>(r, ls). matchesAll ms ls) series"
      using groups_match(1) [OF loop assms(7,4)] by (intro filter_cong) auto
    finally show ?thesis by auto
  qed
qed

text \<open>
  The set-match shortcut drops empty alternatives: \<^verbatim>\<open>a|\<close> also matches series without the label, which the group of
  the matcher leaves out.
\<close>

lemma toPostingGroup_drops_empty:
  assumes "mType m = MatchRegexp" and "mValue m = ''a|''" and "soundMatcher m"
  shows "mMatches m (labelValue [] (mName m)) \<and> (\<exists>g. toPostingGroup lvals m = Some g \<and> \<not> inGroup g [])"
proof -
  have "mValue m = literalAlternatives [''a'', '''']" using assms(2) by (simp add: quoteMeta_def regexpSpecial_def)
  moreover have "mValue m = literalAlternatives [''a'', ''''] \<longrightarrow> (\<forall>v. mMatches m v \<longleftrightarrow> v \<in> set [''a'', ''''])"
    using assms(1,3) unfolding soundMatcher_def by blast
  ultimately have "mMatches m ''''" by simp
  moreover have "findSetMatches (mValue m) = [''a'']"
    using assms(2) by (simp add: findSetMatches_def isRegexMetaCharacter_def)
  ultimately show ?thesis
    using assms(1) by (simp add: toPostingGroup_def labelValue_def newPostingGroup_def inGroup_def hasKey_def)
qed

section \<open>A small block\<close>

definition sampleSeries :: block_series where
  "sampleSeries = [(5, [(''a'', ''1'')]), (256, [(''a'', ''1''), (''b'', ''2'')])]"

definition sampleFile :: bytes where
  "sampleFile = postingsEntry [5, 256] @ postingsEntry [256]"

definition sampleValues :: "string \<Rightarrow> string list option" where
  "sampleValues n = Some (if n = ''a'' then [''1''] else if n = ''b'' then [''2''] else [])"

definition sampleIndex :: block_index where
  "sampleIndex = \<lparr>biCache = (\<lambda>_. None),
     biOffset = (\<lambda>key. if key = ('''', '''') \<or> key = (''a'', ''1'') then Range 0 12
                       else if key = (''b'', ''2'') then Range 12 20 else NotFoundRange),
     biRead = (\<lambda>s l. Some (take (nat l) (drop (nat s) sampleFile))),
     biSnappy = storedSnappy, biDecode = (\<lambda>_. None), biGap = 100\<rparr>"

definition setOps :: posting_ops where
  "setOps = \<lparr>poMerge = (\<lambda>ls. sorted_list_of_set (\<Union>l \<in> set ls. set l)),
     poIntersect = (\<lambda>ls. sorted_list_of_set (\<Inter>l \<in> set ls. set l)),
     poWithout = (\<lambda>a b. sorted_list_of_set (set a - set b))\<rparr>"

definition sampleMatchers :: "matcher list" where
  "sampleMatchers =
     [\<lparr>mType = MatchRegexp, mName = ''a'', mValue = ''1|3'', mMatches = (\<lambda>v. v \<in> {''1'', ''3''})\<rparr>,
      \<lparr>mType = MatchNotEqual, mName = ''b'', mValue = ''2'', mMatches = (\<lambda>v. v \<noteq> ''2'')\<rparr>]"

lemma setOps_law: "opsLaw setOps"
  by (auto simp: opsLaw_def setOps_def)

lemma sampleSeries_good: "goodSeries sampleSeries sampleValues"
  by (auto simp: goodSeries_def sampleSeries_def sampleValues_def word_less_nat_alt)

lemma sampleMatchers_sound: "\<forall>m \<in> set sampleMatchers. soundMatcher m \<and> noEmptyAlternative m"
proof -
  have pat: "alts = [''1'', ''3'']" if p: "''1|3'' = literalAlternatives alts" for alts
  proof -
    obtain a as where "alts = a # as" using p by (cases alts) auto
    then have "setLoop False [] [] ''1|3'' = Some alts" using setLoop_reads [of "[]" "[]" a as] p by simp
    then show ?thesis by (simp add: isRegexMetaCharacter_def)
  qed
  have iff: "''1|3'' = literalAlternatives alts \<longleftrightarrow> alts = [''1'', ''3'']" for alts
    using pat by (auto simp: quoteMeta_def regexpSpecial_def)
  have last: "''1|3'' \<noteq> p @ [CHR 0x5C]" for p
    using arg_cong [of "''1|3''" "p @ [CHR 0x5C]" last] by auto
  show ?thesis unfolding sampleMatchers_def by (simp add: soundMatcher_def noEmptyAlternative_def iff last)
qed

lemma keyPostings_cons:
  "keyPostings [] key = []"
  "keyPostings ((r, ls) # series) key
     = (if key = ('''', '''') \<or> map_of ls (fst key) = Some (snd key) then r # keyPostings series key else keyPostings series key)"
  by (simp_all add: keyPostings_def)

lemma sample_keys:
  "keyPostings sampleSeries key =
     (if key = ('''', '''') \<or> key = (''a'', ''1'') then [5, 256] else if key = (''b'', ''2'') then [256] else [])"
  by (cases key) (auto simp: sampleSeries_def keyPostings_cons)

lemma sampleIndex_good: "goodIndex sampleIndex sampleFile (keyPostings sampleSeries)"
proof -
  have good: "goodPostings (keyPostings sampleSeries key)" for key
    by (simp add: sample_keys goodPostings_def word_less_nat_alt)
  have lens: "length (postingsEntry [5, 256]) = 12" "length (postingsEntry [256]) = 8" by (simp_all add: length_postingsEntry)
  have entries: "take 12 sampleFile = postingsEntry [5, 256]" "take 8 (drop 12 sampleFile) = postingsEntry [256]"
    "length sampleFile = 20"
    using lens by (simp_all add: sampleFile_def)
  show ?thesis
    unfolding goodIndex_def
  proof (intro conjI allI)
    fix key
    show "case biOffset sampleIndex key of
          NotFoundRange \<Rightarrow> keyPostings sampleSeries key = []
        | OffsetErr \<Rightarrow> True
        | Range s e \<Rightarrow> 0 \<le> s \<and> s \<le> e \<and> e \<le> int (length sampleFile)
            \<and> (\<exists>rest. take (nat (e - s)) (drop (nat s) sampleFile) = postingsEntry (keyPostings sampleSeries key) @ rest)"
      using entries lens by (simp add: sampleIndex_def sample_keys)
  qed (use good entries in \<open>simp_all add: sampleIndex_def storedSnappy_def\<close>)
qed

lemma sample_fetch:
  "fetchPostings sampleIndex [(''a'', ''1''), (''b'', ''2'')]
     = Inr ([Some [5, 256], Some [256]], snd (projr (fetchPostings sampleIndex [(''a'', ''1''), (''b'', ''2'')])))"
proof -
  have "\<not> isl (fetchPostings sampleIndex [(''a'', ''1''), (''b'', ''2'')])" by code_simp
  then obtain out stores where "fetchPostings sampleIndex [(''a'', ''1''), (''b'', ''2'')] = Inr (out, stores)"
    by (cases "fetchPostings sampleIndex [(''a'', ''1''), (''b'', ''2'')]") auto
  with fetchPostings_filled [OF sampleIndex_good, of "[(''a'', ''1''), (''b'', ''2'')]"] show ?thesis by (simp add: sample_keys)
qed

theorem fetchPostings_exact_witness:
  "\<exists>stores. fetchPostings sampleIndex [(''a'', ''1''), (''b'', ''2'')] = Inr ([Some [5, 256], Some [256]], stores)
     \<and> list_all (\<lambda>(key, b). cachedPostings sampleIndex b = Inr (keyPostings sampleSeries key)) stores"
  using fetchPostings_exact [OF sampleIndex_good, of "[(''a'', ''1''), (''b'', ''2'')]"] sample_fetch
  by (auto split: sum.splits)

lemma sample_fetch_alternatives:
  "\<exists>stores. fetchPostings sampleIndex [(''a'', ''1''), (''a'', ''3''), (''b'', ''2'')] = Inr ([Some [5, 256], Some [], Some [256]], stores)"
proof -
  let ?keys = "[(''a'', ''1''), (''a'', ''3''), (''b'', ''2'')]"
  have "\<not> isl (fetchPostings sampleIndex ?keys)" by code_simp
  then obtain out stores where "fetchPostings sampleIndex ?keys = Inr (out, stores)"
    by (cases "fetchPostings sampleIndex ?keys") auto
  with fetchPostings_filled [OF sampleIndex_good, of ?keys] show ?thesis by (simp add: sample_keys)
qed

lemma sample_groups:
  "groupsLoop sampleValues sampleMatchers
     = Inr (Some [newPostingGroup False [(''a'', ''1''), (''a'', ''3'')] [], newPostingGroup True [] [(''b'', ''2'')]])"
  by (simp add: sampleMatchers_def toPostingGroup_def findSetMatches_def isRegexMetaCharacter_def sampleValues_def
      newPostingGroup_def)

lemma sample_expands: "\<not> isl (ExpandedPostings sampleIndex setOps sampleValues (Some 2) sampleMatchers)"
  using sample_fetch_alternatives
  by (auto simp: ExpandedPostings_def sample_groups groupKeys_def newPostingGroup_def split: sum.splits prod.splits)

theorem ExpandedPostings_exact_witness:
  "ExpandedPostings sampleIndex setOps sampleValues (Some 2) sampleMatchers = Inr [80]"
proof -
  obtain ids where ids: "ExpandedPostings sampleIndex setOps sampleValues (Some 2) sampleMatchers = Inr ids"
    using sample_expands by (cases "ExpandedPostings sampleIndex setOps sampleValues (Some 2) sampleMatchers") auto
  have "sampleMatchers \<noteq> []" "sampleSeries \<noteq> []" by (simp_all add: sampleMatchers_def sampleSeries_def)
  from ExpandedPostings_exact [OF ids this(1) sampleIndex_good sampleSeries_good this(2) setOps_law sampleMatchers_sound]
  have "ids = [80]" by (simp add: sampleSeries_def sampleMatchers_def matchesAll_def labelValue_def)
  with ids show ?thesis by simp
qed

end
