(* ===== verification/Bucket_Blocks.thy ===== *)
theory Bucket_Blocks
  imports Bucket_Query Compact_Groups "HOL-Library.AList"
begin

text \<open>
  The blocks with the same external labels form a set, ordered by resolution and time (\<^verbatim>\<open>bucketBlockSet\<close> of
  \<^verbatim>\<open>pkg/store/bucket.go\<close>). \<^verbatim>\<open>getFor\<close> selects the blocks of a time range, with the coarsest resolution allowed and finer
  ones in its gaps; \<^verbatim>\<open>labelMatchers\<close> decides the matchers that concern the external labels.
\<close>

record bucket_block =
  bbMeta :: meta
  bbExtLset :: labels
  bbRelabelLabels :: labels
  bbChunkObjs :: "obj_name list"

record bucket_block_set =
  bsLabels :: labels
  bsResolutions :: "int list"
  bsBlocks :: "bucket_block list list"

datatype set_error = LabelMismatch | UnsupportedResolution | OpenFailed | ListFailed

datatype get_panic = IndexPanic | DepthExceeded

definition newBucketBlockSet :: "labels \<Rightarrow> bucket_block_set" where
  "newBucketBlockSet lset =
     \<lparr>bsLabels = lset, bsResolutions = [ResLevel2, ResLevel1, ResLevel0], bsBlocks = replicate 3 []\<rparr>"

fun int64index :: "int list \<Rightarrow> int \<Rightarrow> nat option" where
  "int64index [] x = None"
| "int64index (v # vs) x = (if v = x then Some 0 else map_option Suc (int64index vs x))"

definition blockLess :: "bucket_block \<Rightarrow> bucket_block \<Rightarrow> bool" where
  "blockLess a b =
     (if minTime (bbMeta a) = minTime (bbMeta b) then maxTime (bbMeta a) < maxTime (bbMeta b)
      else minTime (bbMeta a) < minTime (bbMeta b))"

definition addToSet :: "bucket_block_set \<Rightarrow> bucket_block \<Rightarrow> set_error + bucket_block_set" where
  "addToSet s b =
     (if bsLabels s \<noteq> labels_from_map (extLabels (thanos (bbMeta b))) then Inl LabelMismatch
      else case int64index (bsResolutions s) (resolution (thanos (bbMeta b))) of
             None \<Rightarrow> Inl UnsupportedResolution
           | Some i \<Rightarrow> Inr (s\<lparr>bsBlocks := (bsBlocks s)[i := sort_slice blockLess (bsBlocks s ! i @ [b])]\<rparr>))"

fun dropFirst :: "ulid \<Rightarrow> bucket_block list \<Rightarrow> bucket_block list option" where
  "dropFirst i [] = None"
| "dropFirst i (b # bs) = (if metaULID (bbMeta b) = i then Some bs else map_option ((#) b) (dropFirst i bs))"

fun removeLoop :: "ulid \<Rightarrow> bucket_block list list \<Rightarrow> bucket_block list list" where
  "removeLoop i [] = []"
| "removeLoop i (bs # bss) =
     (case dropFirst i bs of None \<Rightarrow> bs # removeLoop i bss | Some bs' \<Rightarrow> bs' # bss)"

definition removeFromSet :: "ulid \<Rightarrow> bucket_block_set \<Rightarrow> bucket_block_set" where
  "removeFromSet i s = s\<lparr>bsBlocks := removeLoop i (bsBlocks s)\<rparr>"

definition matchRelabelLabels :: "matcher list \<Rightarrow> bucket_block \<Rightarrow> bool" where
  "matchRelabelLabels ms b = list_all (\<lambda>m. mMatches m (labelValue (bbRelabelLabels b) (mName m))) ms"

text \<open>
  The loop of \<^verbatim>\<open>getFor\<close> over the blocks of one resolution; \<open>sub\<close> fills a gap with finer blocks. The result is the
  blocks in order and the start of the last gap. Blocks are taken to start after the least \<^verbatim>\<open>int64\<close>, so
  that the end of the gap before a block does not wrap around.
\<close>

fun fillLoop ::
  "(int \<Rightarrow> int \<Rightarrow> get_panic + bucket_block list) \<Rightarrow> (bucket_block \<Rightarrow> bool) \<Rightarrow> int \<Rightarrow> int \<Rightarrow> int \<Rightarrow> bucket_block list
     \<Rightarrow> get_panic + bucket_block list \<times> int" where
  "fillLoop sub included mint maxt start [] = Inr ([], start)"
| "fillLoop sub included mint maxt start (b # bs) =
     (if maxTime (bbMeta b) \<le> mint then fillLoop sub included mint maxt start bs
      else if minTime (bbMeta b) > maxt then Inr ([], start)
      else case sub start (minTime (bbMeta b) - 1) of
             Inl e \<Rightarrow> Inl e
           | Inr xs \<Rightarrow>
               map_sum id (\<lambda>(ys, start). (xs @ (if included b then [b] else []) @ ys, start))
                 (fillLoop sub included mint maxt (maxTime (bbMeta b)) bs))"

text \<open>The fuel bounds the depth of the recursion into finer resolutions.\<close>

fun getForRec ::
  "nat \<Rightarrow> bucket_block_set \<Rightarrow> int \<Rightarrow> int \<Rightarrow> int \<Rightarrow> matcher list \<Rightarrow> get_panic + bucket_block list" where
  "getForRec 0 s mint maxt maxResolutionMillis blockMatchers = Inl DepthExceeded"
| "getForRec (Suc k) s mint maxt maxResolutionMillis blockMatchers =
     (if mint > maxt then Inr []
      else
        let i = length (takeWhile (\<lambda>r. r > maxResolutionMillis) (bsResolutions s));
            sub = (\<lambda>a b. if i + 1 < length (bsResolutions s)
                         then getForRec k s a b (bsResolutions s ! (i + 1)) blockMatchers else Inr []);
            included = (\<lambda>b. length blockMatchers = 0 \<or> matchRelabelLabels blockMatchers b)
        in if i \<ge> length (bsBlocks s) then Inl IndexPanic
           else case fillLoop sub included mint maxt mint (bsBlocks s ! i) of
                  Inl e \<Rightarrow> Inl e
                | Inr (bs, start) \<Rightarrow> map_sum id (\<lambda>xs. bs @ xs) (sub start maxt))"

definition getFor :: "bucket_block_set \<Rightarrow> int \<Rightarrow> int \<Rightarrow> int \<Rightarrow> matcher list \<Rightarrow> get_panic + bucket_block list" where
  "getFor s = getForRec (Suc (length (bsResolutions s))) s"

fun labelMatchers :: "bucket_block_set \<Rightarrow> matcher list \<Rightarrow> matcher list option" where
  "labelMatchers s [] = Some []"
| "labelMatchers s (m # ms) =
     (let v = labelValue (bsLabels s) (mName m)
      in if v = '''' then map_option ((#) m) (labelMatchers s ms)
         else if \<not> mMatches m v then None
         else labelMatchers s ms)"

section \<open>The blocks of a set\<close>

abbreviation allBlocks :: "bucket_block_set \<Rightarrow> bucket_block list" where
  "allBlocks s \<equiv> concat (bsBlocks s)"

definition covering :: "bucket_block \<Rightarrow> int \<Rightarrow> bool" where
  "covering b t \<longleftrightarrow> minTime (bbMeta b) \<le> t \<and> t < maxTime (bbMeta b)"

definition inRange :: "int \<Rightarrow> int \<Rightarrow> bucket_block \<Rightarrow> bool" where
  "inRange mint maxt b \<longleftrightarrow> mint < maxTime (bbMeta b) \<and> minTime (bbMeta b) \<le> maxt"

abbreviation blockResolution :: "bucket_block \<Rightarrow> int" where
  "blockResolution b \<equiv> resolution (thanos (bbMeta b))"

abbreviation blockId :: "bucket_block \<Rightarrow> ulid" where
  "blockId b \<equiv> metaULID (bbMeta b)"

abbreviation blockLabels :: "bucket_block \<Rightarrow> labels" where
  "blockLabels b \<equiv> labels_from_map (extLabels (thanos (bbMeta b)))"

definition levelOk :: "labels \<Rightarrow> int \<Rightarrow> bucket_block list \<Rightarrow> bool" where
  "levelOk lset r bs \<longleftrightarrow> sorted_wrt (\<lambda>a b. \<not> blockLess b a) bs
     \<and> (\<forall>b \<in> set bs. blockResolution b = r \<and> blockLabels b = lset)"

text \<open>The well-formed sets: the fixed resolutions, sorted levels, no block twice.\<close>

definition wfSet :: "bucket_block_set \<Rightarrow> bool" where
  "wfSet s \<longleftrightarrow> bsResolutions s = [ResLevel2, ResLevel1, ResLevel0]
     \<and> list_all2 (levelOk (bsLabels s)) (bsResolutions s) (bsBlocks s)
     \<and> distinct (map blockId (allBlocks s))"

interpretation by_time: slice_order blockLess
  by unfold_locales (auto simp: blockLess_def split: if_splits)

lemma blockLess_min: "\<not> blockLess b a \<Longrightarrow> minTime (bbMeta a) \<le> minTime (bbMeta b)"
  by (simp add: blockLess_def split: if_splits)

text \<open>What the loop promises: \<open>fill\<close> is the result of \<open>sub\<close>.\<close>

definition fillOk ::
  "(int \<Rightarrow> int \<Rightarrow> bucket_block list) \<Rightarrow> (bucket_block \<Rightarrow> bool) \<Rightarrow> int \<Rightarrow> int \<Rightarrow> int \<Rightarrow> bucket_block list \<Rightarrow> bucket_block list \<Rightarrow> int \<Rightarrow> bool" where
  "fillOk fill included mint maxt start bs out stop \<longleftrightarrow> mint \<le> stop
    \<and> (\<forall>b \<in> set bs. inRange mint maxt b \<and> included b \<longrightarrow> b \<in> set out)
    \<and> (\<forall>b \<in> set out. b \<in> set bs \<and> inRange mint maxt b \<and> included b \<or> (\<exists>a c. mint \<le> a \<and> c \<le> maxt \<and> b \<in> set (fill a c)))
    \<and> (\<forall>t. start \<le> t \<and> t \<le> maxt \<and> (\<forall>b \<in> set bs. \<not> covering b t) \<longrightarrow>
         stop \<le> t \<or> (\<exists>a c. mint \<le> a \<and> a \<le> t \<and> t \<le> c \<and> c \<le> maxt \<and> set (fill a c) \<subseteq> set out))"

lemma fillOk_skip:
  assumes "fillOk fill included mint maxt start bs out stop" and "\<not> inRange mint maxt b"
  shows "fillOk fill included mint maxt start (b # bs) out stop"
  unfolding fillOk_def
proof (intro conjI)
  show "\<forall>x \<in> set (b # bs). inRange mint maxt x \<and> included x \<longrightarrow> x \<in> set out"
    using assms by (simp add: fillOk_def)
  show "\<forall>x \<in> set out. x \<in> set (b # bs) \<and> inRange mint maxt x \<and> included x \<or> (\<exists>a c. mint \<le> a \<and> c \<le> maxt \<and> x \<in> set (fill a c))"
    using assms(1) unfolding fillOk_def by (meson list.set_intros(2))
qed (use assms(1) in \<open>simp_all add: fillOk_def\<close>)

lemma fillOk_step:
  assumes ok: "fillOk fill included mint maxt (maxTime (bbMeta b)) bs out stop" and "inRange mint maxt b" and "mint \<le> start"
  shows "fillOk fill included mint maxt start (b # bs)
    (fill start (minTime (bbMeta b) - 1) @ (if included b then [b] else []) @ out) stop"
    (is "fillOk _ _ _ _ _ _ ?out _")
  unfolding fillOk_def
proof (intro conjI allI ballI impI)
  show "mint \<le> stop" using ok by (simp add: fillOk_def)
next
  fix x
  assume "x \<in> set (b # bs)" "inRange mint maxt x \<and> included x"
  then show "x \<in> set ?out" using ok by (auto simp: fillOk_def)
next
  fix x
  assume "x \<in> set ?out"
  then consider "x \<in> set (fill start (minTime (bbMeta b) - 1))" | "x = b" "included b" | "x \<in> set out"
    by (auto split: if_splits)
  then show "x \<in> set (b # bs) \<and> inRange mint maxt x \<and> included x \<or> (\<exists>a c. mint \<le> a \<and> c \<le> maxt \<and> x \<in> set (fill a c))"
  proof cases
    case 1
    then show ?thesis using assms(2,3) by (intro disjI2 exI [of _ start] exI [of _ "minTime (bbMeta b) - 1"]) (simp add: inRange_def)
  next
    case 3
    then show ?thesis using ok unfolding fillOk_def by (meson list.set_intros(2))
  qed (use assms(2) in simp)
next
  fix t
  assume t: "start \<le> t \<and> t \<le> maxt \<and> (\<forall>x \<in> set (b # bs). \<not> covering x t)"
  show "stop \<le> t \<or> (\<exists>a c. mint \<le> a \<and> a \<le> t \<and> t \<le> c \<and> c \<le> maxt \<and> set (fill a c) \<subseteq> set ?out)"
  proof (cases "t < minTime (bbMeta b)")
    case True
    then show ?thesis using t assms(2,3)
      by (intro disjI2 exI [of _ start] exI [of _ "minTime (bbMeta b) - 1"]) (simp add: inRange_def)
  next
    case False
    then have "maxTime (bbMeta b) \<le> t" using t by (simp add: covering_def)
    then have "stop \<le> t \<or> (\<exists>a c. mint \<le> a \<and> a \<le> t \<and> t \<le> c \<and> c \<le> maxt \<and> set (fill a c) \<subseteq> set out)"
      using ok t unfolding fillOk_def by simp
    moreover have "set out \<subseteq> set ?out" by auto
    ultimately show ?thesis by (meson order_trans)
  qed
qed

lemma fillLoop_fills:
  assumes "\<And>a c. mint \<le> a \<Longrightarrow> c \<le> maxt \<Longrightarrow> sub a c = Inr (fill a c)"
    and "sorted_wrt (\<lambda>a b. \<not> blockLess b a) bs" and "mint \<le> start"
  shows "\<exists>out stop. fillLoop sub included mint maxt start bs = Inr (out, stop) \<and> fillOk fill included mint maxt start bs out stop"
  using assms(2,3)
proof (induction bs arbitrary: start)
  case (Cons b bs)
  have sorted: "sorted_wrt (\<lambda>a b. \<not> blockLess b a) bs" and first: "\<forall>x \<in> set bs. minTime (bbMeta b) \<le> minTime (bbMeta x)"
    using Cons.prems(1) blockLess_min by (simp, auto)
  consider (before) "maxTime (bbMeta b) \<le> mint" | (after) "mint < maxTime (bbMeta b)" "maxt < minTime (bbMeta b)"
    | (inside) "mint < maxTime (bbMeta b)" "minTime (bbMeta b) \<le> maxt" by linarith
  then show ?case
  proof cases
    case before
    then have "\<not> inRange mint maxt b" by (simp add: inRange_def)
    with Cons.IH [OF sorted Cons.prems(2)] fillOk_skip before show ?thesis by fastforce
  next
    case after
    then have "\<forall>x \<in> set (b # bs). \<not> inRange mint maxt x" using first by (auto simp: inRange_def)
    then have "fillOk fill included mint maxt start (b # bs) [] start" using Cons.prems(2) by (simp add: fillOk_def)
    with after show ?thesis by simp
  next
    case inside
    then have "inRange mint maxt b" by (simp add: inRange_def)
    moreover have "sub start (minTime (bbMeta b) - 1) = Inr (fill start (minTime (bbMeta b) - 1))"
      using assms(1) Cons.prems(2) inside by simp
    moreover obtain out stop where "fillLoop sub included mint maxt (maxTime (bbMeta b)) bs = Inr (out, stop)"
      "fillOk fill included mint maxt (maxTime (bbMeta b)) bs out stop"
      using Cons.IH [OF sorted, of "maxTime (bbMeta b)"] inside by auto
    ultimately show ?thesis using fillOk_step Cons.prems(2) inside by simp
  qed
qed (simp add: fillOk_def)

text \<open>
  What a selection promises: its blocks overlap the range, and every instant is covered by all blocks of the
  coarsest of the levels from \<open>i\<close> on that cover it.
\<close>

definition selectOk ::
  "bucket_block list list \<Rightarrow> (bucket_block \<Rightarrow> bool) \<Rightarrow> nat \<Rightarrow> int \<Rightarrow> int \<Rightarrow> bucket_block list \<Rightarrow> bool" where
  "selectOk lvls included i mint maxt bs \<longleftrightarrow>
     (\<forall>b \<in> set bs. inRange mint maxt b \<and> included b \<and> (\<exists>j. i \<le> j \<and> j < length lvls \<and> b \<in> set (lvls ! j)))
     \<and> (\<forall>t j b. mint \<le> t \<and> t \<le> maxt \<and> i \<le> j \<and> j < length lvls \<and> b \<in> set (lvls ! j) \<and> included b \<and> covering b t
          \<and> (\<forall>j' < j. i \<le> j' \<longrightarrow> (\<forall>b' \<in> set (lvls ! j'). \<not> covering b' t)) \<longrightarrow> b \<in> set bs)"

lemma selectOk_outside: "mint > maxt \<or> i \<ge> length lvls \<Longrightarrow> selectOk lvls included i mint maxt []"
  by (auto simp: selectOk_def)

lemma selectOk_level:
  assumes fill: "\<And>a c. selectOk lvls included (Suc i) a c (fill a c)"
    and loop: "fillOk fill included mint maxt mint (lvls ! i) out stop" and "i < length lvls"
  shows "selectOk lvls included i mint maxt (out @ fill stop maxt)"
proof -
  have stop: "mint \<le> stop" using loop by (simp add: fillOk_def)
  have filled: "inRange mint maxt x \<and> included x \<and> (\<exists>j. i \<le> j \<and> j < length lvls \<and> x \<in> set (lvls ! j))"
    if x: "x \<in> set (fill a c)" "mint \<le> a" "c \<le> maxt" for a c x
  proof -
    have "inRange a c x" "included x" "\<exists>j. Suc i \<le> j \<and> j < length lvls \<and> x \<in> set (lvls ! j)"
      using fill [of a c] x(1) unfolding selectOk_def by blast+
    then show ?thesis using x(2,3) by (auto simp: inRange_def intro: Suc_leD)
  qed
  have "inRange mint maxt x \<and> included x \<and> (\<exists>j. i \<le> j \<and> j < length lvls \<and> x \<in> set (lvls ! j))"
    if "x \<in> set (out @ fill stop maxt)" for x
  proof (cases "x \<in> set out")
    case True
    then consider "x \<in> set (lvls ! i)" "inRange mint maxt x" "included x" | a c where "mint \<le> a" "c \<le> maxt" "x \<in> set (fill a c)"
      using loop unfolding fillOk_def by meson
    then show ?thesis using filled assms(3) by cases blast+
  qed (use that filled stop in auto)
  moreover have "b \<in> set (out @ fill stop maxt)"
    if t: "mint \<le> t" "t \<le> maxt" and b: "i \<le> j" "j < length lvls" "b \<in> set (lvls ! j)" "included b" "covering b t"
      and coarser: "\<forall>j' < j. i \<le> j' \<longrightarrow> (\<forall>b' \<in> set (lvls ! j'). \<not> covering b' t)" for t j b
  proof (cases "j = i")
    case True
    have "inRange mint maxt b" using t b(5) by (simp add: inRange_def covering_def)
    then show ?thesis using loop b(3,4) True unfolding fillOk_def by simp
  next
    case False
    have sub: "b \<in> set (fill a c)" if "a \<le> t" "t \<le> c" for a c
    proof -
      have "\<forall>j' < j. Suc i \<le> j' \<longrightarrow> (\<forall>b' \<in> set (lvls ! j'). \<not> covering b' t)" using coarser by simp
      moreover have "Suc i \<le> j" using False b(1) by simp
      ultimately show ?thesis using fill [of a c] that b unfolding selectOk_def by blast
    qed
    have "\<forall>b \<in> set (lvls ! i). \<not> covering b t" using coarser False b(1) le_neq_implies_less by blast
    then have "stop \<le> t \<or> (\<exists>a c. mint \<le> a \<and> a \<le> t \<and> t \<le> c \<and> c \<le> maxt \<and> set (fill a c) \<subseteq> set out)"
      using loop t unfolding fillOk_def by blast
    then show ?thesis using sub t(2) by auto
  qed
  ultimately show ?thesis unfolding selectOk_def by blast
qed

text \<open>The index of the first resolution that a query allows.\<close>

definition levelIndex :: "bucket_block_set \<Rightarrow> int \<Rightarrow> nat" where
  "levelIndex s r = length (takeWhile (\<lambda>x. x > r) (bsResolutions s))"

lemma wfSet_levels:
  assumes "wfSet s"
  shows "length (bsResolutions s) = 3" and "length (bsBlocks s) = 3"
    and "i < 3 \<Longrightarrow> sorted_wrt (\<lambda>a b. \<not> blockLess b a) (bsBlocks s ! i)"
    and "i < 3 \<Longrightarrow> b \<in> set (bsBlocks s ! i) \<Longrightarrow> blockResolution b = bsResolutions s ! i \<and> blockLabels b = bsLabels s"
    and "i < 3 \<Longrightarrow> levelIndex s (bsResolutions s ! i) = i"
proof -
  have res: "bsResolutions s = [ResLevel2, ResLevel1, ResLevel0]" using assms by (simp add: wfSet_def)
  have lvls: "list_all2 (levelOk (bsLabels s)) (bsResolutions s) (bsBlocks s)" using assms unfolding wfSet_def by blast
  show len: "length (bsResolutions s) = 3" by (simp add: res)
  then show "length (bsBlocks s) = 3" using list_all2_lengthD [OF lvls] by simp
  show "sorted_wrt (\<lambda>a b. \<not> blockLess b a) (bsBlocks s ! i)" if "i < 3"
    using list_all2_nthD [OF lvls] that len by (simp add: levelOk_def)
  show "blockResolution b = bsResolutions s ! i \<and> blockLabels b = bsLabels s" if "i < 3" "b \<in> set (bsBlocks s ! i)"
    using list_all2_nthD [OF lvls] that len by (simp add: levelOk_def)
  show "levelIndex s (bsResolutions s ! i) = i" if "i < 3"
  proof -
    have "i = 0 \<or> i = 1 \<or> i = 2" using that by linarith
    then show ?thesis by (auto simp: levelIndex_def res resolution_defs)
  qed
qed

lemma getForRec_select:
  assumes "wfSet s" and "levelIndex s r < 3" and "3 \<le> k + levelIndex s r"
  shows "\<exists>bs. getForRec k s mint maxt r ms = Inr bs
    \<and> selectOk (bsBlocks s) (\<lambda>b. length ms = 0 \<or> matchRelabelLabels ms b) (levelIndex s r) mint maxt bs"
  using assms(2,3)
proof (induction k arbitrary: mint maxt r)
  case (Suc k)
  let ?i = "levelIndex s r" and ?inc = "\<lambda>b. length ms = 0 \<or> matchRelabelLabels ms b"
  define sub where "sub = (\<lambda>a b. if ?i + 1 < length (bsResolutions s) then getForRec k s a b (bsResolutions s ! (?i + 1)) ms else Inr [])"
  define fill where "fill = (\<lambda>a b. projr (sub a b))"
  note lvls = wfSet_levels [OF assms(1)]
  have sub: "sub a c = Inr (fill a c) \<and> selectOk (bsBlocks s) ?inc (Suc ?i) a c (fill a c)" for a c
  proof (cases "?i + 1 < 3")
    case True
    with Suc.IH [of "bsResolutions s ! (?i + 1)" a c] Suc.prems lvls(1) lvls(5) [of "?i + 1"]
    show ?thesis by (auto simp: sub_def fill_def)
  next
    case False
    then show ?thesis using lvls(1,2) selectOk_outside by (simp add: sub_def fill_def)
  qed
  have step: "getForRec (Suc k) s mint maxt r ms =
      (if mint > maxt then Inr [] else if ?i \<ge> length (bsBlocks s) then Inl IndexPanic
       else case fillLoop sub ?inc mint maxt mint (bsBlocks s ! ?i) of
              Inl e \<Rightarrow> Inl e | Inr (bs, start) \<Rightarrow> map_sum id (\<lambda>xs. bs @ xs) (sub start maxt))"
    unfolding getForRec.simps Let_def sub_def levelIndex_def by (rule refl)
  show ?case
  proof (cases "mint > maxt")
    case True
    then show ?thesis using selectOk_outside by simp
  next
    case False
    obtain out stop where loop: "fillLoop sub ?inc mint maxt mint (bsBlocks s ! ?i) = Inr (out, stop)"
      "fillOk fill ?inc mint maxt mint (bsBlocks s ! ?i) out stop"
      using fillLoop_fills [where sub = sub and fill = fill and bs = "bsBlocks s ! ?i" and start = mint] sub lvls(3) Suc.prems(1) by blast
    have "getForRec (Suc k) s mint maxt r ms = Inr (out @ fill stop maxt)"
      unfolding step using False loop(1) sub Suc.prems(1) lvls(2) by simp
    then show ?thesis using selectOk_level [of "bsBlocks s" ?inc ?i fill] sub loop(2) Suc.prems(1) lvls(2) by simp
  qed
qed simp

lemma wfSet_allowed:
  assumes "wfSet s"
  shows "i < 3 \<Longrightarrow> bsResolutions s ! i \<le> r \<longleftrightarrow> levelIndex s r \<le> i" and "0 \<le> r \<Longrightarrow> levelIndex s r < 3"
    and "i < j \<Longrightarrow> j < 3 \<Longrightarrow> bsResolutions s ! j < bsResolutions s ! i"
proof -
  have res: "bsResolutions s = [ResLevel2, ResLevel1, ResLevel0]" using assms by (simp add: wfSet_def)
  show "bsResolutions s ! i \<le> r \<longleftrightarrow> levelIndex s r \<le> i" if "i < 3"
  proof -
    have "i = 0 \<or> i = 1 \<or> i = 2" using that by linarith
    then show ?thesis by (auto simp: levelIndex_def res resolution_defs)
  qed
  show "levelIndex s r < 3" if "0 \<le> r" using that by (simp add: levelIndex_def res resolution_defs)
  show "bsResolutions s ! j < bsResolutions s ! i" if "i < j" "j < 3"
  proof -
    have "(i = 0 \<and> j = 1) \<or> (i = 0 \<and> j = 2) \<or> (i = 1 \<and> j = 2)" using that by linarith
    then show ?thesis by (auto simp: res resolution_defs)
  qed
qed

lemma set_allBlocks: "wfSet s \<Longrightarrow> b \<in> set (allBlocks s) \<longleftrightarrow> (\<exists>j < 3. b \<in> set (bsBlocks s ! j))"
  using wfSet_levels(2) [of s] by (auto simp: set_conv_nth [of "bsBlocks s"])

text \<open>
  \<^verbatim>\<open>getFor\<close> loses no data: for a well-formed set and a non-negative resolution it returns blocks of the set that
  overlap the range, satisfy the block matchers and are not coarser than allowed, and for every instant of
  the range all blocks of the coarsest allowed resolution that covers it are among them.
\<close>

lemma getFor_covers:
  assumes "wfSet s" and "0 \<le> r"
  shows "\<exists>bs. getFor s mint maxt r ms = Inr bs
    \<and> (\<forall>b \<in> set bs. b \<in> set (allBlocks s) \<and> inRange mint maxt b \<and> blockResolution b \<le> r \<and> (ms = [] \<or> matchRelabelLabels ms b))
    \<and> (\<forall>t b. mint \<le> t \<and> t \<le> maxt \<and> b \<in> set (allBlocks s) \<and> covering b t \<and> blockResolution b \<le> r
          \<and> (ms = [] \<or> matchRelabelLabels ms b)
          \<and> (\<forall>b' \<in> set (allBlocks s). covering b' t \<and> blockResolution b' \<le> r \<longrightarrow> blockResolution b' \<le> blockResolution b)
          \<longrightarrow> b \<in> set bs)"
proof -
  let ?i = "levelIndex s r"
  note lvls = wfSet_levels [OF assms(1)] and allowed = wfSet_allowed [OF assms(1)] and blocks = set_allBlocks [OF assms(1)]
  have "?i < 3" using allowed(2) assms(2) .
  then obtain bs where bs: "getFor s mint maxt r ms = Inr bs"
    and ok: "selectOk (bsBlocks s) (\<lambda>b. length ms = 0 \<or> matchRelabelLabels ms b) ?i mint maxt bs"
    using getForRec_select [OF assms(1), where k = 4 and r = r and mint = mint and maxt = maxt and ms = ms] lvls(1)
    by (auto simp: getFor_def)
  have "b \<in> set (allBlocks s) \<and> inRange mint maxt b \<and> blockResolution b \<le> r \<and> (ms = [] \<or> matchRelabelLabels ms b)" if b: "b \<in> set bs" for b
  proof -
    obtain j where "?i \<le> j" "j < 3" "b \<in> set (bsBlocks s ! j)" "inRange mint maxt b" "ms = [] \<or> matchRelabelLabels ms b"
      using ok b lvls(2) by (auto simp: selectOk_def)
    then show ?thesis using lvls(4) [of j b] allowed(1) [of j r] blocks by auto
  qed
  moreover have "b \<in> set bs"
    if t: "mint \<le> t" "t \<le> maxt" "b \<in> set (allBlocks s)" "covering b t" "blockResolution b \<le> r" "ms = [] \<or> matchRelabelLabels ms b"
      and coarsest: "\<forall>b' \<in> set (allBlocks s). covering b' t \<and> blockResolution b' \<le> r \<longrightarrow> blockResolution b' \<le> blockResolution b" for t b
  proof -
    obtain j where j: "j < 3" "b \<in> set (bsBlocks s ! j)" using blocks t(3) by blast
    then have res: "blockResolution b = bsResolutions s ! j" using lvls(4) by simp
    then have "?i \<le> j" using allowed(1) [OF j(1)] t(5) by simp
    moreover have "\<not> covering b' t" if "j' < j" "?i \<le> j'" "b' \<in> set (bsBlocks s ! j')" for j' b'
      using coarsest that j(1) res lvls(4) [of j' b'] allowed(1) [of j' r] allowed(3) [of j' j] blocks
      by (metis less_trans not_less)
    ultimately show ?thesis
      using ok t(1,2,4,6) j lvls(2) unfolding selectOk_def length_0_conv by metis
  qed
  ultimately show ?thesis using bs by blast
qed

text \<open>A negative resolution, which a request may contain, runs past the levels of the set.\<close>

lemma getFor_negative_panics:
  assumes "wfSet s" and "r < 0" and "mint \<le> maxt"
  shows "getFor s mint maxt r ms = Inl IndexPanic"
proof -
  have "bsResolutions s = [ResLevel2, ResLevel1, ResLevel0]" using assms(1) by (simp add: wfSet_def)
  then have "length (takeWhile (\<lambda>x. x > r) (bsResolutions s)) = 3" using assms(2) by (simp add: resolution_defs)
  then show ?thesis using wfSet_levels(2) [OF assms(1)] assms(3) by (simp add: getFor_def)
qed

definition sampleBlock :: "ulid \<Rightarrow> int \<Rightarrow> int \<Rightarrow> int \<Rightarrow> bucket_block" where
  "sampleBlock i r a b = \<lparr>bbMeta = (rawBlock i a b)\<lparr>thanos := (thanos (rawBlock i a b))\<lparr>resolution := r\<rparr>\<rparr>,
     bbExtLset = [(''cluster'', ''a'')], bbRelabelLabels = [(''cluster'', ''a'')], bbChunkObjs = []\<rparr>"

definition sampleSet :: bucket_block_set where
  "sampleSet = \<lparr>bsLabels = [(''cluster'', ''a'')], bsResolutions = [ResLevel2, ResLevel1, ResLevel0],
     bsBlocks = [[], [sampleBlock 1 ResLevel1 0 100, sampleBlock 2 ResLevel1 10 20, sampleBlock 3 ResLevel1 30 40],
                 [sampleBlock 4 0 15 120]]\<rparr>"

lemma sampleSet_wf: "wfSet sampleSet"
  by (simp add: wfSet_def sampleSet_def levelOk_def blockLess_def sampleBlock_def rawBlock_def labels_from_map_def sort_slice_def resolution_defs)

text \<open>
  The start of a gap is the end of the last block, not the latest end so far: block 4 is selected twice, for the
  gap between blocks 2 and 3, although block 1 covers it, and for the gap after block 3.
\<close>

lemma getFor_duplicates: "map_sum id (map blockId) (getFor sampleSet 0 119 ResLevel1 []) = Inr [1, 2, 4, 3, 4]"
  by code_simp

lemma getFor_sample:
  "\<exists>bs. getFor sampleSet 0 119 ResLevel1 [] = Inr bs \<and> set (map blockId bs) = {1, 2, 3, 4}
     \<and> sampleBlock 4 0 15 120 \<in> set bs \<and> covering (sampleBlock 4 0 15 120) 110"
proof -
  have "(0 :: int) \<le> ResLevel1" by (simp add: ResLevel1_def)
  from getFor_covers [OF sampleSet_wf this, of 0 119 "[]"] obtain bs where
    bs: "getFor sampleSet 0 119 ResLevel1 [] = Inr bs"
    and all: "\<forall>t b. 0 \<le> t \<and> t \<le> 119 \<and> b \<in> set (allBlocks sampleSet) \<and> covering b t \<and> blockResolution b \<le> ResLevel1
      \<and> (([] :: matcher list) = [] \<or> matchRelabelLabels [] b)
      \<and> (\<forall>b' \<in> set (allBlocks sampleSet). covering b' t \<and> blockResolution b' \<le> ResLevel1 \<longrightarrow> blockResolution b' \<le> blockResolution b)
      \<longrightarrow> b \<in> set bs" by (elim exE conjE) (rule that)
  have "sampleBlock 4 0 15 120 \<in> set bs"
    by (rule all [rule_format, of 110]) (auto simp: sampleSet_def covering_def sampleBlock_def rawBlock_def ResLevel1_def)
  moreover have "map blockId bs = [1, 2, 4, 3, 4]" using getFor_duplicates bs by simp
  ultimately show ?thesis using bs by (auto simp: covering_def sampleBlock_def rawBlock_def)
qed

text \<open>
  The matchers of a query split into those that the external labels of the set decide and those that remain for
  its series, which carry the external labels in addition to their own.
\<close>

lemma labelMatchers_split:
  assumes "'''' \<notin> snd ` set (bsLabels s)"
  shows "case labelMatchers s ms of
      None \<Rightarrow> \<not> matchesAll ms (bsLabels s @ ls)
    | Some res \<Rightarrow> matchesAll ms (bsLabels s @ ls) \<longleftrightarrow> matchesAll res ls"
proof (induction ms)
  case (Cons m ms)
  have lv: "labelValue (bsLabels s @ ls) n = (if labelValue (bsLabels s) n = '''' then labelValue ls n else labelValue (bsLabels s) n)" for n
  proof (cases "map_of (bsLabels s) n")
    case (Some v)
    then have "v \<noteq> ''''" using assms map_of_SomeD [OF Some] by force
    with Some show ?thesis by (simp add: labelValue_def map_add_def)
  qed (simp add: labelValue_def map_add_def split: option.splits)
  from Cons show ?case
    by (cases "labelMatchers s ms") (auto simp: matchesAll_def Let_def lv)
qed (simp add: matchesAll_def)

end
