(* ===== verification/Bucket_Store.thy ===== *)
theory Bucket_Store
  imports Bucket_Blocks
begin

text \<open>
  Which blocks the store gateway holds (\<^verbatim>\<open>BucketStore\<close> of \<^verbatim>\<open>pkg/store/bucket.go\<close>): \<^verbatim>\<open>SyncBlocks\<close> keeps the sets of blocks in step
  with the metadata of the bucket, and a query selects blocks from every set.

  The hash of a label set is library code. Whether the index header of a block can be opened, the listing of
  its chunk files succeeds, or the context was cancelled before the block was loaded is arbitrary. Blocks are
  added under a lock, so that their concurrent loads act one after the other.
\<close>

section \<open>The blocks of the store\<close>

record bucket_store =
  stBlocks :: "(ulid \<times> bucket_block) list"
  stBlockSets :: "(uint64 \<times> bucket_block_set) list"
  stAdvLabelSets :: "labels list"

record store_env =
  seHash :: "labels \<Rightarrow> uint64"
  seOpens :: "ulid \<Rightarrow> bool"
  seChunkFiles :: "ulid \<Rightarrow> obj_name list option"
  seIdString :: "ulid \<Rightarrow> string"
  seCancelled :: "ulid \<Rightarrow> bool"

definition newBucketBlock :: "store_env \<Rightarrow> meta \<Rightarrow> bucket_block option" where
  "newBucketBlock env m =
     (let b = \<lparr>bbMeta = m, bbExtLset = labels_from_map (extLabels (thanos m)),
               bbRelabelLabels = sort_slice (\<lambda>a b. fst a < fst b)
                 (labels_from_map (extLabels (thanos m)) @ [(''__block_id'', seIdString env (metaULID m))]),
               bbChunkObjs = []\<rparr>
      in if length (segmentFiles (thanos m)) > 0
         then Some (b\<lparr>bbChunkObjs := map (chunkName (metaULID m)) (segmentFiles (thanos m))\<rparr>)
         else map_option (\<lambda>ns. b\<lparr>bbChunkObjs := ns\<rparr>) (seChunkFiles env (metaULID m)))"

definition addBlock :: "store_env \<Rightarrow> meta \<Rightarrow> bucket_store \<Rightarrow> set_error option \<times> bucket_store" where
  "addBlock env m st =
     (let lset = labels_from_map (extLabels (thanos m)); h = seHash env lset
      in if \<not> seOpens env (metaULID m) then (Some OpenFailed, st)
         else case newBucketBlock env m of
           None \<Rightarrow> (Some ListFailed, st)
         | Some b \<Rightarrow>
             let s = (case map_of (stBlockSets st) h of Some s \<Rightarrow> s | None \<Rightarrow> newBucketBlockSet lset);
                 st = st\<lparr>stBlockSets := AList.update h s (stBlockSets st)\<rparr>
             in case addToSet s b of
                  Inl e \<Rightarrow> (Some e, st)
                | Inr s \<Rightarrow>
                    (None, st\<lparr>stBlockSets := AList.update h s (stBlockSets st),
                              stBlocks := AList.update (metaULID (bbMeta b)) b (stBlocks st)\<rparr>))"

text \<open>A nil set would be dereferenced: \<open>None\<close>. The errors of closing a block and removing its directory come later.\<close>

definition removeBlock :: "store_env \<Rightarrow> ulid \<Rightarrow> bucket_store \<Rightarrow> bucket_store option" where
  "removeBlock env i st =
     (case map_of (stBlocks st) i of
        None \<Rightarrow> Some st
      | Some b \<Rightarrow>
          let h = seHash env (labels_from_map (extLabels (thanos (bbMeta b))))
          in case map_of (stBlockSets st) h of
               None \<Rightarrow> None
             | Some s \<Rightarrow> Some (st\<lparr>stBlockSets := AList.update h (removeFromSet i s) (stBlockSets st),
                                 stBlocks := AList.delete i (stBlocks st)\<rparr>))"

definition loadBlock :: "store_env \<Rightarrow> ulid \<times> meta \<Rightarrow> bucket_store \<Rightarrow> bucket_store" where
  "loadBlock env = (\<lambda>(i, m) st.
     if map_of (stBlocks st) i \<noteq> None \<or> seCancelled env i then st else snd (addBlock env m st))"

fun dropLoop :: "store_env \<Rightarrow> meta_map \<Rightarrow> ulid list \<Rightarrow> bucket_store \<Rightarrow> bucket_store option" where
  "dropLoop env ms [] st = Some st"
| "dropLoop env ms (i # is) st =
     (if map_of ms i \<noteq> None then dropLoop env ms is st
      else case removeBlock env i st of None \<Rightarrow> None | Some st \<Rightarrow> dropLoop env ms is st)"

text \<open>
  \<open>res\<close> is what the metadata fetcher returned: the metas are nil after a fatal error, and a partial view comes with
  an error. The advertised label sets are kept in the order of the sets; the code sorts them by their text.
\<close>

definition SyncBlocks ::
  "store_env \<Rightarrow> meta_map \<times> (ulid \<times> meta_error) list \<times> Meta_Fetcher.fetch_error option \<Rightarrow> bucket_store
     \<Rightarrow> (Meta_Fetcher.fetch_error option \<times> bucket_store) option" where
  "SyncBlocks env res st =
     (case res of (ms, _, err) \<Rightarrow>
       if err \<noteq> None \<and> (case err of Some (IncompleteView _) \<Rightarrow> False | _ \<Rightarrow> True) then Some (err, st)
       else
         let st = fold (loadBlock env) ms st
         in if err \<noteq> None then Some (err, st)
            else map_option (\<lambda>st. (None, st\<lparr>stAdvLabelSets := map (bsLabels \<circ> snd) (stBlockSets st)\<rparr>))
                   (dropLoop env ms (map fst (stBlocks st)) st))"

text \<open>The loop of \<^verbatim>\<open>Series\<close> over the sets: the remaining matchers and the blocks to read for each set.\<close>

fun queryLoop ::
  "matcher list \<Rightarrow> int \<Rightarrow> int \<Rightarrow> int \<Rightarrow> matcher list \<Rightarrow> (uint64 \<times> bucket_block_set) list \<Rightarrow> get_panic + (matcher list \<times> bucket_block) list" where
  "queryLoop ms mint maxt r blockMatchers [] = Inr []"
| "queryLoop ms mint maxt r blockMatchers ((h, s) # sets) =
     (case labelMatchers s ms of
        None \<Rightarrow> queryLoop ms mint maxt r blockMatchers sets
      | Some res \<Rightarrow>
          (case getFor s mint maxt r blockMatchers of
             Inl e \<Rightarrow> Inl e
           | Inr bs \<Rightarrow> map_sum id (\<lambda>xs. map (Pair res) bs @ xs) (queryLoop ms mint maxt r blockMatchers sets)))"

definition limitMinTime :: "(int \<times> int) option \<Rightarrow> int \<Rightarrow> int" where
  "limitMinTime filterConfig mint =
     (case filterConfig of None \<Rightarrow> mint | Some (filterMinTime, _) \<Rightarrow> if mint < filterMinTime then filterMinTime else mint)"

definition limitMaxTime :: "(int \<times> int) option \<Rightarrow> int \<Rightarrow> int" where
  "limitMaxTime filterConfig maxt =
     (case filterConfig of None \<Rightarrow> maxt | Some (_, filterMaxTime) \<Rightarrow> if maxt > filterMaxTime then filterMaxTime else maxt)"

definition TimeRange :: "(int \<times> int) option \<Rightarrow> bucket_store \<Rightarrow> int \<times> int" where
  "TimeRange filterConfig st =
     (let (mint, maxt) = fold (\<lambda>(_, b) (mint, maxt).
            (if minTime (bbMeta b) < mint then minTime (bbMeta b) else mint,
             if maxTime (bbMeta b) > maxt then maxTime (bbMeta b) else maxt)) (stBlocks st) (2 ^ 63 - 1, - (2 ^ 63))
      in (limitMinTime filterConfig mint, limitMaxTime filterConfig maxt))"

text \<open>The store is consistent: every block is in the set of its labels and every block of a set is known.\<close>

definition storeInv :: "(labels \<Rightarrow> uint64) \<Rightarrow> bucket_store \<Rightarrow> bool" where
  "storeInv hash st \<longleftrightarrow> distinct (map fst (stBlocks st)) \<and> distinct (map fst (stBlockSets st))
     \<and> (\<forall>i b. map_of (stBlocks st) i = Some b \<longrightarrow> blockId b = i
          \<and> (\<exists>s. map_of (stBlockSets st) (hash (blockLabels b)) = Some s \<and> b \<in> set (allBlocks s)))
     \<and> (\<forall>h s. map_of (stBlockSets st) h = Some s \<longrightarrow> wfSet s \<and> hash (bsLabels s) = h
          \<and> (\<forall>b \<in> set (allBlocks s). map_of (stBlocks st) (blockId b) = Some b))"

lemma newBucketBlockSet_wf: "wfSet (newBucketBlockSet lset)"
  by (simp add: wfSet_def newBucketBlockSet_def levelOk_def numeral_3_eq_3)

lemma int64index_nth: "int64index vs x = Some i \<Longrightarrow> i < length vs \<and> vs ! i = x"
  by (induction vs arbitrary: i) (auto split: if_splits)

lemma allBlocks_update:
  assumes "i < length bss"
  shows "mset (concat (bss[i := sort_slice lt (bss ! i @ [b])])) = add_mset b (mset (concat bss))"
  using assms
proof (induction bss arbitrary: i)
  case (Cons bs bss)
  then show ?case by (cases i) auto
qed simp

lemma addToSet_wf:
  assumes "addToSet s b = Inr s'" and "wfSet s" and "blockId b \<notin> blockId ` set (allBlocks s)"
  shows "wfSet s' \<and> bsLabels s' = bsLabels s \<and> blockLabels b = bsLabels s \<and> set (allBlocks s') = insert b (set (allBlocks s))"
proof -
  obtain i where i: "int64index (bsResolutions s) (blockResolution b) = Some i" and lset: "bsLabels s = blockLabels b"
    and s': "s' = s\<lparr>bsBlocks := (bsBlocks s)[i := sort_slice blockLess (bsBlocks s ! i @ [b])]\<rparr>"
    using assms(1) by (auto simp: addToSet_def split: if_splits option.splits)
  note idx = int64index_nth [OF i]
  have len: "i < length (bsBlocks s)" using idx wfSet_levels(1,2) [OF assms(2)] by simp
  have blocks: "mset (allBlocks s') = add_mset b (mset (allBlocks s))" using allBlocks_update [OF len] by (simp add: s')
  have "levelOk (bsLabels s) (bsResolutions s ! i) (sort_slice blockLess (bsBlocks s ! i @ [b]))"
    using wfSet_levels(4) [OF assms(2), of i] by_time.sorted_sort_slice idx wfSet_levels(1) [OF assms(2)] lset by (auto simp: levelOk_def)
  then have "list_all2 (levelOk (bsLabels s)) (bsResolutions s) (bsBlocks s')"
    using assms(2) idx list_all2_update_cong [of "levelOk (bsLabels s)" "bsResolutions s" "bsBlocks s" "bsResolutions s ! i" _ i]
    unfolding s' wfSet_def by (metis bucket_block_set.select_convs(3) bucket_block_set.update_convs(3) bucket_block_set.surjective list_update_id)
  moreover have "distinct (map blockId (allBlocks s'))"
  proof -
    have "mset (map blockId (allBlocks s')) = mset (blockId b # map blockId (allBlocks s))"
      using blocks by (metis list.simps(9) mset.simps(2) mset_map)
    from mset_eq_imp_distinct_iff [OF this] show ?thesis using assms(2,3) by (simp add: wfSet_def)
  qed
  ultimately have "wfSet s'" using assms(2) by (simp add: wfSet_def s')
  moreover have "set (allBlocks s') = insert b (set (allBlocks s))" using blocks by (metis mset_eq_setD list.simps(15) mset.simps(2))
  ultimately show ?thesis using lset s' by simp
qed

lemma filter_absent: "i \<notin> blockId ` set bs \<Longrightarrow> filter (\<lambda>b. blockId b \<noteq> i) bs = bs"
  by (auto simp: filter_id_conv)

lemma dropFirst_filter:
  "distinct (map blockId bs) \<Longrightarrow>
     (case dropFirst i bs of None \<Rightarrow> i \<notin> blockId ` set bs | Some bs' \<Rightarrow> i \<in> blockId ` set bs \<and> bs' = filter (\<lambda>b. blockId b \<noteq> i) bs)"
proof (induction bs)
  case (Cons b bs)
  then show ?case
    by (cases "dropFirst i bs") (auto simp: filter_absent)
qed simp

lemma removeLoop_filter:
  "distinct (map blockId (concat bss)) \<Longrightarrow> removeLoop i bss = map (filter (\<lambda>b. blockId b \<noteq> i)) bss"
proof (induction bss)
  case (Cons bs bss)
  have d: "distinct (map blockId bs)" "distinct (map blockId (concat bss))" "blockId ` set bs \<inter> blockId ` set (concat bss) = {}"
    using Cons.prems by auto
  show ?case
  proof (cases "dropFirst i bs")
    case None
    then show ?thesis using dropFirst_filter [OF d(1), of i] Cons.IH [OF d(2)] filter_absent [of i bs] by simp
  next
    case (Some bs')
    then have "i \<in> blockId ` set bs" "bs' = filter (\<lambda>b. blockId b \<noteq> i) bs" using dropFirst_filter [OF d(1), of i] by simp_all
    moreover have "map (filter (\<lambda>b. blockId b \<noteq> i)) bss = bss"
    proof (rule map_idI)
      fix x
      assume "x \<in> set bss"
      then have "i \<notin> blockId ` set x" using d(3) calculation(1) by fastforce
      then show "filter (\<lambda>b. blockId b \<noteq> i) x = x" by (rule filter_absent)
    qed
    ultimately show ?thesis using Some by simp
  qed
qed simp

lemma removeFromSet_wf:
  assumes "wfSet s"
  shows "wfSet (removeFromSet i s) \<and> bsLabels (removeFromSet i s) = bsLabels s
    \<and> set (allBlocks (removeFromSet i s)) = {b \<in> set (allBlocks s). blockId b \<noteq> i}"
proof -
  have d: "distinct (map blockId (allBlocks s))" using assms by (simp add: wfSet_def)
  note loop = removeLoop_filter [OF d, of i]
  have lvls: "list_all2 (levelOk (bsLabels s)) (bsResolutions s) (bsBlocks s)" using assms unfolding wfSet_def by blast
  have "list_all2 (levelOk (bsLabels s)) (bsResolutions s) (map (filter (\<lambda>b. blockId b \<noteq> i)) (bsBlocks s))"
    unfolding list_all2_map2 by (rule list_all2_mono [OF lvls]) (simp add: levelOk_def sorted_wrt_filter)
  moreover have "distinct (map blockId (concat (map (filter (\<lambda>b. blockId b \<noteq> i)) (bsBlocks s))))"
    using d by (simp add: filter_concat [symmetric] distinct_map_filter)
  ultimately show ?thesis using assms by (auto simp: wfSet_def removeFromSet_def loop)
qed

lemma storeInvD:
  assumes "storeInv hash st"
  shows "distinct (map fst (stBlocks st))" and "distinct (map fst (stBlockSets st))"
    and "map_of (stBlocks st) i = Some b \<Longrightarrow> blockId b = i"
    and "map_of (stBlocks st) i = Some b \<Longrightarrow> \<exists>s. map_of (stBlockSets st) (hash (blockLabels b)) = Some s \<and> b \<in> set (allBlocks s)"
    and "map_of (stBlockSets st) h = Some s \<Longrightarrow> wfSet s" and "map_of (stBlockSets st) h = Some s \<Longrightarrow> hash (bsLabels s) = h"
    and "map_of (stBlockSets st) h = Some s \<Longrightarrow> b \<in> set (allBlocks s) \<Longrightarrow> map_of (stBlocks st) (blockId b) = Some b"
  using assms unfolding storeInv_def by blast+

text \<open>The set a block goes to.\<close>

abbreviation setFor :: "store_env \<Rightarrow> meta \<Rightarrow> bucket_store \<Rightarrow> bucket_block_set" where
  "setFor env m st \<equiv> (case map_of (stBlockSets st) (seHash env (labels_from_map (extLabels (thanos m)))) of
     Some s \<Rightarrow> s | None \<Rightarrow> newBucketBlockSet (labels_from_map (extLabels (thanos m))))"

lemma setFor_wf:
  assumes "storeInv (seHash env) st"
  shows "wfSet (setFor env m st)" and "seHash env (bsLabels (setFor env m st)) = seHash env (labels_from_map (extLabels (thanos m)))"
    and "b \<in> set (allBlocks (setFor env m st)) \<Longrightarrow> map_of (stBlocks st) (blockId b) = Some b"
  using storeInvD [OF assms] newBucketBlockSet_wf by (auto simp: newBucketBlockSet_def split: option.splits)

lemma storeInv_put:
  assumes inv: "storeInv hash st" and s: "wfSet s" "hash (bsLabels s) = h"
    and bl: "distinct (map fst bl)" "\<And>i b. map_of bl i = Some b \<Longrightarrow> blockId b = i"
    and own: "\<And>b. b \<in> set (allBlocks s) \<Longrightarrow> map_of bl (blockId b) = Some b"
    and known: "\<And>i b. map_of bl i = Some b \<Longrightarrow> hash (blockLabels b) = h \<Longrightarrow> b \<in> set (allBlocks s)"
    and others: "\<And>i b. hash (blockLabels b) \<noteq> h \<Longrightarrow> map_of bl i = Some b \<longleftrightarrow> map_of (stBlocks st) i = Some b"
  shows "storeInv hash (st\<lparr>stBlockSets := AList.update h s (stBlockSets st), stBlocks := bl\<rparr>)"
proof -
  note D = storeInvD [OF inv]
  let ?sets = "(map_of (stBlockSets st))(h \<mapsto> s)"
  have "\<exists>s'. ?sets (hash (blockLabels b)) = Some s' \<and> b \<in> set (allBlocks s')" if b: "map_of bl i = Some b" for i b
  proof (cases "hash (blockLabels b) = h")
    case True
    then show ?thesis using known [OF b] by simp
  next
    case False
    then show ?thesis using D(4) [of i b] others b by simp
  qed
  moreover have "wfSet s' \<and> hash (bsLabels s') = h' \<and> (\<forall>b \<in> set (allBlocks s'). map_of bl (blockId b) = Some b)"
    if s': "?sets h' = Some s'" for h' s'
  proof (cases "h' = h")
    case True
    then show ?thesis using s own that by auto
  next
    case False
    then have old: "map_of (stBlockSets st) h' = Some s'" using s' by simp
    have "map_of bl (blockId b) = Some b" if b: "b \<in> set (allBlocks s')" for b
    proof -
      have "blockLabels b = bsLabels s'" using set_allBlocks [OF D(5) [OF old]] b wfSet_levels(4) [OF D(5) [OF old]] by blast
      then have "hash (blockLabels b) \<noteq> h" using D(6) [OF old] False by simp
      then show ?thesis using others D(7) [OF old b] by blast
    qed
    then show ?thesis using D(5,6) [OF old] by blast
  qed
  moreover have "map_of (AList.update h s (stBlockSets st)) = ?sets" by (rule update_conv')
  moreover have "distinct (map fst (AList.update h s (stBlockSets st)))" using D(2) by (rule distinct_update)
  moreover have "stBlocks (st\<lparr>stBlockSets := AList.update h s (stBlockSets st), stBlocks := bl\<rparr>) = bl"
    "stBlockSets (st\<lparr>stBlockSets := AList.update h s (stBlockSets st), stBlocks := bl\<rparr>) = AList.update h s (stBlockSets st)" by simp_all
  ultimately show ?thesis using bl unfolding storeInv_def by presburger
qed

lemma storeInv_blockLabels:
  "storeInv hash st \<Longrightarrow> map_of (stBlockSets st) h = Some s \<Longrightarrow> map_of (stBlocks st) i = Some b \<Longrightarrow>
     hash (blockLabels b) = h \<Longrightarrow> b \<in> set (allBlocks s)"
  using storeInvD(4) by fastforce

lemma setFor_known:
  assumes "storeInv (seHash env) st" and "map_of (stBlocks st) i = Some b"
    and "seHash env (blockLabels b) = seHash env (labels_from_map (extLabels (thanos m)))"
  shows "b \<in> set (allBlocks (setFor env m st))"
  using storeInvD(4) [OF assms(1,2)] assms(3) by auto

lemma addBlock_cases:
  assumes "addBlock env m st = (e, st')"
  shows "st' = st \<and> e \<noteq> None
    \<or> st' = st\<lparr>stBlockSets := AList.update (seHash env (labels_from_map (extLabels (thanos m)))) (setFor env m st) (stBlockSets st)\<rparr> \<and> e \<noteq> None
    \<or> (\<exists>b s'. newBucketBlock env m = Some b \<and> addToSet (setFor env m st) b = Inr s' \<and> e = None
        \<and> st' = st\<lparr>stBlockSets := AList.update (seHash env (labels_from_map (extLabels (thanos m)))) s'
               (AList.update (seHash env (labels_from_map (extLabels (thanos m)))) (setFor env m st) (stBlockSets st)),
             stBlocks := AList.update (metaULID (bbMeta b)) b (stBlocks st)\<rparr>)"
proof (cases "seOpens env (metaULID m)")
  case True
  show ?thesis
  proof (cases "newBucketBlock env m")
    case (Some b)
    show ?thesis
    proof (cases "addToSet (setFor env m st) b")
      case (Inl x)
      with assms True Some have "st' = st\<lparr>stBlockSets := AList.update (seHash env (labels_from_map (extLabels (thanos m)))) (setFor env m st) (stBlockSets st)\<rparr>"
        and "e = Some x" unfolding addBlock_def Let_def by simp_all
      then show ?thesis by simp
    next
      case (Inr s')
      with assms True Some have "st' = st\<lparr>stBlockSets := AList.update (seHash env (labels_from_map (extLabels (thanos m)))) s'
             (AList.update (seHash env (labels_from_map (extLabels (thanos m)))) (setFor env m st) (stBlockSets st)),
           stBlocks := AList.update (metaULID (bbMeta b)) b (stBlocks st)\<rparr>"
        and "e = None" unfolding addBlock_def Let_def by simp_all
      then show ?thesis using Some Inr by blast
    qed
  qed (use assms True in \<open>auto simp: addBlock_def Let_def\<close>)
qed (use assms in \<open>auto simp: addBlock_def Let_def\<close>)

text \<open>What adding a block does: nothing to the blocks if it fails, one more block otherwise.\<close>

lemma addBlock_inv:
  assumes inv: "storeInv (seHash env) st" and new: "map_of (stBlocks st) (metaULID m) = None" and add: "addBlock env m st = (e, st')"
  shows "storeInv (seHash env) st' \<and> map_of (stBlocks st')
      = (if e = None then (map_of (stBlocks st))(metaULID m := newBucketBlock env m) else map_of (stBlocks st))"
proof -
  let ?h = "seHash env (labels_from_map (extLabels (thanos m)))" and ?s = "setFor env m st"
  note W = setFor_wf [OF inv, where m = m] and D = storeInvD [OF inv]
  have touch: "storeInv (seHash env) (st\<lparr>stBlockSets := AList.update ?h ?s (stBlockSets st), stBlocks := stBlocks st\<rparr>)"
    by (rule storeInv_put [OF inv W(1,2) D(1,3) W(3) setFor_known [OF inv] refl])
  consider (unloaded) "st' = st" "e \<noteq> None"
    | (failed) "st' = st\<lparr>stBlockSets := AList.update ?h ?s (stBlockSets st)\<rparr>" "e \<noteq> None"
    | (added) b s' where "newBucketBlock env m = Some b" "addToSet ?s b = Inr s'" "e = None"
        "st' = st\<lparr>stBlockSets := AList.update ?h s' (AList.update ?h ?s (stBlockSets st)), stBlocks := AList.update (metaULID (bbMeta b)) b (stBlocks st)\<rparr>"
    using addBlock_cases [OF add] by blast
  then show ?thesis
  proof cases
    case unloaded
    then show ?thesis using inv by auto
  next
    case failed
    then show ?thesis using touch by auto
  next
    case added
    have m: "bbMeta b = m" using added(1) by (auto simp: newBucketBlock_def Let_def split: if_splits)
    have fresh: "blockId b \<notin> blockId ` set (allBlocks ?s)"
    proof
      assume "blockId b \<in> blockId ` set (allBlocks ?s)"
      then obtain x where "blockId b = blockId x" "x \<in> set (allBlocks ?s)" by (rule imageE)
      then show False using W(3) [OF \<open>x \<in> set (allBlocks ?s)\<close>] new m by simp
    qed
    note s' = addToSet_wf [OF added(2) W(1) fresh]
    have blocks: "set (allBlocks s') = insert b (set (allBlocks ?s))" using s' by blast
    have lset: "blockLabels b = bsLabels ?s" "bsLabels s' = bsLabels ?s" using s' by blast+
    let ?bl = "AList.update (metaULID m) b (stBlocks st)"
    define st1 where "st1 = st\<lparr>stBlockSets := AList.update ?h ?s (stBlockSets st), stBlocks := stBlocks st\<rparr>"
    have st1: "stBlocks st1 = stBlocks st" "st' = st1\<lparr>stBlockSets := AList.update ?h s' (stBlockSets st1), stBlocks := ?bl\<rparr>"
      using added(4) m by (simp_all add: st1_def)
    have "storeInv (seHash env) (st1\<lparr>stBlockSets := AList.update ?h s' (stBlockSets st1), stBlocks := ?bl\<rparr>)"
    proof (rule storeInv_put)
      show "storeInv (seHash env) st1" unfolding st1_def by (rule touch)
      show "wfSet s'" "seHash env (bsLabels s') = ?h" using s' W(2) lset by simp_all
      show "distinct (map fst ?bl)" using D(1) by (rule distinct_update)
      show "blockId x = i" if "map_of ?bl i = Some x" for i x
        using that m D(3) [of i x] by (simp add: update_conv' split: if_splits)
      show "map_of ?bl (blockId x) = Some x" if "x \<in> set (allBlocks s')" for x
      proof (cases "x = b")
        case False
        with that have "x \<in> set (allBlocks ?s)" unfolding blocks by blast
        from W(3) [OF this] show ?thesis using new by (auto simp: update_conv')
      qed (use m in \<open>simp add: update_conv'\<close>)
      show "x \<in> set (allBlocks s')" if "map_of ?bl i = Some x" "seHash env (blockLabels x) = ?h" for i x
        unfolding blocks using that setFor_known [OF inv, of i x m] unfolding update_conv' fun_upd_apply by (metis insertCI option.inject)
      show "map_of ?bl i = Some x \<longleftrightarrow> map_of (stBlocks st1) i = Some x"
        if "seHash env (blockLabels x) \<noteq> ?h" for i x
        using that lset new m W(2) unfolding st1(1) by (auto simp: update_conv')
    qed
    then show ?thesis using added(1,3) st1 m by (simp add: update_conv')
  qed
qed

lemma removeBlock_inv:
  assumes inv: "storeInv (seHash env) st"
  shows "\<exists>st'. removeBlock env i st = Some st' \<and> storeInv (seHash env) st' \<and> map_of (stBlocks st') = (map_of (stBlocks st))(i := None)"
proof (cases "map_of (stBlocks st) i")
  case None
  then show ?thesis using inv by (auto simp: removeBlock_def fun_upd_idem)
next
  case (Some b)
  let ?h = "seHash env (blockLabels b)" and ?bl = "AList.delete i (stBlocks st)"
  note D = storeInvD [OF inv]
  obtain s where s: "map_of (stBlockSets st) ?h = Some s" using D(4) [OF Some] by blast
  note wf = removeFromSet_wf [OF D(5) [OF s], of i]
  have bl: "map_of ?bl = (map_of (stBlocks st))(i := None)" by (simp add: delete_conv')
  have "storeInv (seHash env) (st\<lparr>stBlockSets := AList.update ?h (removeFromSet i s) (stBlockSets st), stBlocks := ?bl\<rparr>)"
  proof (rule storeInv_put [OF inv])
    show "wfSet (removeFromSet i s)" "seHash env (bsLabels (removeFromSet i s)) = ?h" using wf D(6) [OF s] by simp_all
    show "distinct (map fst ?bl)" using D(1) by (rule distinct_delete)
    show "blockId x = j" if "map_of ?bl j = Some x" for j x
      using that D(3) [of j x] unfolding bl by (simp split: if_splits)
    show "map_of ?bl (blockId x) = Some x" if "x \<in> set (allBlocks (removeFromSet i s))" for x
    proof -
      have "x \<in> set (allBlocks s)" "blockId x \<noteq> i" using that wf by blast+
      then show ?thesis using D(7) [OF s] unfolding bl by simp
    qed
    show "x \<in> set (allBlocks (removeFromSet i s))" if x: "map_of ?bl j = Some x" "seHash env (blockLabels x) = ?h" for j x
    proof -
      have "j \<noteq> i" "map_of (stBlocks st) j = Some x" using x(1) unfolding bl by (simp_all split: if_splits)
      then show ?thesis using storeInv_blockLabels [OF inv s _ x(2)] D(3) [of j x] wf by blast
    qed
    show "map_of ?bl j = Some x \<longleftrightarrow> map_of (stBlocks st) j = Some x" if "seHash env (blockLabels x) \<noteq> ?h" for j x
      using that Some unfolding bl by auto
  qed
  moreover have "removeBlock env i st = Some (st\<lparr>stBlockSets := AList.update ?h (removeFromSet i s) (stBlockSets st), stBlocks := ?bl\<rparr>)"
    using Some s by (simp add: removeBlock_def Let_def)
  ultimately show ?thesis using bl by simp
qed

lemma dropLoop_inv:
  assumes "storeInv (seHash env) st"
  shows "\<exists>st'. dropLoop env ms is st = Some st' \<and> storeInv (seHash env) st'
    \<and> map_of (stBlocks st') = (\<lambda>i. if i \<in> set is \<and> map_of ms i = None then None else map_of (stBlocks st) i)"
  using assms
proof (induction "is" arbitrary: st)
  case (Cons i "is")
  show ?case
  proof (cases "map_of ms i")
    case None
    obtain st1 where st1: "removeBlock env i st = Some st1" "storeInv (seHash env) st1"
      "map_of (stBlocks st1) = (map_of (stBlocks st))(i := None)" using removeBlock_inv [OF Cons.prems] by blast
    from Cons.IH [OF st1(2)] obtain st' where "dropLoop env ms is st1 = Some st'" "storeInv (seHash env) st'"
      "map_of (stBlocks st') = (\<lambda>j. if j \<in> set is \<and> map_of ms j = None then None else map_of (stBlocks st1) j)" by blast
    moreover from this(3) have "map_of (stBlocks st') = (\<lambda>j. if j \<in> set (i # is) \<and> map_of ms j = None then None else map_of (stBlocks st) j)"
      unfolding st1(3) using None by (intro ext) simp
    ultimately show ?thesis using None st1(1) by simp
  next
    case (Some m)
    from Cons.IH [OF Cons.prems] obtain st' where "dropLoop env ms is st = Some st'" "storeInv (seHash env) st'"
      "map_of (stBlocks st') = (\<lambda>j. if j \<in> set is \<and> map_of ms j = None then None else map_of (stBlocks st) j)" by blast
    moreover from this(3) have "map_of (stBlocks st') = (\<lambda>j. if j \<in> set (i # is) \<and> map_of ms j = None then None else map_of (stBlocks st) j)"
      using Some by (intro ext) auto
    ultimately show ?thesis using Some by simp
  qed
qed simp

text \<open>The blocks a synchronisation can load, and the label sets it meets.\<close>

definition loadable :: "store_env \<Rightarrow> meta \<Rightarrow> bool" where
  "loadable env m \<longleftrightarrow> seOpens env (metaULID m) \<and> \<not> seCancelled env (metaULID m)
     \<and> resolution (thanos m) \<in> {ResLevel0, ResLevel1, ResLevel2}"

definition loaded :: "store_env \<Rightarrow> meta \<Rightarrow> bucket_block option" where
  "loaded env m = (if loadable env m then newBucketBlock env m else None)"

definition setLabels :: "bucket_store \<Rightarrow> labels set" where
  "setLabels st = {bsLabels s |h s. map_of (stBlockSets st) h = Some s}"

abbreviation metaLabels :: "meta \<Rightarrow> labels" where
  "metaLabels m \<equiv> labels_from_map (extLabels (thanos m))"

lemma setLabels_update:
  "setLabels (st\<lparr>stBlockSets := AList.update h s (stBlockSets st), stBlocks := bl\<rparr>) \<subseteq> insert (bsLabels s) (setLabels st)"
  by (auto simp: setLabels_def update_conv' split: if_splits)

lemma setFor_labels:
  assumes "storeInv (seHash env) st" and "setLabels st \<subseteq> L" and "metaLabels m \<in> L" and "inj_on (seHash env) L"
  shows "bsLabels (setFor env m st) = metaLabels m"
proof (cases "map_of (stBlockSets st) (seHash env (metaLabels m))")
  case (Some s)
  then have "bsLabels s \<in> L" "seHash env (bsLabels s) = seHash env (metaLabels m)"
    using assms(1,2) storeInvD(6) by (auto simp: setLabels_def)
  then show ?thesis using assms(3,4) Some by (simp add: inj_on_def)
qed (simp add: newBucketBlockSet_def)

lemma addToSet_labels: "addToSet s b = Inr s' \<Longrightarrow> bsLabels s' = bsLabels s"
  by (auto simp: addToSet_def split: if_splits option.splits)

lemma addBlock_labels:
  assumes "addBlock env m st = (e, st')" and "bsLabels (setFor env m st) = metaLabels m"
  shows "setLabels st' \<subseteq> insert (metaLabels m) (setLabels st)"
  using addBlock_cases [OF assms(1)]
proof (elim disjE exE conjE)
  assume "st' = st\<lparr>stBlockSets := AList.update (seHash env (metaLabels m)) (setFor env m st) (stBlockSets st)\<rparr>"
  then show ?thesis using setLabels_update [where st = st and s = "setFor env m st" and bl = "stBlocks st"] assms(2) by simp
next
  fix b s'
  assume s': "addToSet (setFor env m st) b = Inr s'"
    and "st' = st\<lparr>stBlockSets := AList.update (seHash env (metaLabels m)) s' (AList.update (seHash env (metaLabels m)) (setFor env m st) (stBlockSets st)),
      stBlocks := AList.update (metaULID (bbMeta b)) b (stBlocks st)\<rparr>"
  then have "setLabels st' = setLabels (st\<lparr>stBlockSets := AList.update (seHash env (metaLabels m)) s' (stBlockSets st)\<rparr>)"
    by (simp add: setLabels_def update_conv')
  then show ?thesis using setLabels_update [where st = st and s = s' and bl = "stBlocks st"] addToSet_labels [OF s'] assms(2) by simp
qed auto

lemma int64index_levels: "int64index [ResLevel2, ResLevel1, ResLevel0] r = None \<longleftrightarrow> r \<notin> {ResLevel0, ResLevel1, ResLevel2}"
  by auto

lemma addBlock_succeeds:
  assumes "storeInv (seHash env) st" and "bsLabels (setFor env m st) = metaLabels m" and "\<not> seCancelled env (metaULID m)"
  shows "(if fst (addBlock env m st) = None then newBucketBlock env m else None) = loaded env m"
proof (cases "seOpens env (metaULID m) \<and> newBucketBlock env m \<noteq> None")
  case True
  then obtain b where b: "newBucketBlock env m = Some b" by blast
  then have m: "bbMeta b = m" by (auto simp: newBucketBlock_def Let_def split: if_splits)
  have res: "bsResolutions (setFor env m st) = [ResLevel2, ResLevel1, ResLevel0]"
    using setFor_wf(1) [OF assms(1)] unfolding wfSet_def by blast
  have "isl (addToSet (setFor env m st) b) \<longleftrightarrow> resolution (thanos m) \<notin> {ResLevel0, ResLevel1, ResLevel2}"
    unfolding addToSet_def assms(2) res m int64index_levels [symmetric] by (auto split: option.splits)
  moreover have "fst (addBlock env m st) = None \<longleftrightarrow> \<not> isl (addToSet (setFor env m st) b)"
    using True b unfolding addBlock_def Let_def by (cases "addToSet (setFor env m st) b") simp_all
  ultimately show ?thesis using True assms(3) by (simp add: loaded_def loadable_def)
next
  case False
  then show ?thesis by (auto simp: addBlock_def loaded_def loadable_def Let_def)
qed

lemma loadBlock_inv:
  assumes inv: "storeInv (seHash env) st" and own: "metaULID m = i"
  shows "storeInv (seHash env) (loadBlock env (i, m) st)"
proof (cases "map_of (stBlocks st) i \<noteq> None \<or> seCancelled env i")
  case False
  then show ?thesis
    using addBlock_inv [OF inv, of m "fst (addBlock env m st)" "snd (addBlock env m st)"] own by (simp add: loadBlock_def)
qed (use inv in \<open>auto simp: loadBlock_def\<close>)

lemma loadBlock_view:
  assumes inv: "storeInv (seHash env) st" and own: "metaULID m = i"
    and L: "setLabels st \<subseteq> L" "metaLabels m \<in> L" "inj_on (seHash env) L"
  shows "map_of (stBlocks (loadBlock env (i, m) st))
      = (map_of (stBlocks st))(i := (case map_of (stBlocks st) i of Some b \<Rightarrow> Some b | None \<Rightarrow> loaded env m))"
    and "setLabels (loadBlock env (i, m) st) \<subseteq> L"
proof -
  note lset = setFor_labels [OF inv L]
  obtain e st' where add: "addBlock env m st = (e, st')" by fastforce
  have known: "loadBlock env (i, m) st = st" if "map_of (stBlocks st) i \<noteq> None \<or> seCancelled env i"
    using that by (auto simp: loadBlock_def)
  have new: "loadBlock env (i, m) st = st'" if "map_of (stBlocks st) i = None" "\<not> seCancelled env i"
    using that add by (simp add: loadBlock_def)
  show "setLabels (loadBlock env (i, m) st) \<subseteq> L"
    using known new L(1,2) addBlock_labels [OF add lset] by (cases "map_of (stBlocks st) i = None \<and> \<not> seCancelled env i") auto
  show "map_of (stBlocks (loadBlock env (i, m) st))
      = (map_of (stBlocks st))(i := (case map_of (stBlocks st) i of Some b \<Rightarrow> Some b | None \<Rightarrow> loaded env m))"
  proof (cases "map_of (stBlocks st) i")
    case None
    show ?thesis
    proof (cases "seCancelled env i")
      case True
      then show ?thesis using known None own by (simp add: loaded_def loadable_def fun_upd_idem)
    next
      case False
      have "map_of (stBlocks st') = (if e = None then (map_of (stBlocks st))(i := newBucketBlock env m) else map_of (stBlocks st))"
        using addBlock_inv [OF inv _ add] None own by simp
      moreover have "(if e = None then newBucketBlock env m else None) = loaded env m"
        using addBlock_succeeds [OF inv lset] False add own by simp
      ultimately show ?thesis using new None False by (auto simp: fun_upd_idem)
    qed
  qed (use known in \<open>simp add: fun_upd_idem\<close>)
qed

lemma loadBlocks_inv:
  "storeInv (seHash env) st \<Longrightarrow> \<forall>(i, m) \<in> set ms. metaULID m = i \<Longrightarrow> storeInv (seHash env) (fold (loadBlock env) ms st)"
proof (induction ms arbitrary: st)
  case (Cons im ms)
  then show ?case using loadBlock_inv [of env st "snd im" "fst im"] by (cases im) simp
qed simp

lemma loadBlocks_view:
  assumes "storeInv (seHash env) st" and "keyed ms" and "setLabels st \<union> metaLabels ` snd ` set ms \<subseteq> L" and "inj_on (seHash env) L"
  shows "map_of (stBlocks (fold (loadBlock env) ms st)) i
    = (case map_of (stBlocks st) i of Some b \<Rightarrow> Some b | None \<Rightarrow> Option.bind (map_of ms i) (loaded env))"
  using assms(1-3)
proof (induction ms arbitrary: st)
  case (Cons im ms)
  obtain j m where im: "im = (j, m)" by fastforce
  have own: "metaULID m = j" and "keyed ms" and j: "map_of ms j = None"
    using Cons.prems(2) im by (auto simp: keyed_def map_of_eq_None_iff)
  note view = loadBlock_view [OF Cons.prems(1) own _ _ assms(4)]
  have "map_of (stBlocks (fold (loadBlock env) ms (loadBlock env (j, m) st))) i
    = (case map_of (stBlocks (loadBlock env (j, m) st)) i of Some b \<Rightarrow> Some b | None \<Rightarrow> Option.bind (map_of ms i) (loaded env))"
    using Cons.IH [OF loadBlock_inv [OF Cons.prems(1) own] \<open>keyed ms\<close>] view(2) Cons.prems(3) im by simp
  moreover have "map_of (stBlocks (loadBlock env (j, m) st))
      = (map_of (stBlocks st))(j := (case map_of (stBlocks st) j of Some b \<Rightarrow> Some b | None \<Rightarrow> loaded env m))"
    using view(1) Cons.prems(3) im by simp
  ultimately show ?case using j im by (auto split: option.splits)
qed (simp split: option.split)

lemma storeInv_adv: "storeInv hash st \<Longrightarrow> storeInv hash (st\<lparr>stAdvLabelSets := ls\<rparr>)"
proof -
  have "stBlocks (st\<lparr>stAdvLabelSets := ls\<rparr>) = stBlocks st" "stBlockSets (st\<lparr>stAdvLabelSets := ls\<rparr>) = stBlockSets st" by simp_all
  then show "storeInv hash st \<Longrightarrow> storeInv hash (st\<lparr>stAdvLabelSets := ls\<rparr>)" unfolding storeInv_def by presburger
qed

lemma SyncBlocks_cases:
  assumes "SyncBlocks env (ms, p, err) st = Some (err', st')" and "storeInv (seHash env) st" and "keyed ms"
  shows "storeInv (seHash env) st'" and "err = None \<Longrightarrow> err' = None \<and> map_of (stBlocks st')
    = (\<lambda>i. if map_of ms i = None then None else map_of (stBlocks (fold (loadBlock env) ms st)) i)"
proof -
  let ?st = "fold (loadBlock env) ms st"
  have inv: "storeInv (seHash env) ?st" using loadBlocks_inv [OF assms(2)] assms(3) by (auto simp: keyed_def)
  obtain st1 where drop: "dropLoop env ms (map fst (stBlocks ?st)) ?st = Some st1" "storeInv (seHash env) st1"
    "map_of (stBlocks st1) = (\<lambda>i. if i \<in> set (map fst (stBlocks ?st)) \<and> map_of ms i = None then None else map_of (stBlocks ?st) i)"
    using dropLoop_inv [OF inv] by blast
  have adv: "storeInv (seHash env) (st1\<lparr>stAdvLabelSets := ls\<rparr>)" for ls
    using drop(2) by (rule storeInv_adv)
  show "storeInv (seHash env) st'"
    using assms(1,2) inv adv drop(1) by (auto simp: SyncBlocks_def Let_def split: if_splits)
  assume "err = None"
  then have "err' = None \<and> stBlocks st' = stBlocks st1" using assms(1) drop(1) by (auto simp: SyncBlocks_def Let_def)
  moreover have "map_of (stBlocks st1) = (\<lambda>i. if map_of ms i = None then None else map_of (stBlocks ?st) i)"
    unfolding drop(3) by (intro ext) (auto simp: map_of_eq_None_iff dest: weak_map_of_SomeI)
  ultimately show "err' = None \<and> map_of (stBlocks st') = (\<lambda>i. if map_of ms i = None then None else map_of (stBlocks ?st) i)" by simp
qed

text \<open>
  C39: a synchronisation never dereferences a missing set and keeps the store well-formed, whichever blocks fail
  to load and whether or not the fetcher reports an error, provided that every \<^verbatim>\<open>meta.json\<close> of the view
  carries the ULID of its directory: sets have sorted levels of one resolution each, no block twice, and
  agree with the map of all blocks.
\<close>

theorem SyncBlocks_wf:
  assumes "storeInv (seHash env) st" and "keyed ms"
  shows "\<exists>err' st'. SyncBlocks env (ms, p, err) st = Some (err', st') \<and> storeInv (seHash env) st'"
proof -
  have "storeInv (seHash env) (fold (loadBlock env) ms st)" using loadBlocks_inv [OF assms(1)] assms(2) by (auto simp: keyed_def)
  from dropLoop_inv [OF this] have "SyncBlocks env (ms, p, err) st \<noteq> None" by (fastforce simp: SyncBlocks_def Let_def)
  then obtain err' st' where res: "SyncBlocks env (ms, p, err) st = Some (err', st')" by auto
  from SyncBlocks_cases(1) [OF res assms] res show ?thesis by blast
qed

text \<open>
  C40: after an error-free synchronisation the store holds exactly the blocks of the view: blocks it had stay as
  they were, new ones are loaded unless their index cannot be opened, their chunks not be listed or their resolution is
  unknown, and no other block remains; provided the hash tells the label sets apart.
\<close>

theorem SyncBlocks_view:
  assumes "SyncBlocks env (ms, p, None) st = Some (err', st')" and "storeInv (seHash env) st" and "keyed ms"
    and "inj_on (seHash env) (setLabels st \<union> metaLabels ` snd ` set ms)"
  shows "err' = None \<and> map_of (stBlocks st') i =
    (case map_of ms i of
       None \<Rightarrow> None
     | Some m \<Rightarrow> (case map_of (stBlocks st) i of Some b \<Rightarrow> Some b | None \<Rightarrow> if loadable env m then newBucketBlock env m else None))"
  using SyncBlocks_cases(2) [OF assms(1-3) refl] loadBlocks_view [OF assms(2,3) order_refl assms(4), of i]
  by (auto simp: loaded_def split: option.splits)

lemma queryLoop_set:
  assumes "\<forall>(h, s) \<in> set sets. wfSet s" and "0 \<le> r"
  shows "\<exists>out. queryLoop ms mint maxt r bms sets = Inr out
    \<and> (\<forall>res b. (res, b) \<in> set out \<longleftrightarrow> (\<exists>h s bs. (h, s) \<in> set sets \<and> labelMatchers s ms = Some res \<and> getFor s mint maxt r bms = Inr bs \<and> b \<in> set bs))"
  using assms(1)
proof (induction sets)
  case (Cons x sets)
  obtain h s where x: "x = (h, s)" by fastforce
  obtain bs where bs: "getFor s mint maxt r bms = Inr bs" using getFor_covers [of s r mint maxt bms] Cons.prems x assms(2) by auto
  obtain out where out: "queryLoop ms mint maxt r bms sets = Inr out"
    "\<And>res b. (res, b) \<in> set out \<longleftrightarrow> (\<exists>h s bs. (h, s) \<in> set sets \<and> labelMatchers s ms = Some res \<and> getFor s mint maxt r bms = Inr bs \<and> b \<in> set bs)"
    using Cons by auto
  show ?case
  proof (cases "labelMatchers s ms")
    case None
    then have "queryLoop ms mint maxt r bms (x # sets) = Inr out" using x out(1) by simp
    moreover have "(res, b) \<in> set out \<longleftrightarrow>
        (\<exists>h s bs. (h, s) \<in> set (x # sets) \<and> labelMatchers s ms = Some res \<and> getFor s mint maxt r bms = Inr bs \<and> b \<in> set bs)" for res b
      unfolding out(2) x using None by auto
    ultimately show ?thesis by blast
  next
    case (Some res0)
    then have "queryLoop ms mint maxt r bms (x # sets) = Inr (map (Pair res0) bs @ out)" using x out(1) bs by simp
    moreover have "(res, b) \<in> set (map (Pair res0) bs @ out) \<longleftrightarrow>
        (\<exists>h s bs. (h, s) \<in> set (x # sets) \<and> labelMatchers s ms = Some res \<and> getFor s mint maxt r bms = Inr bs \<and> b \<in> set bs)" for res b
    proof -
      have "(res, b) \<in> set (map (Pair res0) bs @ out) \<longleftrightarrow> res = res0 \<and> b \<in> set bs \<or> (res, b) \<in> set out" by auto
      also have "\<dots> \<longleftrightarrow> (\<exists>h s bs. (h, s) \<in> set (x # sets) \<and> labelMatchers s ms = Some res \<and> getFor s mint maxt r bms = Inr bs \<and> b \<in> set bs)"
        unfolding out(2) x using Some bs by auto
      finally show ?thesis .
    qed
    ultimately show ?thesis by blast
  qed
qed simp

text \<open>
  C38: a query misses no data the store has: in a well-formed store the selection succeeds; every block it selects is
  known, overlaps the range, and the matchers that remain for its series accept exactly what the query
  accepts; and whenever a block covers an instant of the range with the coarsest allowed resolution among the
  blocks with its labels, and a series with its external labels satisfies the query, the block is selected.
\<close>

theorem queryLoop_complete:
  assumes inv: "storeInv hash st" and r: "0 \<le> r" and named: "\<forall>lset \<in> setLabels st. '''' \<notin> snd ` set lset"
  shows "\<exists>out. queryLoop ms mint maxt r bms (stBlockSets st) = Inr out
    \<and> (\<forall>res b. (res, b) \<in> set out \<longrightarrow> map_of (stBlocks st) (blockId b) = Some b \<and> inRange mint maxt b
          \<and> (\<forall>ls. matchesAll ms (blockLabels b @ ls) \<longleftrightarrow> matchesAll res ls))
    \<and> (\<forall>t i b ls. mint \<le> t \<and> t \<le> maxt \<and> map_of (stBlocks st) i = Some b \<and> covering b t \<and> blockResolution b \<le> r
          \<and> (bms = [] \<or> matchRelabelLabels bms b) \<and> matchesAll ms (blockLabels b @ ls)
          \<and> (\<forall>j b'. map_of (stBlocks st) j = Some b' \<and> blockLabels b' = blockLabels b \<and> covering b' t \<and> blockResolution b' \<le> r
               \<longrightarrow> blockResolution b' \<le> blockResolution b)
          \<longrightarrow> (\<exists>res. (res, b) \<in> set out))"
proof -
  note D = storeInvD [OF inv]
  have sets: "map_of (stBlockSets st) h = Some s" if "(h, s) \<in> set (stBlockSets st)" for h s using that D(2) by simp
  have wf: "\<forall>(h, s) \<in> set (stBlockSets st). wfSet s" using D(5) sets by blast
  obtain out where out: "queryLoop ms mint maxt r bms (stBlockSets st) = Inr out"
    and mem: "\<And>res b. (res, b) \<in> set out \<longleftrightarrow>
      (\<exists>h s bs. (h, s) \<in> set (stBlockSets st) \<and> labelMatchers s ms = Some res \<and> getFor s mint maxt r bms = Inr bs \<and> b \<in> set bs)"
    using queryLoop_set [OF wf r] by blast
  have lset: "blockLabels b = bsLabels s" "'''' \<notin> snd ` set (bsLabels s)"
    if "map_of (stBlockSets st) h = Some s" "b \<in> set (allBlocks s)" for h s b
  proof -
    show "blockLabels b = bsLabels s" using set_allBlocks [OF D(5)] wfSet_levels(4) [OF D(5)] that by blast
    have "bsLabels s \<in> setLabels st" using that(1) by (auto simp: setLabels_def)
    then show "'''' \<notin> snd ` set (bsLabels s)" using named by blast
  qed
  have "map_of (stBlocks st) (blockId b) = Some b \<and> inRange mint maxt b \<and> (\<forall>ls. matchesAll ms (blockLabels b @ ls) \<longleftrightarrow> matchesAll res ls)"
    if "(res, b) \<in> set out" for res b
  proof -
    obtain h s bs where s: "map_of (stBlockSets st) h = Some s" "labelMatchers s ms = Some res" "getFor s mint maxt r bms = Inr bs" "b \<in> set bs"
      using mem sets \<open>(res, b) \<in> set out\<close> by blast
    then have b: "b \<in> set (allBlocks s)" "inRange mint maxt b"
      using getFor_covers [OF D(5) [OF s(1)] r, of mint maxt bms] unfolding s(3) sum.inject by blast+
    then show ?thesis using D(7) [OF s(1)] lset [OF s(1)] labelMatchers_split [of s ms] s(2) by simp
  qed
  moreover have "\<exists>res. (res, b) \<in> set out"
    if t: "mint \<le> t" "t \<le> maxt" and b: "map_of (stBlocks st) i = Some b" "covering b t" "blockResolution b \<le> r"
      "bms = [] \<or> matchRelabelLabels bms b" "matchesAll ms (blockLabels b @ ls)"
      and coarsest: "\<forall>j b'. map_of (stBlocks st) j = Some b' \<and> blockLabels b' = blockLabels b \<and> covering b' t \<and> blockResolution b' \<le> r
               \<longrightarrow> blockResolution b' \<le> blockResolution b" for t i b ls
  proof -
    obtain s where s: "map_of (stBlockSets st) (hash (blockLabels b)) = Some s" "b \<in> set (allBlocks s)" using D(4) [OF b(1)] by blast
    note labs = lset [OF s]
    have "labelMatchers s ms \<noteq> None" using labelMatchers_split [OF labs(2), of ms ls] b(5) labs(1) by (auto split: option.splits)
    then obtain res where res: "labelMatchers s ms = Some res" by blast
    have "\<forall>b' \<in> set (allBlocks s). covering b' t \<and> blockResolution b' \<le> r \<longrightarrow> blockResolution b' \<le> blockResolution b"
      using coarsest D(7) [OF s(1)] lset(1) [OF s(1)] labs(1) by metis
    then obtain bs where "getFor s mint maxt r bms = Inr bs" "b \<in> set bs"
      using getFor_covers [OF D(5) [OF s(1)] r, of mint maxt bms] t b(2-4) s(2) by blast
    then show ?thesis using mem res map_of_SomeD [OF s(1)] by blast
  qed
  ultimately show ?thesis using out by blast
qed

lemma timeRange_fold:
  "fold (\<lambda>(_, b) (mint, maxt).
            (if minTime (bbMeta b) < mint then minTime (bbMeta b) else mint,
             if maxTime (bbMeta b) > maxt then maxTime (bbMeta b) else maxt)) bl (mint, maxt) = (lo, hi) \<Longrightarrow>
     lo \<le> mint \<and> maxt \<le> hi \<and> (\<forall>(i, b) \<in> set bl. lo \<le> minTime (bbMeta b) \<and> maxTime (bbMeta b) \<le> hi)"
proof (induction bl arbitrary: mint maxt)
  case (Cons x bl)
  obtain i b where x: "x = (i, b)" by fastforce
  from Cons.IH [of "if minTime (bbMeta b) < mint then minTime (bbMeta b) else mint" "if maxTime (bbMeta b) > maxt then maxTime (bbMeta b) else maxt"]
    Cons.prems x show ?case by (auto split: if_splits)
qed simp

text \<open>The advertised range covers every block, as far as the configured limits allow.\<close>

lemma TimeRange_covers:
  assumes "TimeRange filterConfig st = (mint, maxt)" and "map_of (stBlocks st) i = Some b"
    and "minTime (bbMeta b) \<le> t" and "t \<le> maxTime (bbMeta b)" and "\<And>lo hi. filterConfig = Some (lo, hi) \<Longrightarrow> lo \<le> t \<and> t \<le> hi"
  shows "mint \<le> t \<and> t \<le> maxt"
proof -
  obtain lo hi where fold: "fold (\<lambda>(_, b) (mint, maxt).
            (if minTime (bbMeta b) < mint then minTime (bbMeta b) else mint,
             if maxTime (bbMeta b) > maxt then maxTime (bbMeta b) else maxt)) (stBlocks st) (2 ^ 63 - 1, - (2 ^ 63)) = (lo, hi)"
    by fastforce
  have range: "lo \<le> t" "t \<le> hi" using timeRange_fold [OF fold] map_of_SomeD [OF assms(2)] assms(3,4) by fastforce+
  have "mint = limitMinTime filterConfig lo" "maxt = limitMaxTime filterConfig hi"
    using assms(1) unfolding TimeRange_def fold Let_def by simp_all
  then show ?thesis using range assms(5) by (auto simp: limitMinTime_def limitMaxTime_def split: option.splits)
qed

definition sampleStoreEnv :: store_env where
  "sampleStoreEnv = \<lparr>seHash = (\<lambda>ls. of_nat (length ls)), seOpens = (\<lambda>_. True), seChunkFiles = (\<lambda>_. Some []),
     seIdString = (\<lambda>_. ''id''), seCancelled = (\<lambda>_. False)\<rparr>"

definition emptyStore :: bucket_store where
  "emptyStore = \<lparr>stBlocks = [], stBlockSets = [], stAdvLabelSets = []\<rparr>"

definition sampleStore :: bucket_store where
  "sampleStore = snd (addBlock sampleStoreEnv (rawBlock 3 0 20) emptyStore)"

definition sampleView :: meta_map where
  "sampleView = [(1, rawBlock 1 0 20), (2, rawBlock 2 20 40)]"

lemma emptyStore_inv: "storeInv hash emptyStore"
  by (simp add: storeInv_def emptyStore_def)

lemma sampleStore_inv: "storeInv (seHash sampleStoreEnv) sampleStore"
  unfolding sampleStore_def
  using addBlock_inv [OF emptyStore_inv, of "rawBlock 3 0 20" sampleStoreEnv]
  by (metis emptyStore_def bucket_store.select_convs(1) map_of.simps(1) prod.collapse)

lemma sampleView_keyed: "keyed sampleView"
  by (simp add: keyed_def sampleView_def rawBlock_def)

lemma sampleStore_sets: "map (bsLabels \<circ> snd) (stBlockSets sampleStore) = [[(''cluster'', ''a'')]]"
  by code_simp

lemma sampleStore_blocks: "map (\<lambda>(i, b). (i, bbMeta b)) (stBlocks sampleStore) = [(3, rawBlock 3 0 20)]"
  by (simp add: sampleStore_def emptyStore_def sampleStoreEnv_def addBlock_def newBucketBlock_def rawBlock_def labels_from_map_def
      sort_slice_def addToSet_def newBucketBlockSet_def resolution_defs Let_def)

lemma sampleStore_labels: "setLabels sampleStore = {[(''cluster'', ''a'')]}"
proof -
  have "bsLabels ` snd ` set (stBlockSets sampleStore) = {[(''cluster'', ''a'')]}"
    using arg_cong [OF sampleStore_sets, of set] by (simp add: image_image)
  moreover have "setLabels sampleStore = bsLabels ` snd ` set (stBlockSets sampleStore)"
    using storeInvD(2) [OF sampleStore_inv] by (force simp: setLabels_def)
  ultimately show ?thesis by simp
qed

text \<open>
  Nobody checks that proviso: two directories with one ULID in their \<^verbatim>\<open>meta.json\<close> put that block into
  its set twice.
\<close>

lemma SyncBlocks_duplicates:
  "\<exists>err st s. SyncBlocks sampleStoreEnv ([(1, rawBlock 1 0 20), (2, rawBlock 1 0 20)], [], None) emptyStore = Some (err, st)
     \<and> s \<in> snd ` set (stBlockSets st) \<and> \<not> distinct (map blockId (allBlocks s))"
proof -
  let ?r = "SyncBlocks sampleStoreEnv ([(1, rawBlock 1 0 20), (2, rawBlock 1 0 20)], [], None) emptyStore"
  have "map_option (\<lambda>(err, st). map (\<lambda>(h, s). map blockId (allBlocks s)) (stBlockSets st)) ?r = Some [[1, 1]]"
    by code_simp
  then obtain err st where st: "?r = Some (err, st)"
    "map (\<lambda>(h, s). map blockId (allBlocks s)) (stBlockSets st) = [[1, 1]]" by auto
  then obtain h s where "stBlockSets st = [(h, s)]" "map blockId (allBlocks s) = [1, 1]" by auto
  then show ?thesis using st(1) by (intro exI [of _ err] exI [of _ st] exI [of _ s]) simp
qed

theorem SyncBlocks_wf_witness:
  "\<exists>err' st'. SyncBlocks sampleStoreEnv (sampleView, [], None) sampleStore = Some (err', st') \<and> storeInv (seHash sampleStoreEnv) st'"
  by (rule SyncBlocks_wf [OF sampleStore_inv sampleView_keyed])

lemma sampleView_syncs: "map_option fst (SyncBlocks sampleStoreEnv (sampleView, [], None) sampleStore) = Some None"
  by code_simp

theorem SyncBlocks_view_witness:
  "\<exists>st'. SyncBlocks sampleStoreEnv (sampleView, [], None) sampleStore = Some (None, st')
     \<and> map_option bbMeta (map_of (stBlocks st') 1) = Some (rawBlock 1 0 20) \<and> map_of (stBlocks st') 3 = None"
proof -
  obtain st' where st': "SyncBlocks sampleStoreEnv (sampleView, [], None) sampleStore = Some (None, st')"
    using sampleView_syncs by auto
  have "inj_on (seHash sampleStoreEnv) (setLabels sampleStore \<union> metaLabels ` snd ` set sampleView)"
    unfolding sampleStore_labels by (simp add: sampleView_def rawBlock_def labels_from_map_def sort_slice_def)
  note view = SyncBlocks_view [OF st' sampleStore_inv sampleView_keyed this]
  have "map_of (stBlocks sampleStore) 1 = None"
    using arg_cong [OF sampleStore_blocks, of "\<lambda>l. fst ` set l"] by (auto simp: map_of_eq_None_iff image_image split_def)
  then have "map_option bbMeta (map_of (stBlocks st') 1) = Some (rawBlock 1 0 20)"
    using view [of 1] by (simp add: sampleView_def loadable_def sampleStoreEnv_def newBucketBlock_def rawBlock_def ResLevel0_def Let_def)
  moreover have "map_of (stBlocks st') 3 = None" using view [of 3] by (simp add: sampleView_def)
  ultimately show ?thesis using st' by blast
qed

text \<open>Sets are never removed: the labels of blocks that are gone stay advertised.\<close>

lemma SyncBlocks_advertises_empty:
  "map_option (\<lambda>(err, st). (err, stBlocks st, stAdvLabelSets st)) (SyncBlocks sampleStoreEnv ([], [], None) sampleStore)
     = Some (None, [], [[(''cluster'', ''a'')]])"
  by code_simp

definition sampleQuery :: "matcher list" where
  "sampleQuery = [\<lparr>mType = MatchEqual, mName = ''cluster'', mValue = ''a'', mMatches = (\<lambda>v. v = ''a'')\<rparr>,
     \<lparr>mType = MatchEqual, mName = ''job'', mValue = ''x'', mMatches = (\<lambda>v. v = ''x'')\<rparr>]"

theorem queryLoop_complete_witness:
  "\<exists>out. queryLoop sampleQuery 0 10 0 [] (stBlockSets sampleStore) = Inr out \<and> rawBlock 3 0 20 \<in> bbMeta ` snd ` set out"
proof -
  have named: "\<forall>lset \<in> setLabels sampleStore. '''' \<notin> snd ` set lset" by (simp add: sampleStore_labels)
  obtain b where b: "stBlocks sampleStore = [(3, b)]" "bbMeta b = rawBlock 3 0 20" using sampleStore_blocks by auto
  from queryLoop_complete [OF sampleStore_inv order_refl named, of sampleQuery 0 10 "[]"] obtain out where
    out: "queryLoop sampleQuery 0 10 0 [] (stBlockSets sampleStore) = Inr out"
    and all: "\<forall>t i b ls. 0 \<le> t \<and> t \<le> 10 \<and> map_of (stBlocks sampleStore) i = Some b \<and> covering b t \<and> blockResolution b \<le> 0
          \<and> (([] :: matcher list) = [] \<or> matchRelabelLabels [] b) \<and> matchesAll sampleQuery (blockLabels b @ ls)
          \<and> (\<forall>j b'. map_of (stBlocks sampleStore) j = Some b' \<and> blockLabels b' = blockLabels b \<and> covering b' t \<and> blockResolution b' \<le> 0
               \<longrightarrow> blockResolution b' \<le> blockResolution b)
          \<longrightarrow> (\<exists>res. (res, b) \<in> set out)" by (elim exE conjE) (rule that)
  have "\<exists>res. (res, b) \<in> set out"
    by (rule all [rule_format, of 5 3 b "[(''job'', ''x'')]"])
      (auto simp: b covering_def rawBlock_def sampleQuery_def matchesAll_def labelValue_def labels_from_map_def sort_slice_def split: if_splits)
  then have "rawBlock 3 0 20 \<in> bbMeta ` snd ` set out" using b(2) by force
  with out show ?thesis by blast
qed

end
