(* ===== verification/Spec2Isabelle.thy ===== *)
theory Spec2Isabelle
  imports Compactor Series_Merge Receive_Quorum Bucket_Store
begin

text \<open>
  A verification library for Thanos, the long-term storage for Prometheus.

  \<^bold>\<open>The program.\<close> Prometheus servers and receivers write immutable blocks of samples to an object store. The
  compactor merges small blocks into larger ones, marks the old ones and deletes them later; it must never
  lose data, although every operation on the object store can fail. The store gateway answers queries from
  the blocks: it synchronises their metadata, finds the series of a query in the index of each block and
  merges the results of several stores. Receivers accept remote writes, replicate each of them to several
  nodes chosen by a hash ring and acknowledge a write once a quorum has stored it.

  \<^bold>\<open>Foundations.\<close>
  \<^item> \<open>Prelude\<close>: Go integers with the wrap-around of \<^verbatim>\<open>int64\<close> (\<open>i64\<close>) and the rounding to \<^verbatim>\<open>float64\<close>, panics as values, \<^verbatim>\<open>sort.Slice\<close> (\<open>sort_slice\<close>) with the locale \<open>slice_order\<close>, which every
    ordering of the development interprets.
  \<^item> \<open>Go_Time\<close>: \<^verbatim>\<open>time.Since\<close> and \<^verbatim>\<open>Duration.Seconds\<close> in double precision: comparing ages in seconds never takes the
    smaller for the greater and tells apart ages that differ by three microseconds.
  \<^item> \<open>Block_Meta\<close> (\<^verbatim>\<open>pkg/block/metadata\<close>): \<^verbatim>\<open>meta.json\<close>, deletion and no-compact marks.
  \<^item> \<open>Objstore\<close> (\<^verbatim>\<open>pkg/objstore\<close>): a bucket is a list of named objects, the number of operations so far and the trace
    of its states; a fault function decides which operation fails, and whether before or after its effect.
    \<open>runs\<close> is a Hoare logic over the trace, so that a claim holds in every intermediate state.
  \<^item> \<open>Label_Order\<close>: what the code relies on in the library order of label sets.

  \<^bold>\<open>Blocks in the bucket.\<close>
  \<^item> \<open>Block_Ops\<close>, \<open>Block_Safety\<close>, \<open>Block_Download\<close> (\<^verbatim>\<open>pkg/block/block.go\<close>): upload, clean-up, download, deletion and marks.
    A \<^verbatim>\<open>meta.json\<close> is only visible next to a complete block, in every state and under every fault; an uploaded
    block can be downloaded again; a deletion removes all of the block and nothing else.
  \<^item> \<open>Index_Health\<close>, \<open>Block_Repair\<close> (\<^verbatim>\<open>pkg/block/index.go\<close>): the index check accepts exactly the well-formed indexes, and
    a rewritten index passes it but for chunks partly outside the block.
  \<^item> \<open>Meta_Fetcher\<close>, \<open>Dedup_Filter\<close> (\<^verbatim>\<open>pkg/block/fetcher.go\<close>, \<^verbatim>\<open>node.go\<close>): started with caches that agree with the bucket,
    the synchronised view agrees with it; the modifier that removes replica labels changes the cached
    metadata in place (\<open>writeBack\<close>), after which they agree except for labels. The locale \<open>meta_agreement\<close> has
    the proof for both notions of agreement. The deletion-mark filter is exact up to three microseconds; a
    block dropped as a duplicate has all its sources in a surviving one.

  \<^bold>\<open>Compaction.\<close>
  \<^item> \<open>Planner\<close>, \<open>Index_Size_Filter\<close> (\<^verbatim>\<open>pkg/compact/planner.go\<close>): which blocks are compacted next. Plans contain no marked
    block, never the newest one unless blocks overlap, and the size-limiting planner terminates. Claims about
    windows assume blocks at least one range away from the ends of the \<^verbatim>\<open>int64\<close> axis, the claim about sizes
    that the total of the indexes does not overflow; lemmas show what happens otherwise.
  \<^item> \<open>Compact_Groups\<close> (\<^verbatim>\<open>pkg/compact\<close>): groups partition the blocks; garbage collection, retention and cleaning touch
    exactly the blocks they should; error classes compose.
  \<^item> \<open>Compactor\<close> (\<^verbatim>\<open>pkg/compact/compact.go\<close>): the compaction of a group, on top of all of the above. In every state a
    newly marked source block implies that the compacted block is completely uploaded (or that the block was
    empty). The locale \<open>compaction_planner\<close> is what it needs of a planner; \<open>Index_Size_Filter\<close> provides it.

  \<^bold>\<open>Queries.\<close>
  \<^item> \<open>Postings\<close> (\<^verbatim>\<open>pkg/store/postings_codec.go\<close>, \<^verbatim>\<open>bucket.go\<close>): the two iterators over sorted references implement the
    contract \<open>postings_iterator\<close>, and the compressed encoding round-trips.
  \<^item> \<open>Bucket_Index\<close>, \<open>Bucket_Query\<close> (\<^verbatim>\<open>bucket.go\<close>, \<^verbatim>\<open>opts.go\<close>): ranges are combined without losing any, fetching postings is
    exact whatever the cache holds, and a query selects exactly the series that match it. Regular
    expressions are only assumed to match literals as documented (\<open>quoteMeta\<close>, \<open>literalAlternatives\<close>); that the
    shortcut for alternatives finds just these is proved.
  \<^item> \<open>Bucket_Blocks\<close>, \<open>Bucket_Store\<close> (\<^verbatim>\<open>bucket.go\<close>): the sets of blocks with equal labels. A synchronisation keeps them
    well-formed and in step with the view of the bucket, and a query selects every block that covers an
    instant of its range with the coarsest resolution allowed.
  \<^item> \<open>Series_Merge\<close> (\<^verbatim>\<open>pkg/store/storepb/custom.go\<close>): the merge of sorted series sets is the sorted union, and no error
    is lost.
  \<^item> \<open>Labelpb\<close> (\<^verbatim>\<open>pkg/store/labelpb\<close>): the allocation-free decoder inverts the wire format; external labels win; both
    paths of the series hash agree.

  \<^bold>\<open>Receiving.\<close>
  \<^item> \<open>Receive_Hashring\<close> (\<^verbatim>\<open>pkg/receive/hashring.go\<close>): replicas are a rotation of the ring, the tenant cache is transparent.
  \<^item> \<open>Receive_Handler\<close>, \<open>Receive_Quorum\<close> (\<^verbatim>\<open>pkg/receive/handler.go\<close>, \<^verbatim>\<open>writer.go\<close>): the goroutines of a request are a step
    relation over all interleavings; an acknowledged write is stored by a quorum of the nodes of every series,
    and every request is answered after a bounded number of steps.

  \<^bold>\<open>Bounds and fuel.\<close> Recursions into directories are bounded by the depth of the bucket plus one
  (\<open>deleteBlock_fuel\<close>: never exhausted). The size-limiting planner gets one round per unmarked block plus one
  (\<open>filteredPlan_fuel\<close>). Encoding postings gets one step per value plus one (\<open>postings_codec_roundtrip\<close> has no failing
  case). Selecting blocks recurses once per resolution (\<open>getForRec_select\<close>). The endless loop of the bucket
  compactor counts its passes; nothing is claimed about their number, which depends on the library's
  compactor. All other functions are total.

  \<^bold>\<open>Parameters.\<close> Code outside the repository is an argument: the TSDB compactor, index reader and writer, the
  comparison of label sets, xxhash, snappy, the set operations on postings and the matchers of Prometheus.
  The laws they are assumed to satisfy are named predicates, and each of them is shown to hold for a concrete
  function wherever a property depends on it.

  \<^bold>\<open>Assumed of inputs.\<close> Block directories carry the ULID of their \<^verbatim>\<open>meta.json\<close> where a claim needs it (\<open>keyed\<close>,
  \<open>ownNames\<close>); the file lists of uploads carry no hashes (the default hash function); chunk directories are
  flat; blocks start after the least \<^verbatim>\<open>int64\<close>.

  \<^bold>\<open>Not modelled.\<close> Time in goroutines other than those of a write request: concurrent uploads, metadata loads and
  range reads run one after the other, since they touch different objects. Metrics, logging and tracing.
  Local files are taken to work. Downsampling and the deduplicating iterators compute with floating-point
  samples in chunk encodings of the Prometheus library. The object storage providers, gRPC and HTTP services,
  discovery, the ruler, the command line and the user interface mostly drive network libraries. The caching
  bucket and the index caches, index headers, the store proxy, the shipper, the replication and verification
  tools and the query frontend have logic of their own that is not covered.
\<close>

end
